(* ===== verification/Prelude.thy ===== *)
theory Prelude
  imports Main "HOL-Library.Word"
begin

unbundle bit_operations_syntax

text \<open>
  What every component shares: the widths of the C types (\<^verbatim>\<open>types.h\<close>), the ways in which a
  kernel function can stop without returning, sequencing of fallible steps, the two loop
  combinators the kernel's \<^verbatim>\<open>for\<close> loops are written with, and generic facts about words,
  function updates and lists.
\<close>

section \<open>C types\<close>

type_synonym u8 = "8 word"
type_synonym u16 = "16 word"
type_synonym u32 = "32 word"

text \<open>
  A C \<^verbatim>\<open>int\<close> is a \<^typ>\<open>u32\<close> read with \<^const>\<open>sint\<close>; a kernel or user pointer is a \<^typ>\<open>u32\<close>
  too, with \<open>0\<close> for the null pointer.
\<close>

type_synonym addr = "32 word"

section \<open>Collections\<close>

named_theorems kdefs \<open>definitions that stand for macros and constants of the headers\<close>
named_theorems frame_simps \<open>what a step leaves unchanged\<close>

section \<open>Results of kernel functions\<close>

text \<open>
  What a process can sleep on. In C a channel is the address of a kernel object; different
  objects have different addresses.
\<close>

datatype chan =
    ChProc nat
  | ChTicks
  | ChBuf nat
  | ChDisk nat
  | ChInode nat
  | ChLog
  | ChPipeRead addr
  | ChPipeWrite addr
  | ChConsole

text \<open>
  A kernel function returns, or it stops: \<^verbatim>\<open>panic(msg)\<close>; a read or write through a bad
  pointer; a sleep-lock that is taken (\<^verbatim>\<open>acquiresleep\<close> would put the caller to sleep, so that the
  call is not a step of the model until the lock is free); a spin lock that another CPU holds; a
  loop counter that wraps around \<open>2^32\<close>; or a walk along pointers that has not ended after as many
  steps as there are objects. The theorems about a function exclude the last two for it.
\<close>

datatype stop =
    Panic string
  | BadAccess addr
  | Sleep chan
  | Spinning
  | AddrWrap
  | Diverges

type_synonym 'a result = "stop + 'a"

definition andthen :: "'a result \<Rightarrow> ('a \<Rightarrow> 'b result) \<Rightarrow> 'b result" where
  "andthen m f = (case m of Inl e \<Rightarrow> Inl e | Inr x \<Rightarrow> f x)"

lemma andthen_Inl [simp]: "andthen (Inl e) f = Inl e"
  by (simp add: andthen_def)

lemma andthen_Inr [simp]: "andthen (Inr x) f = f x"
  by (simp add: andthen_def)

lemma andthen_eq_Inr: "andthen m f = Inr y \<longleftrightarrow> (\<exists>x. m = Inr x \<and> f x = Inr y)"
  by (cases m) auto

lemma andthen_eq_Inl: "andthen m f = Inl e \<longleftrightarrow> m = Inl e \<or> (\<exists>x. m = Inr x \<and> f x = Inl e)"
  by (cases m) auto

lemma andthen_assoc: "andthen (andthen m f) g = andthen m (\<lambda>x. andthen (f x) g)"
  by (cases m) simp_all

lemma andthen_cong [fundef_cong]:
  "m = m' \<Longrightarrow> (\<And>x. m' = Inr x \<Longrightarrow> f x = f' x) \<Longrightarrow> andthen m f = andthen m' f'"
  by (cases m') simp_all

section \<open>Loops\<close>

text \<open>
  One pass of a loop body falls through to the next pass (\<open>Next\<close>) or leaves the enclosing
  function (\<open>Leave r\<close>, the C \<^verbatim>\<open>return r\<close>).
\<close>

datatype ('r, 's) flow = Next 's | Leave 'r 's

text \<open>\<open>for (i = first; i != last; i++)\<close> over a list of indices.\<close>

fun for_each :: "('i \<Rightarrow> 's \<Rightarrow> ('r, 's) flow result) \<Rightarrow> 'i list \<Rightarrow> 's \<Rightarrow> ('r, 's) flow result" where
  "for_each body [] s = Inr (Next s)"
| "for_each body (i # is) s =
     (case body i s of
        Inl e \<Rightarrow> Inl e
      | Inr (Leave r s') \<Rightarrow> Inr (Leave r s')
      | Inr (Next s') \<Rightarrow> for_each body is s')"

text \<open>\<open>for (; a < lim; a += PGSIZE)\<close> with an unsigned counter.\<close>

lemma page_step_no_wrap:
  fixes a :: addr
  assumes "\<not> a + 4096 < a"
  shows "unat (a + 4096) = unat a + 4096"
proof -
  have "unat a + unat (4096 :: addr) < 2 ^ 32"
    using assms no_olen_add_nat [of a "4096 :: addr"] by (simp add: not_less)
  then show ?thesis
    by (simp add: unat_word_ariths)
qed

function page_loop ::
  "(addr \<Rightarrow> 's \<Rightarrow> ('r, 's) flow result) \<Rightarrow> addr \<Rightarrow> addr \<Rightarrow> 's \<Rightarrow> ('r, 's) flow result" where
  "page_loop body a lim s =
     (if a < lim then
        (case body a s of
           Inl e \<Rightarrow> Inl e
         | Inr (Leave r s') \<Rightarrow> Inr (Leave r s')
         | Inr (Next s') \<Rightarrow>
             (if a + 4096 < a then Inl AddrWrap else page_loop body (a + 4096) lim s'))
      else Inr (Next s))"
  by pat_completeness auto
termination
proof (relation "measure (\<lambda>(body, a, lim, s). unat lim - unat a)", goal_cases)
  case (2 body a lim s)
  then show ?case
    using page_step_no_wrap [of a] by (simp add: word_less_nat_alt)
qed simp

declare page_loop.simps [simp del]

lemma page_loop_done [simp]: "\<not> a < lim \<Longrightarrow> page_loop body a lim s = Inr (Next s)"
  by (subst page_loop.simps) simp

section \<open>Words\<close>

lemma word_unat_eqI: "unat a = unat b \<Longrightarrow> a = (b :: 'a :: len word)"
  by (simp add: word_unat_eq_iff)

text \<open>Masks and shifts as \<^verbatim>\<open>mod\<close> and \<^verbatim>\<open>div\<close> on the unsigned value.\<close>

lemma unat_take_bit: "unat (take_bit n (w :: 'a :: len word)) = unat w mod 2 ^ n"
  using unsigned_take_bit_eq [of n w, where 'a = nat] by (simp add: take_bit_eq_mod)

lemma unat_drop_bit: "unat (drop_bit n (w :: 'a :: len word)) = unat w div 2 ^ n"
  using unsigned_drop_bit_eq [of n w, where 'a = nat]
  by (simp add: drop_bit_eq_div take_bit_eq_mod)

lemma unat_and_mask: "unat (w AND mask n :: 'a :: len word) = unat w mod 2 ^ n"
  by (metis take_bit_eq_mask unat_take_bit)

lemma and_not_mask_eq: "w AND NOT (mask n) = push_bit n (drop_bit n (w :: 'a :: len word))"
  by (rule bit_word_eqI) (auto simp: bit_simps)

lemma unat_and_not_mask:
  "unat (w AND NOT (mask n) :: 'a :: len word) = unat w div 2 ^ n * 2 ^ n"
proof -
  have "unat (w AND NOT (mask n)) = unat w div 2 ^ n * 2 ^ n mod 2 ^ LENGTH('a)"
    using unsigned_push_bit_eq [of n "drop_bit n w", where 'a = nat]
    by (simp add: and_not_mask_eq unat_drop_bit push_bit_eq_mult take_bit_eq_mod)
  moreover have "unat w div 2 ^ n * 2 ^ n < 2 ^ LENGTH('a)"
    using unsigned_less [of w, where 'a = nat] by (meson div_times_less_eq_dividend le_less_trans)
  ultimately show ?thesis
    by simp
qed

lemma take_bit_unat_less: "unat w < 2 ^ n \<Longrightarrow> take_bit n (w :: 'a :: len word) = w"
  by (rule word_unat_eqI) (simp add: unat_take_bit)

text \<open>The value of a C \<^verbatim>\<open>int\<close>.\<close>

lemma sint_small:
  fixes w :: u32
  assumes "unat w < 0x80000000"
  shows "sint w = int (unat w)"
proof -
  have "int (unat w) < 0x80000000" "- 0x80000000 \<le> int (unat w)"
    using assms by linarith+
  then have "signed_take_bit 31 (int (unat w)) = int (unat w)"
    by (intro signed_take_bit_int_eq_self) simp_all
  then show ?thesis
    by (simp add: sint_uint)
qed

lemma unat_u32_less: "unat (w :: u32) < 0x100000000"
  using unsigned_less [of w, where 'a = nat] by simp

lemma sint_big:
  fixes w :: u32
  assumes "0x80000000 \<le> unat w"
  shows "sint w = int (unat w) - 0x100000000"
proof -
  have "- 0x80000000 \<le> int (unat w) - 0x100000000" "int (unat w) - 0x100000000 < 0"
    using assms unat_u32_less [of w] by linarith+
  then have "signed_take_bit 31 (int (unat w) - 0x100000000) = int (unat w) - 0x100000000"
    by (intro signed_take_bit_int_eq_self) simp_all
  moreover have "signed_take_bit 31 (int (unat w) - 0x100000000) = signed_take_bit 31 (int (unat w))"
    by (simp add: signed_take_bit_eq_iff_take_bit_eq take_bit_eq_mod)
  ultimately show ?thesis
    by (simp add: sint_uint)
qed

lemma sle_nat: "unat a < 0x80000000 \<Longrightarrow> unat b < 0x80000000 \<Longrightarrow> a \<le>s b \<longleftrightarrow> unat a \<le> unat b" for a b :: u32
  unfolding word_sle_eq by (simp only: sint_small of_nat_le_iff)

lemma sless_nat: "unat a < 0x80000000 \<Longrightarrow> unat b < 0x80000000 \<Longrightarrow> a <s b \<longleftrightarrow> unat a < unat b" for a b :: u32
  unfolding word_sless_alt by (simp only: sint_small of_nat_less_iff)

lemma sless_small: "unat w < 0x80000000 \<Longrightarrow> 0 <s w \<longleftrightarrow> 0 < unat w" for w :: u32
  unfolding word_sless_alt sint_0 by (simp only: sint_small of_nat_0_less_iff)

lemma sless_zero_iff: "(w :: u32) <s 0 \<longleftrightarrow> 0x80000000 \<le> unat w"
proof (cases "0x80000000 \<le> unat w")
  case True
  then have "sint w < 0"
    using sint_big [OF True] unat_u32_less [of w] by linarith
  with True show ?thesis
    by (simp add: word_sless_alt)
next
  case False
  then show ?thesis
   using sint_small [of w] by (simp add: word_sless_alt)
qed

lemma unat_add_small: "unat a + unat b < 0x100000000 \<Longrightarrow> unat (a + b) = unat a + unat b" for a b :: u32
  by (subst unat_add_lem [THEN iffD1]) simp_all

end
