(* ===== verification/Mmu.thy ===== *)
theory Mmu
  imports Prelude
begin

text \<open>
  The x86 memory-management macros of \<^verbatim>\<open>mmu.h\<close> and \<^verbatim>\<open>memlayout.h\<close>: the split of a virtual
  address into directory index, table index and offset, page rounding, the two halves of a page
  table entry, kernel-virtual and physical addresses, segment descriptors and interrupt gates.
\<close>

section \<open>Constants\<close>

abbreviation (input) PGSIZE :: u32 where "PGSIZE \<equiv> 4096"
abbreviation (input) KERNBASE :: u32 where "KERNBASE \<equiv> 0x80000000"
abbreviation (input) EXTMEM :: u32 where "EXTMEM \<equiv> 0x100000"
abbreviation (input) PHYSTOP :: u32 where "PHYSTOP \<equiv> 0xE000000"
abbreviation (input) DEVSPACE :: u32 where "DEVSPACE \<equiv> 0xFE000000"
abbreviation (input) KERNLINK :: u32 where "KERNLINK \<equiv> 0x80100000"

abbreviation (input) PTE_P :: u32 where "PTE_P \<equiv> 0x001"
abbreviation (input) PTE_W :: u32 where "PTE_W \<equiv> 0x002"
abbreviation (input) PTE_U :: u32 where "PTE_U \<equiv> 0x004"
abbreviation (input) PTE_COW :: u32 where "PTE_COW \<equiv> 0x200"

section \<open>Macros\<close>

definition V2P :: "addr \<Rightarrow> u32" where
  "V2P a = a - KERNBASE"

definition P2V :: "u32 \<Rightarrow> addr" where
  "P2V a = a + KERNBASE"

definition PDX :: "addr \<Rightarrow> u32" where
  "PDX va = drop_bit 22 va AND 0x3FF"

definition PTX :: "addr \<Rightarrow> u32" where
  "PTX va = drop_bit 12 va AND 0x3FF"

definition PGADDR :: "u32 \<Rightarrow> u32 \<Rightarrow> u32 \<Rightarrow> addr" where
  "PGADDR d t off = (push_bit 22 d OR push_bit 12 t) OR off"

definition PGROUNDUP :: "u32 \<Rightarrow> u32" where
  "PGROUNDUP sz = (sz + PGSIZE - 1) AND NOT (PGSIZE - 1)"

definition PGROUNDDOWN :: "u32 \<Rightarrow> u32" where
  "PGROUNDDOWN a = a AND NOT (PGSIZE - 1)"

definition PTE_ADDR :: "u32 \<Rightarrow> u32" where
  "PTE_ADDR pte = pte AND NOT 0xFFF"

definition PTE_FLAGS :: "u32 \<Rightarrow> u32" where
  "PTE_FLAGS pte = pte AND 0xFFF"

section \<open>Segment descriptors and interrupt gates\<close>

record segdesc =
  lim_15_0 :: "16 word"
  base_15_0 :: "16 word"
  base_23_16 :: "8 word"
  seg_type :: "4 word"
  seg_s :: "1 word"
  seg_dpl :: "2 word"
  seg_p :: "1 word"
  lim_19_16 :: "4 word"
  seg_avl :: "1 word"
  seg_rsv1 :: "1 word"
  seg_db :: "1 word"
  seg_g :: "1 word"
  base_31_24 :: "8 word"

definition SEG :: "4 word \<Rightarrow> u32 \<Rightarrow> u32 \<Rightarrow> 2 word \<Rightarrow> segdesc" where
  "SEG ty base lim dpl = \<lparr>
     lim_15_0 = ucast (drop_bit 12 lim AND 0xffff),
     base_15_0 = ucast (base AND 0xffff),
     base_23_16 = ucast (drop_bit 16 base AND 0xff),
     seg_type = ty, seg_s = 1, seg_dpl = dpl, seg_p = 1,
     lim_19_16 = ucast (drop_bit 28 lim),
     seg_avl = 0, seg_rsv1 = 0, seg_db = 1, seg_g = 1,
     base_31_24 = ucast (drop_bit 24 base)\<rparr>"

definition SEG16 :: "4 word \<Rightarrow> u32 \<Rightarrow> u32 \<Rightarrow> 2 word \<Rightarrow> segdesc" where
  "SEG16 ty base lim dpl = \<lparr>
     lim_15_0 = ucast (lim AND 0xffff),
     base_15_0 = ucast (base AND 0xffff),
     base_23_16 = ucast (drop_bit 16 base AND 0xff),
     seg_type = ty, seg_s = 1, seg_dpl = dpl, seg_p = 1,
     lim_19_16 = ucast (drop_bit 16 lim),
     seg_avl = 0, seg_rsv1 = 0, seg_db = 1, seg_g = 0,
     base_31_24 = ucast (drop_bit 24 base)\<rparr>"

record gatedesc =
  off_15_0 :: "16 word"
  gate_cs :: "16 word"
  gate_args :: "5 word"
  gate_rsv1 :: "3 word"
  gate_type :: "4 word"
  gate_s :: "1 word"
  gate_dpl :: "2 word"
  gate_p :: "1 word"
  off_31_16 :: "16 word"

abbreviation (input) STS_IG32 :: "4 word" where "STS_IG32 \<equiv> 0xE"
abbreviation (input) STS_TG32 :: "4 word" where "STS_TG32 \<equiv> 0xF"

definition SETGATE :: "gatedesc \<Rightarrow> bool \<Rightarrow> 16 word \<Rightarrow> u32 \<Rightarrow> 2 word \<Rightarrow> gatedesc" where
  "SETGATE gate istrap sel off d = gate\<lparr>
     off_15_0 := ucast (off AND 0xffff),
     gate_cs := sel, gate_args := 0, gate_rsv1 := 0,
     gate_type := (if istrap then STS_TG32 else STS_IG32),
     gate_s := 0, gate_dpl := d, gate_p := 1,
     off_31_16 := ucast (drop_bit 16 off)\<rparr>"

text \<open>What the processor reads back from a descriptor: the 32-bit base, the limit scaled by the
  granularity bit, and the 32-bit entry point of a gate.\<close>

definition seg_base :: "segdesc \<Rightarrow> u32" where
  "seg_base d = push_bit 24 (ucast (base_31_24 d)) OR push_bit 16 (ucast (base_23_16 d))
     OR ucast (base_15_0 d)"

definition seg_limit :: "segdesc \<Rightarrow> u32" where
  "seg_limit d =
     (let l = push_bit 16 (ucast (lim_19_16 d)) OR ucast (lim_15_0 d)
      in if seg_g d = 1 then push_bit 12 l OR 0xFFF else l)"

definition gate_offset :: "gatedesc \<Rightarrow> u32" where
  "gate_offset g = push_bit 16 (ucast (off_31_16 g)) OR ucast (off_15_0 g)"

section \<open>Facts about the macros\<close>

lemma mask10_u32: "(0x3FF :: u32) = mask 10"
  by (simp add: mask_eq_exp_minus_1)

lemma mask12_u32: "(0xFFF :: u32) = mask 12"
  by (simp add: mask_eq_exp_minus_1)

lemmas mmu_masks = mask10_u32 mask12_u32

lemma pgsize_mask: "PGSIZE - 1 = (mask 12 :: u32)"
  by (simp add: mask_eq_exp_minus_1)

lemma V2P_P2V [simp]: "V2P (P2V a) = a"
  by (simp add: V2P_def P2V_def)

lemma P2V_V2P [simp]: "P2V (V2P a) = a"
  by (simp add: V2P_def P2V_def)

lemma unat_PDX: "unat (PDX va) = unat va div 2 ^ 22"
proof -
  have "unat (PDX va) = unat va div 2 ^ 22 mod 2 ^ 10"
    by (simp only: PDX_def mask10_u32 unat_and_mask unat_drop_bit)
  moreover have "unat va div 2 ^ 22 < 2 ^ 10"
    using unsigned_less [of va, where 'a = nat] by simp
  ultimately show ?thesis
    by simp
qed

lemma unat_PTX: "unat (PTX va) = unat va div 2 ^ 12 mod 2 ^ 10"
  by (simp only: PTX_def mask10_u32 unat_and_mask unat_drop_bit)

lemma unat_PGROUNDDOWN: "unat (PGROUNDDOWN a) = unat a div 4096 * 4096"
  by (simp only: PGROUNDDOWN_def pgsize_mask unat_and_not_mask) simp

lemma unat_PTE_ADDR: "unat (PTE_ADDR pte) = unat pte div 4096 * 4096"
  by (simp only: PTE_ADDR_def mask12_u32 unat_and_not_mask) simp

lemma unat_PTE_FLAGS: "unat (PTE_FLAGS pte) = unat pte mod 4096"
  by (simp only: PTE_FLAGS_def mask12_u32 unat_and_mask) simp

lemma PTE_ADDR_eq_PGROUNDDOWN: "PTE_ADDR = PGROUNDDOWN"
  by (simp add: fun_eq_iff PTE_ADDR_def PGROUNDDOWN_def)

lemma PDX_bound: "unat (PDX va) < 1024"
  using unsigned_less [of va, where 'a = nat] by (simp add: unat_PDX)

lemma PTX_bound: "unat (PTX va) < 1024"
  by (simp add: unat_PTX)

subsection \<open>Page-aligned addresses\<close>

definition page_aligned :: "addr \<Rightarrow> bool" where
  "page_aligned a \<longleftrightarrow> a mod PGSIZE = 0"

lemma page_aligned_unat: "page_aligned a \<longleftrightarrow> unat a mod 4096 = 0"
proof -
  have "page_aligned a \<longleftrightarrow> unat (a mod 4096) = 0"
    by (simp only: page_aligned_def unat_eq_zero)
  then show ?thesis
    by (simp add: unat_mod)
qed

lemma page_aligned_PGROUNDDOWN [simp]: "page_aligned (PGROUNDDOWN a)"
  by (simp add: page_aligned_unat unat_PGROUNDDOWN)

lemma page_aligned_PTE_ADDR [simp]: "page_aligned (PTE_ADDR a)"
  by (simp add: PTE_ADDR_eq_PGROUNDDOWN)

lemma PGROUNDDOWN_aligned: "page_aligned a \<Longrightarrow> PGROUNDDOWN a = a"
  by (rule word_unat_eqI) (auto simp: page_aligned_unat unat_PGROUNDDOWN)

lemma PGROUNDDOWN_le: "PGROUNDDOWN a \<le> a"
  by (simp add: word_le_nat_alt unat_PGROUNDDOWN)

lemma page_aligned_mod4: "page_aligned a \<Longrightarrow> a mod 4 = 0"
proof -
  assume "page_aligned a"
  then have "unat a mod 4096 mod 4 = 0"
    by (simp add: page_aligned_unat)
  then have "unat a mod 4 = 0"
    by (simp add: mod_mod_cancel)
  then have "unat (a mod 4) = 0"
    by (simp add: unat_mod)
  then show ?thesis
    by (simp only: unat_eq_zero)
qed

lemma unat_add_mod_page: "unat (a + b :: u32) mod 4096 = (unat a + unat b) mod 4096"
  by (simp add: unat_word_ariths mod_mod_cancel)

lemma page_aligned_add: "page_aligned b \<Longrightarrow> page_aligned (a + b) \<longleftrightarrow> page_aligned a"
  by (simp add: page_aligned_unat unat_add_mod_page mod_add_eq [of _ 4096, symmetric])

lemma page_aligned_numerals [simp]:
  "page_aligned 0" "page_aligned PGSIZE" "page_aligned KERNBASE"
  by (simp_all add: page_aligned_def)

lemma page_aligned_add_page [simp]: "page_aligned (a + PGSIZE) \<longleftrightarrow> page_aligned a"
  by (simp add: page_aligned_add)

lemma page_aligned_P2V [simp]: "page_aligned (P2V a) \<longleftrightarrow> page_aligned a"
  by (simp add: P2V_def page_aligned_add)

lemma page_aligned_V2P [simp]: "page_aligned (V2P a) \<longleftrightarrow> page_aligned a"
  using page_aligned_P2V [of "V2P a"] by simp

subsection \<open>Taking addresses apart and putting them together\<close>

lemma PGADDR_split: "PGADDR (PDX va) (PTX va) (va AND 0xFFF) = va"
proof (rule bit_word_eqI)
  fix n assume n: "n < LENGTH(32)"
  consider "n < 12" | "12 \<le> n" "n < 22" | "22 \<le> n"
    by linarith
  then show "bit (PGADDR (PDX va) (PTX va) (va AND 0xFFF)) n = bit va n"
    by cases (use n in \<open>auto simp: PGADDR_def PDX_def PTX_def mmu_masks bit_simps\<close>)
qed

lemma PGADDR_parts:
  assumes "d < 1024" and "t < 1024" and "off < PGSIZE"
  shows "PDX (PGADDR d t off) = d" and "PTX (PGADDR d t off) = t"
    and "PGADDR d t off AND 0xFFF = off"
proof -
  have d: "d = take_bit 10 d" and t: "t = take_bit 10 t" and off: "off = take_bit 12 off"
    using assms by (simp_all add: word_less_nat_alt take_bit_unat_less)
  have bits: "bit d n \<Longrightarrow> n < 10" "bit t n \<Longrightarrow> n < 10" "bit off n \<Longrightarrow> n < 12" for n
    by (metis d bit_take_bit_iff, metis t bit_take_bit_iff, metis off bit_take_bit_iff)
  show "PDX (PGADDR d t off) = d"
    by (rule bit_word_eqI)
      (auto simp: PGADDR_def PDX_def mmu_masks bit_simps dest: bits)
  show "PTX (PGADDR d t off) = t"
    by (rule bit_word_eqI)
      (auto simp: PGADDR_def PTX_def mmu_masks bit_simps dest: bits)
  show "PGADDR d t off AND 0xFFF = off"
    by (rule bit_word_eqI)
      (auto simp: PGADDR_def mmu_masks bit_simps dest: bits)
qed

text \<open>Rounding up wraps to 0 in the last page; below it, the result is the least multiple of
  the page size that is not smaller.\<close>

lemma unat_PGROUNDUP: "unat (PGROUNDUP sz) = (unat sz + 4095) mod 2 ^ 32 div 4096 * 4096"
proof -
  have "unat (PGROUNDUP sz) = unat (sz + PGSIZE - 1) div 4096 * 4096"
    by (simp only: PGROUNDUP_def pgsize_mask unat_and_not_mask) simp
  moreover have "sz + PGSIZE - 1 = sz + 4095"
    by simp
  ultimately show ?thesis
    by (simp only: unat_word_ariths) simp
qed

lemma page_aligned_PGROUNDUP [simp]: "page_aligned (PGROUNDUP a)"
  by (simp add: page_aligned_unat unat_PGROUNDUP)

lemma PGROUNDUP_bounds:
  assumes "unat sz \<le> 2 ^ 32 - 4096"
  shows "unat sz \<le> unat (PGROUNDUP sz)" and "unat (PGROUNDUP sz) < unat sz + 4096"
  using assms by (simp_all add: unat_PGROUNDUP)

lemma PGROUNDUP_wraps:
  assumes "unat sz > 2 ^ 32 - 4096"
  shows "PGROUNDUP sz = 0"
proof -
  have "unat sz < 2 ^ 32"
    using unsigned_less [of sz, where 'a = nat] by simp
  then have "(unat sz + 4095) mod 2 ^ 32 = unat sz + 4095 - 2 ^ 32"
    using assms by (simp add: mod_if)
  then have "unat (PGROUNDUP sz) = 0"
    using \<open>unat sz < 2 ^ 32\<close> by (simp add: unat_PGROUNDUP)
  then show ?thesis
    by (simp add: unat_eq_zero)
qed

subsection \<open>Page table entries\<close>

lemma PTE_ADDR_FLAGS: "PTE_ADDR pte OR PTE_FLAGS pte = pte"
  by (rule bit_word_eqI) (auto simp: PTE_ADDR_def PTE_FLAGS_def mmu_masks bit_simps)

lemma PTE_make:
  assumes "page_aligned pa" and "flags < PGSIZE"
  shows "PTE_ADDR (pa OR flags) = pa" and "PTE_FLAGS (pa OR flags) = flags"
proof -
  have pa: "pa = PTE_ADDR pa"
    using assms(1) by (simp add: PTE_ADDR_eq_PGROUNDDOWN PGROUNDDOWN_aligned)
  have fl: "flags = take_bit 12 flags"
    using assms(2) by (simp add: word_less_nat_alt take_bit_unat_less)
  have bits: "bit pa n \<Longrightarrow> 12 \<le> n" "bit flags n \<Longrightarrow> n < 12" for n
    using pa fl by (metis PTE_ADDR_def mask12_u32 bit_and_iff bit_not_iff bit_mask_iff not_less
        bit_imp_possible_bit, metis bit_take_bit_iff)
  show "PTE_ADDR (pa OR flags) = pa"
    by (rule bit_word_eqI) (auto simp: PTE_ADDR_def mmu_masks bit_simps dest: bits)
  show "PTE_FLAGS (pa OR flags) = flags"
    by (rule bit_word_eqI) (auto simp: PTE_FLAGS_def mmu_masks bit_simps dest: bits)
qed

subsection \<open>Descriptors are read back as they were written\<close>

lemma mask16_u32: "(0xFFFF :: u32) = mask 16" and mask8_u32: "(0xFF :: u32) = mask 8"
  by (simp_all add: mask_eq_exp_minus_1)

lemma seg_base_SEG: "seg_base (SEG ty base lim dpl) = base"
  by (rule bit_word_eqI, rename_tac n, case_tac "n < 24")
    (auto simp: seg_base_def SEG_def mask16_u32 mask8_u32 bit_simps not_less)

lemma seg_base_SEG16: "seg_base (SEG16 ty base lim dpl) = base"
  by (rule bit_word_eqI, rename_tac n, case_tac "n < 24")
    (auto simp: seg_base_def SEG16_def mask16_u32 mask8_u32 bit_simps not_less)

lemma seg_limit_SEG: "seg_limit (SEG ty base lim dpl) = lim OR 0xFFF"
  by (rule bit_word_eqI, rename_tac n, case_tac "n < 28")
    (auto simp: seg_limit_def SEG_def mask16_u32 mask12_u32 Let_def bit_simps not_less)

lemma seg_limit_SEG16: "seg_limit (SEG16 ty base lim dpl) = take_bit 20 lim"
  by (rule bit_word_eqI, rename_tac n, case_tac "n < 16")
    (auto simp: seg_limit_def SEG16_def mask16_u32 Let_def bit_simps not_less)

lemma gate_offset_SETGATE: "gate_offset (SETGATE g istrap sel off d) = off"
  by (rule bit_word_eqI)
    (auto simp: gate_offset_def SETGATE_def mask16_u32 bit_simps not_less)

end
