(* ===== verification/Kstring.thy ===== *)
theory Kstring
  imports Mmu
begin

text \<open>
  Byte-addressed memory with little-endian 32-bit words, the string instructions of \<^verbatim>\<open>x86.h\<close>
  (\<^verbatim>\<open>stosb\<close>, \<^verbatim>\<open>stosl\<close>) and the kernel's \<^verbatim>\<open>string.c\<close>, with the closed forms that the rest of the
  development computes with.
\<close>

section \<open>Memory\<close>

type_synonym memory = "addr \<Rightarrow> u8"

definition load32 :: "memory \<Rightarrow> addr \<Rightarrow> u32" where
  "load32 m a = ucast (m a) OR push_bit 8 (ucast (m (a + 1)))
     OR push_bit 16 (ucast (m (a + 2))) OR push_bit 24 (ucast (m (a + 3)))"

definition store32 :: "addr \<Rightarrow> u32 \<Rightarrow> memory \<Rightarrow> memory" where
  "store32 a v m = m(a := ucast v, a + 1 := ucast (drop_bit 8 v),
     a + 2 := ucast (drop_bit 16 v), a + 3 := ucast (drop_bit 24 v))"

section \<open>string.c\<close>

text \<open>Runs of bytes as lists.\<close>

definition get_bytes :: "memory \<Rightarrow> addr \<Rightarrow> nat \<Rightarrow> u8 list" where
  "get_bytes m a n = map (\<lambda>i. m (a + of_nat i)) [0..<n]"

definition put_bytes :: "addr \<Rightarrow> u8 list \<Rightarrow> memory \<Rightarrow> memory" where
  "put_bytes a bs m = (\<lambda>x. if unat (x - a) < length bs then bs ! unat (x - a) else m x)"

primrec stosb :: "nat \<Rightarrow> addr \<Rightarrow> u8 \<Rightarrow> memory \<Rightarrow> memory" where
  "stosb 0 a d m = m"
| "stosb (Suc cnt) a d m = stosb cnt (a + 1) d (m(a := d))"

primrec stosl :: "nat \<Rightarrow> addr \<Rightarrow> u32 \<Rightarrow> memory \<Rightarrow> memory" where
  "stosl 0 a d m = m"
| "stosl (Suc cnt) a d m = stosl cnt (a + 4) d (store32 a d m)"

definition bytes4 :: "u32 \<Rightarrow> u32" where
  "bytes4 c = push_bit 24 c OR push_bit 16 c OR push_bit 8 c OR c"

definition memset :: "addr \<Rightarrow> u32 \<Rightarrow> u32 \<Rightarrow> memory \<Rightarrow> memory" where
  "memset dst c n m =
     (if dst mod 4 = 0 \<and> n mod 4 = 0 then
        stosl (unat (n div 4)) dst (bytes4 (c AND 0xFF)) m
      else stosb (unat n) dst (ucast c) m)"

primrec memcmp_loop :: "nat \<Rightarrow> addr \<Rightarrow> addr \<Rightarrow> memory \<Rightarrow> u32" where
  "memcmp_loop 0 s1 s2 m = 0"
| "memcmp_loop (Suc n) s1 s2 m =
     (if m s1 \<noteq> m s2 then ucast (m s1) - ucast (m s2)
      else memcmp_loop n (s1 + 1) (s2 + 1) m)"

definition memcmp :: "addr \<Rightarrow> addr \<Rightarrow> u32 \<Rightarrow> memory \<Rightarrow> u32" where
  "memcmp v1 v2 n m = memcmp_loop (unat n) v1 v2 m"

primrec copy_back :: "nat \<Rightarrow> addr \<Rightarrow> addr \<Rightarrow> memory \<Rightarrow> memory" where
  "copy_back 0 d s m = m"
| "copy_back (Suc n) d s m = copy_back n (d - 1) (s - 1) (m(d - 1 := m (s - 1)))"

primrec copy_fwd :: "nat \<Rightarrow> addr \<Rightarrow> addr \<Rightarrow> memory \<Rightarrow> memory" where
  "copy_fwd 0 d s m = m"
| "copy_fwd (Suc n) d s m = copy_fwd n (d + 1) (s + 1) (m(d := m s))"

definition memmove :: "addr \<Rightarrow> addr \<Rightarrow> u32 \<Rightarrow> memory \<Rightarrow> memory" where
  "memmove dst src n m =
     (if src < dst \<and> src + n > dst then copy_back (unat n) (dst + n) (src + n) m
      else copy_fwd (unat n) dst src m)"

primrec strncmp_loop :: "nat \<Rightarrow> addr \<Rightarrow> addr \<Rightarrow> memory \<Rightarrow> u32" where
  "strncmp_loop 0 p q m = 0"
| "strncmp_loop (Suc n) p q m =
     (if m p \<noteq> 0 \<and> m p = m q then strncmp_loop n (p + 1) (q + 1) m
      else ucast (m p) - ucast (m q))"

definition strncmp :: "addr \<Rightarrow> addr \<Rightarrow> u32 \<Rightarrow> memory \<Rightarrow> u32" where
  "strncmp p q n m = strncmp_loop (unat n) p q m"

primrec strncpy_loop :: "nat \<Rightarrow> addr \<Rightarrow> addr \<Rightarrow> memory \<Rightarrow> memory" where
  "strncpy_loop 0 s t m = m"
| "strncpy_loop (Suc n) s t m =
     (if m t \<noteq> 0 then strncpy_loop n (s + 1) (t + 1) (m(s := m t))
      else stosb n (s + 1) 0 (m(s := m t)))"

definition strncpy :: "addr \<Rightarrow> addr \<Rightarrow> u32 \<Rightarrow> memory \<Rightarrow> memory" where
  "strncpy s t n m = strncpy_loop (nat (sint n)) s t m"

primrec safestrcpy_loop :: "nat \<Rightarrow> addr \<Rightarrow> addr \<Rightarrow> memory \<Rightarrow> memory" where
  "safestrcpy_loop 0 s t m = m(s := 0)"
| "safestrcpy_loop (Suc n) s t m =
     (if m t \<noteq> 0 then safestrcpy_loop n (s + 1) (t + 1) (m(s := m t))
      else m(s := m t, s + 1 := 0))"

definition safestrcpy :: "addr \<Rightarrow> addr \<Rightarrow> u32 \<Rightarrow> memory \<Rightarrow> memory" where
  "safestrcpy s t n m =
     (if sint n \<le> 0 then m else safestrcpy_loop (nat (sint n) - 1) s t m)"

text \<open>\<^verbatim>\<open>strlen\<close> has no bound on its loop: \<^const>\<open>None\<close> when no NUL byte is found.\<close>

partial_function (option) strlen_from :: "memory \<Rightarrow> addr \<Rightarrow> nat \<Rightarrow> nat option" where
  "strlen_from m s n = (if m (s + of_nat n) = 0 then Some n else strlen_from m s (Suc n))"

definition strlen :: "memory \<Rightarrow> addr \<Rightarrow> nat option" where
  "strlen m s = strlen_from m s 0"

section \<open>Closed forms\<close>

text \<open>
  \<open>fill\<close> and \<open>blit\<close> say what a block of \<open>n\<close> bytes holds afterwards. A byte belongs to the block
  at \<open>a\<close> when its distance from \<open>a\<close>, taken modulo \<open>2^32\<close>, is below \<open>n\<close>.
\<close>

definition fill :: "addr \<Rightarrow> nat \<Rightarrow> u8 \<Rightarrow> memory \<Rightarrow> memory" where
  "fill a n d m = (\<lambda>x. if unat (x - a) < n then d else m x)"

definition blit :: "addr \<Rightarrow> addr \<Rightarrow> nat \<Rightarrow> memory \<Rightarrow> memory" where
  "blit d s n m = (\<lambda>x. if unat (x - d) < n then m (s + (x - d)) else m x)"

lemma unat_minus_one_step:
  fixes x a :: u32
  assumes "x \<noteq> a"
  shows "unat (x - a) = Suc (unat (x - (a + 1)))"
proof -
  have eq: "1 + (x - (a + 1)) = x - a"
    by simp
  show ?thesis
    using assms unatSuc [of "x - (a + 1)"] unfolding eq by simp
qed

lemma fill_Suc: "Suc n \<le> 2 ^ 32 \<Longrightarrow> fill (a + 1) n d (m(a := d)) = fill a (Suc n) d m"
  by (rule ext) (auto simp: fill_def unat_minus_one_step)

lemma stosb_fill: "n \<le> 2 ^ 32 \<Longrightarrow> stosb n a d m = fill a n d m"
proof (induction n arbitrary: a m)
  case 0
  show ?case by (simp add: fill_def)
next
  case (Suc n)
  then show ?case by (simp add: fill_Suc)
qed

lemma fill_add: "n + k \<le> 2 ^ 32 \<Longrightarrow> fill (a + of_nat n) k d (fill a n d m) = fill a (n + k) d m"
proof (induction n arbitrary: a m)
  case 0
  show ?case by (simp add: fill_def)
next
  case (Suc n)
  then have "fill (a + 1 + of_nat n) k d (fill (a + 1) n d (m(a := d)))
      = fill (a + 1) (n + k) d (m(a := d))"
    by simp
  with Suc.prems show ?case
    by (simp add: fill_Suc add.assoc)
qed

lemma store32_fill: "store32 a (bytes4 (c AND 0xFF)) m = fill a 4 (ucast c) m"
proof -
  let ?w = "bytes4 (c AND 0xFF)" and ?d = "ucast c :: u8"
  have bytes: "ucast ?w = ?d" "ucast (drop_bit 8 ?w) = ?d" "ucast (drop_bit 16 ?w) = ?d"
    "ucast (drop_bit 24 ?w) = ?d"
    unfolding bytes4_def mask8_u32 by (rule bit_word_eqI, auto simp: bit_simps)+
  have "fill a 4 ?d m = stosb 4 a ?d m"
    by (simp add: stosb_fill)
  also have "\<dots> = m(a := ?d, a + 1 := ?d, a + 2 := ?d, a + 3 := ?d)"
    by (simp add: eval_nat_numeral add.assoc)
  finally show ?thesis
    by (simp only: store32_def bytes)
qed

lemma stosl_fill:
  "4 * n \<le> 2 ^ 32 \<Longrightarrow> stosl n a (bytes4 (c AND 0xFF)) m = fill a (4 * n) (ucast c) m"
proof (induction n arbitrary: a m)
  case 0
  show ?case by (simp add: fill_def)
next
  case (Suc n)
  then show ?case
    using fill_add [of 4 "4 * n" a "ucast c" m] by (simp add: store32_fill)
qed

text \<open>Whichever instruction is used, \<^verbatim>\<open>memset\<close> fills the block with the low byte of \<open>c\<close>.\<close>

lemma memset_fill: "memset dst c n m = fill dst (unat n) (ucast c) m"
proof -
  have n: "unat n < 2 ^ 32"
    using unsigned_less [of n, where 'a = nat] by simp
  show ?thesis
  proof (cases "dst mod 4 = 0 \<and> n mod 4 = 0")
    case True
    then have "unat (n mod 4) = 0"
      by simp
    then have "4 * unat (n div 4) = unat n"
      using mult_div_mod_eq [of 4 "unat n"] by (simp add: unat_div unat_mod)
    with True n show ?thesis
      by (simp add: memset_def stosl_fill)
  next
    case False
    with n show ?thesis
      by (auto simp: memset_def stosb_fill)
  qed
qed

section \<open>Words in memory\<close>

lemma load32_store32 [simp]: "load32 (store32 a v m) a = v"
proof -
  have "load32 (store32 a v m) a = ucast (ucast v :: u8) OR push_bit 8 (ucast (ucast (drop_bit 8 v) :: u8))
     OR push_bit 16 (ucast (ucast (drop_bit 16 v) :: u8)) OR push_bit 24 (ucast (ucast (drop_bit 24 v) :: u8))"
    by (simp add: load32_def store32_def)
  also have "\<dots> = v"
    by (rule bit_word_eqI, rename_tac n, case_tac "n < 8"; case_tac "n < 16"; case_tac "n < 24")
      (auto simp: bit_simps not_less)
  finally show ?thesis .
qed

lemma load32_cong:
  assumes "m a = m' a" "m (a + 1) = m' (a + 1)" "m (a + 2) = m' (a + 2)" "m (a + 3) = m' (a + 3)"
  shows "load32 m a = load32 m' a"
  using assms by (simp add: load32_def)

lemma unat_mod4: "(a :: u32) mod 4 = 0 \<longleftrightarrow> unat a mod 4 = 0"
proof -
  have "a mod 4 = 0 \<longleftrightarrow> unat (a mod 4) = 0"
    by (simp only: unat_eq_zero)
  then show ?thesis
    by (simp add: unat_mod)
qed

lemma unat_add_mod4: "unat (a + b :: u32) mod 4 = (unat a + unat b) mod 4"
  by (simp add: unat_word_ariths mod_mod_cancel)

lemma aligned4_add_eq:
  fixes a b :: u32
  assumes "a mod 4 = 0" and "b mod 4 = 0" and "unat i < 4" and "unat j < 4"
  shows "a + i = b + j \<longleftrightarrow> a = b \<and> i = j"
proof
  assume eq: "a + i = b + j"
  have "unat (a + i) mod 4 = unat i" "unat (b + j) mod 4 = unat j"
    using assms by (simp_all add: unat_add_mod4 unat_mod4 mod_add_eq [of "unat _" 4, symmetric])
  with eq have "i = j"
    by (simp add: word_unat_eqI)
  with eq show "a = b \<and> i = j"
    by simp
qed simp

lemma load32_store32_other:
  assumes "a mod 4 = 0" and "b mod 4 = 0" and "a \<noteq> b"
  shows "load32 (store32 a v m) b = load32 m b"
proof (rule load32_cong)
  have ne: "b + j \<noteq> a + i" if "unat i < 4" "unat j < 4" for i j :: u32
    using aligned4_add_eq [OF assms(1,2) that] assms(3) by metis
  have ne0: "b \<noteq> a + i" "b + i \<noteq> a" if "unat i < 4" for i :: u32
    using ne [of i 0] ne [of 0 i] that by simp_all
  show "store32 a v m b = m b" "store32 a v m (b + 1) = m (b + 1)"
    "store32 a v m (b + 2) = m (b + 2)" "store32 a v m (b + 3) = m (b + 3)"
    using assms(3) by (simp_all add: store32_def ne ne0)
qed

subsection \<open>Pages\<close>

lemma page_end_bound:
  assumes "page_aligned p"
  shows "unat p + 4096 \<le> 2 ^ 32"
proof -
  obtain k where k: "unat p = 4096 * k"
    using assms by (auto simp: page_aligned_unat elim: dvdE dest: mod_0_imp_dvd)
  moreover have "unat p < 2 ^ 32"
    using unsigned_less [of p, where 'a = nat] by simp
  ultimately have "k < 2 ^ 20"
    by simp
  with k show ?thesis
    by simp
qed

lemma PGROUNDUP_aligned:
  assumes "page_aligned p"
  shows "PGROUNDUP p = p"
proof -
  obtain k where k: "unat p = 4096 * k"
    using assms by (auto simp: page_aligned_unat elim: dvdE dest: mod_0_imp_dvd)
  moreover have "(unat p + 4095) mod 2 ^ 32 = unat p + 4095"
    using page_end_bound [OF assms] by simp
  ultimately show ?thesis
    by (intro word_unat_eqI) (simp only: unat_PGROUNDUP, simp)
qed

lemma unat_page_add:
  assumes "page_aligned p" and "unat i < 4096"
  shows "unat (p + i) = unat p + unat i"
  using page_end_bound [OF assms(1)] assms(2) by (simp add: unat_word_ariths)

lemma PGROUNDDOWN_add:
  assumes "page_aligned p" and "unat i < 4096"
  shows "PGROUNDDOWN (p + i) = p"
proof -
  obtain k where k: "unat p = 4096 * k"
    using assms(1) by (auto simp: page_aligned_unat elim: dvdE dest: mod_0_imp_dvd)
  then have "(unat p + unat i) div 4096 * 4096 = unat p"
    using assms(2) by simp
  then show ?thesis
    by (intro word_unat_eqI) (simp only: unat_PGROUNDDOWN unat_page_add [OF assms])
qed

lemma unat_page_offset: "unat (x - PGROUNDDOWN x) = unat x mod 4096"
  using unat_sub [OF PGROUNDDOWN_le, of x] by (simp add: unat_PGROUNDDOWN minus_div_mult_eq_mod)

lemma PGROUNDDOWN_eq_iff:
  assumes "page_aligned p"
  shows "PGROUNDDOWN x = p \<longleftrightarrow> unat (x - p) < 4096"
proof
  assume "PGROUNDDOWN x = p"
  then show "unat (x - p) < 4096"
    using unat_page_offset [of x] by simp
next
  assume "unat (x - p) < 4096"
  from PGROUNDDOWN_add [OF assms this] show "PGROUNDDOWN x = p"
    by simp
qed

lemma fill_page:
  "page_aligned p \<Longrightarrow> fill p 4096 d m x = (if PGROUNDDOWN x = p then d else m x)"
  by (simp add: fill_def PGROUNDDOWN_eq_iff)

lemma PGROUNDDOWN_word:
  assumes "a mod 4 = 0" and "unat i < 4"
  shows "PGROUNDDOWN (a + i) = PGROUNDDOWN a"
proof -
  let ?o = "a - PGROUNDDOWN a"
  have "unat ?o mod 4 = 0"
    using assms(1) by (simp add: unat_mod4 unat_page_offset mod_mod_cancel)
  then obtain k where k: "unat ?o = 4 * k"
    by (auto elim: dvdE dest: mod_0_imp_dvd)
  have "unat ?o < 4096"
    by (simp add: unat_page_offset)
  with k have "k < 1024"
    by simp
  with k have "unat ?o + unat i < 4096"
    using assms(2) by simp
  then have "unat (?o + i) < 4096"
    by (simp add: unat_word_ariths)
  then have "PGROUNDDOWN (PGROUNDDOWN a + (?o + i)) = PGROUNDDOWN a"
    by (intro PGROUNDDOWN_add) simp_all
  then show ?thesis
    by simp
qed

lemma store32_other_page:
  assumes "a mod 4 = 0" and "PGROUNDDOWN x \<noteq> PGROUNDDOWN a"
  shows "store32 a v m x = m x"
proof -
  have "x \<noteq> a + i" if "unat i < 4" for i
    using assms PGROUNDDOWN_word [OF assms(1) that] by auto
  from this [of 0] this [of 1] this [of 2] this [of 3] show ?thesis
    by (simp add: store32_def)
qed

lemma load32_page_cong:
  assumes "a mod 4 = 0" and "\<And>x. PGROUNDDOWN x = PGROUNDDOWN a \<Longrightarrow> m x = m' x"
  shows "load32 m a = load32 m' a"
  using assms PGROUNDDOWN_word [OF assms(1)] by (intro load32_cong) simp_all

lemma load32_fill_zero:
  assumes "page_aligned p" and "a mod 4 = 0"
  shows "load32 (fill p 4096 0 m) a = (if PGROUNDDOWN a = p then 0 else load32 m a)"
  using assms PGROUNDDOWN_word [OF assms(2)] by (simp add: load32_def fill_page)

lemma load32_fill_other:
  assumes "page_aligned p" and "a mod 4 = 0" and "PGROUNDDOWN a \<noteq> p"
  shows "load32 (fill p 4096 d m) a = load32 m a"
  using assms by (intro load32_page_cong) (auto simp: fill_page)

section \<open>memmove, memcmp\<close>

lemma blit_Suc:
  assumes "Suc n \<le> 2 ^ 32" and "d = s \<or> Suc n \<le> unat (d - s)"
  shows "blit (d + 1) (s + 1) n (m(d := m s)) = blit d s (Suc n) m"
proof (rule ext)
  fix x
  show "blit (d + 1) (s + 1) n (m(d := m s)) x = blit d s (Suc n) m x"
  proof (cases "x = d")
    case True
    have "d - (d + 1) = (- 1 :: u32)"
      by simp
    moreover have "unat (- 1 :: u32) = 2 ^ 32 - 1"
      by (simp add: unsigned_minus_1_eq_mask mask_eq_exp_minus_1)
    ultimately have "\<not> unat (d - (d + 1)) < n"
      using assms(1) by simp
    with True show ?thesis
      by (simp add: blit_def)
  next
    case False
    have "s + 1 + (x - (d + 1)) = s + (x - d)"
      by simp
    moreover have "s + (x - d) \<noteq> d" if "unat (x - d) < Suc n"
    proof (cases "d = s")
      case True
      with False show ?thesis by simp
    next
      case ds: False
      show ?thesis
      proof
      assume "s + (x - d) = d"
      then have "x - d = d - s"
        by (metis add_diff_cancel_left')
      with that assms(2) ds show False
        by simp
      qed
    qed
    ultimately show ?thesis
      using False by (simp add: blit_def unat_minus_one_step del: add_diff_eq)
  qed
qed

lemma copy_fwd_blit:
  "n \<le> 2 ^ 32 \<Longrightarrow> d = s \<or> n \<le> unat (d - s) \<Longrightarrow> copy_fwd n d s m = blit d s n m"
proof (induction n arbitrary: d s m)
  case 0
  show ?case by (simp add: blit_def)
next
  case (Suc n)
  have "copy_fwd n (d + 1) (s + 1) (m(d := m s)) = blit (d + 1) (s + 1) n (m(d := m s))"
    using Suc.prems by (intro Suc.IH) auto
  with Suc.prems show ?case
    by (simp add: blit_Suc)
qed

lemma copy_back_blit:
  "n \<le> 2 ^ 32 \<Longrightarrow> d = s \<or> n \<le> unat (s - d) \<Longrightarrow>
   copy_back n (d + of_nat n) (s + of_nat n) m = blit d s n m"
proof (induction n arbitrary: m)
  case 0
  show ?case by (simp add: blit_def)
next
  case (Suc n)
  let ?dn = "d + of_nat n" and ?sn = "s + of_nat n"
  have ends: "d + of_nat (Suc n) - 1 = ?dn" "s + of_nat (Suc n) - 1 = ?sn"
    by simp_all
  have step: "copy_back (Suc n) (d + of_nat (Suc n)) (s + of_nat (Suc n)) m
      = copy_back n ?dn ?sn (m(?dn := m ?sn))"
    by (simp only: copy_back.simps ends)
  have IH: "copy_back n ?dn ?sn (m(?dn := m ?sn)) = blit d s n (m(?dn := m ?sn))"
    using Suc.prems by (intro Suc.IH) auto
  have n: "unat (of_nat n :: u32) = n"
    using Suc.prems(1) by (simp add: unat_of_nat)
  have "blit d s n (m(?dn := m ?sn)) x = blit d s (Suc n) m x" for x
  proof (cases "x = ?dn")
    case True
    then show ?thesis
      by (simp add: blit_def n)
  next
    case False
    then have ne: "unat (x - d) \<noteq> n"
      using n by (metis add.commute diff_add_cancel word_unat_eqI)
    have same: "s + (x - d) \<noteq> ?dn" if "unat (x - d) < n" "d \<noteq> s"
    proof
      assume "s + (x - d) = ?dn"
      then have eq: "s - d = of_nat n - (x - d)"
        by (simp add: algebra_simps)
      have "unat (of_nat n - (x - d)) \<le> n"
        using that n by (simp add: unat_sub word_le_nat_alt)
      then have "unat (s - d) \<le> n"
        by (simp only: eq)
      with Suc.prems(2) that show False
        by simp
    qed
    show ?thesis
    proof (cases "unat (x - d) < n")
      case True
      with same have "(m(?dn := m ?sn)) (s + (x - d)) = m (s + (x - d))"
        by (cases "d = s") auto
      with True show ?thesis
        by (simp only: blit_def less_SucI if_True)
    next
      case False
      with ne have "\<not> unat (x - d) < Suc n"
        by simp
      with False \<open>x \<noteq> ?dn\<close> show ?thesis
        by (simp add: blit_def)
    qed
  qed
  with step IH show ?case
    by (metis ext)
qed

text \<open>
  \<^verbatim>\<open>memmove\<close> copies the block as it was before the call, however the two blocks overlap, as long
  as neither block runs past the end of the address space.
\<close>

lemma memmove_blit:
  assumes "unat src + unat n < 2 ^ 32" and "unat dst + unat n \<le> 2 ^ 32"
  shows "memmove dst src n m = blit dst src (unat n) m"
proof (cases "src < dst \<and> src + n > dst")
  case True
  have "unat (src - dst) = 2 ^ 32 + unat src - unat dst"
    using True by (simp add: unat_sub_if' word_less_nat_alt)
  then have "unat n \<le> unat (src - dst)"
    using assms by simp
  then have "copy_back (unat n) (dst + of_nat (unat n)) (src + of_nat (unat n)) m
      = blit dst src (unat n) m"
    using unsigned_less [of n, where 'a = nat] by (intro copy_back_blit) simp_all
  with True show ?thesis
    by (simp add: memmove_def)
next
  case False
  have sum: "unat (src + n) = unat src + unat n"
    using assms(1) by (simp add: unat_word_ariths)
  have "dst = src \<or> unat n \<le> unat (dst - src)"
  proof (cases "src < dst")
    case True
    with False have "unat src + unat n \<le> unat dst"
      by (simp add: word_less_nat_alt sum not_less)
    moreover have "unat (dst - src) = unat dst - unat src"
      using True by (simp add: unat_sub word_less_nat_alt word_le_nat_alt)
    ultimately show ?thesis
      by linarith
  next
    case False
    show ?thesis
    proof (cases "dst = src")
      case False
      with \<open>\<not> src < dst\<close> have "\<not> src \<le> dst"
        by simp
      then have "unat (dst - src) = 2 ^ 32 + unat dst - unat src"
        by (simp add: unat_sub_if' word_le_nat_alt)
      with assms(1) show ?thesis
        by linarith
    qed simp
  qed
  then show ?thesis
    using False unsigned_less [of n, where 'a = nat]
    by (auto simp: memmove_def copy_fwd_blit)
qed

lemma unat_ucast_u8_u32 [simp]: "unat (ucast (x :: u8) :: u32) = unat x"
proof -
  have "unat x < 2 ^ 32"
    using unsigned_less [of x, where 'a = nat] by simp
  then show ?thesis
    by (simp add: unsigned_ucast_eq take_bit_eq_mod)
qed

lemma ucast_u8_u32_eq [simp]: "(ucast (x :: u8) :: u32) = ucast y \<longleftrightarrow> x = y"
  by (metis unat_ucast_u8_u32 word_unat_eqI)

lemma ucast_u8_u32_zero [simp]: "(ucast (x :: u8) :: u32) = 0 \<longleftrightarrow> x = 0"
  "(0 :: u32) = ucast (x :: u8) \<longleftrightarrow> x = 0"
  using ucast_u8_u32_eq [of x 0] by auto

lemma memcmp_loop_zero:
  "memcmp_loop n s1 s2 m = 0 \<longleftrightarrow> (\<forall>i < n. m (s1 + of_nat i) = m (s2 + of_nat i))"
proof (induction n arbitrary: s1 s2)
  case (Suc n)
  have "memcmp_loop n (s1 + 1) (s2 + 1) m = 0
      \<longleftrightarrow> (\<forall>i < n. m (s1 + of_nat (Suc i)) = m (s2 + of_nat (Suc i)))"
    by (simp add: Suc.IH add.assoc)
  then show ?case
    by (auto simp: All_less_Suc2 simp del: of_nat_Suc)
qed simp

section \<open>NUL-terminated strings\<close>

text \<open>\<open>str_at m p cs\<close>: the bytes \<open>cs\<close>, none of them NUL, and then a NUL, are at \<open>p\<close>.\<close>

primrec str_at :: "memory \<Rightarrow> addr \<Rightarrow> u8 list \<Rightarrow> bool" where
  "str_at m p [] = (m p = 0)"
| "str_at m p (c # cs) = (m p = c \<and> c \<noteq> 0 \<and> str_at m (p + 1) cs)"

lemma str_at_frame:
  "str_at m p cs \<Longrightarrow> (\<And>i. i \<le> length cs \<Longrightarrow> m' (p + of_nat i) = m (p + of_nat i)) \<Longrightarrow> str_at m' p cs"
proof (induction cs arbitrary: p)
  case Nil
  then show ?case by force
next
  case (Cons c cs)
  have "str_at m' (p + 1) cs"
  proof (rule Cons.IH)
    show "str_at m (p + 1) cs"
      using Cons.prems(1) by simp
    show "m' (p + 1 + of_nat i) = m (p + 1 + of_nat i)" if "i \<le> length cs" for i
      using Cons.prems(2) [of "Suc i"] that by (simp add: add.assoc)
  qed
  moreover have "m' p = m p"
    using Cons.prems(2) [of 0] by simp
  ultimately show ?case
    using Cons.prems(1) by simp
qed

lemma strlen_from_str_at: "str_at m (s + of_nat n) cs \<Longrightarrow> strlen_from m s n = Some (n + length cs)"
proof (induction cs arbitrary: n)
  case Nil
  then show ?case by (simp add: strlen_from.simps)
next
  case (Cons c cs)
  then have "strlen_from m s (Suc n) = Some (Suc n + length cs)"
    by (intro Cons.IH) (simp add: ac_simps)
  with Cons.prems show ?case
    by (subst strlen_from.simps) auto
qed

lemma strlen_str_at: "str_at m s cs \<Longrightarrow> strlen m s = Some (length cs)"
  using strlen_from_str_at [of m s 0 cs] by (simp add: strlen_def)

lemma strncmp_loop_zero:
  "str_at m p xs \<Longrightarrow> str_at m q ys \<Longrightarrow> strncmp_loop n p q m = 0 \<longleftrightarrow> take n xs = take n ys"
proof (induction n arbitrary: p q xs ys)
  case (Suc n)
  then show ?case
    by (cases xs; cases ys) auto
qed simp

lemma unat_offset_Suc: "Suc k < unat (x - s) \<Longrightarrow> x \<noteq> s \<and> k < unat (x - (s + 1))" for x s :: u32
  by (cases "x = s") (auto simp: unat_minus_one_step)

lemma safestrcpy_loop_frame: "k < unat (x - s) \<Longrightarrow> safestrcpy_loop k s t m x = m x"
proof (induction k arbitrary: s t m)
  case (Suc k)
  from unat_offset_Suc [OF Suc.prems] have ne: "x \<noteq> s" and k: "k < unat (x - (s + 1))"
    by simp_all
  moreover from k have "x \<noteq> s + 1"
    by auto
  ultimately show ?case
    by (simp add: Suc.IH)
qed auto

lemma unat_neg_one_u32: "unat (- 1 :: u32) = 2 ^ 32 - 1"
  by (simp add: unsigned_minus_1_eq_mask mask_eq_exp_minus_1)

lemma safestrcpy_loop_str_at:
  assumes "str_at m t cs" and "k < 2 ^ 32 - 1"
    and "\<And>i j. i \<le> length cs \<Longrightarrow> j \<le> k \<Longrightarrow> t + of_nat i \<noteq> s + of_nat j"
  shows "str_at (safestrcpy_loop k s t m) s (take k cs)"
  using assms
proof (induction k arbitrary: s t m cs)
  case 0
  then show ?case by simp
next
  case (Suc k)
  show ?case
  proof (cases cs)
    case Nil
    with Suc.prems show ?thesis by simp
  next
    case (Cons c cs')
    let ?m = "m(s := c)"
    have sep: "t + of_nat i \<noteq> s + of_nat j" if "i \<le> Suc (length cs')" "j \<le> Suc k" for i j
      using Suc.prems(3) Cons that by simp
    have "str_at ?m (t + 1) cs'"
    proof (rule str_at_frame)
      show "str_at m (t + 1) cs'"
        using Suc.prems(1) Cons by simp
      show "?m (t + 1 + of_nat i) = m (t + 1 + of_nat i)" if "i \<le> length cs'" for i
        using sep [of "Suc i" 0] that by (simp add: add.assoc)
    qed
    then have "str_at (safestrcpy_loop k (s + 1) (t + 1) ?m) (s + 1) (take k cs')"
    proof (rule Suc.IH)
      show "k < 2 ^ 32 - 1"
        using Suc.prems(2) by simp
      show "t + 1 + of_nat i \<noteq> s + 1 + of_nat j" if "i \<le> length cs'" "j \<le> k" for i j
        using sep [of "Suc i" "Suc j"] that by (simp add: add.assoc)
    qed
    moreover have "safestrcpy_loop k (s + 1) (t + 1) ?m s = c"
      using Suc.prems(2) unat_neg_one_u32 by (subst safestrcpy_loop_frame) auto
    ultimately show ?thesis
      using Suc.prems(1) Cons by simp
  qed
qed

end
