(* ===== verification/Kalloc.thy ===== *)
theory Kalloc
  imports Kstring
begin

text \<open>
  The physical page allocator, \<^verbatim>\<open>kalloc.c\<close>: the free list that is threaded through the free
  pages themselves, and the per-page reference counts that copy-on-write \<^verbatim>\<open>fork\<close> relies on.
  \<open>kern_end\<close> is the linker symbol \<^verbatim>\<open>end\<close>. A page is named by the kernel-virtual address of its
  first byte, as in the code.
\<close>

section \<open>State and operations\<close>

record kmem_state =
  mem :: memory
  use_lock :: bool
  freelist :: addr
  ref_counts :: "u32 \<Rightarrow> u8"
  kern_end :: addr

definition init_refs :: "'a kmem_state_scheme \<Rightarrow> 'a kmem_state_scheme" where
  "init_refs s = s\<lparr>ref_counts := (\<lambda>_. 0)\<rparr>"

definition get_ref_count :: "u32 \<Rightarrow> 'a kmem_state_scheme \<Rightarrow> u8 result" where
  "get_ref_count pa s =
     (if pa \<ge> PHYSTOP then Inl (Panic ''get_ref_count'')
      else Inr (ref_counts s (pa div PGSIZE)))"

definition incref :: "u32 \<Rightarrow> 'a kmem_state_scheme \<Rightarrow> 'a kmem_state_scheme result" where
  "incref pa s =
     (if pa \<ge> PHYSTOP then Inl (Panic ''incref: invalid physical address: '')
      else Inr (s\<lparr>ref_counts := (ref_counts s)(pa div PGSIZE := ref_counts s (pa div PGSIZE) + 1)\<rparr>))"

definition kfree :: "addr \<Rightarrow> 'a kmem_state_scheme \<Rightarrow> 'a kmem_state_scheme result" where
  "kfree v s =
     (if v mod PGSIZE \<noteq> 0 \<or> v < kern_end s \<or> V2P v \<ge> PHYSTOP then Inl (Panic ''kfree'')
      else andthen (get_ref_count (V2P v) s) (\<lambda>rc.
        if rc > 1 then Inr s
        else Inr (s\<lparr>mem := store32 v (freelist s) (memset v 1 PGSIZE (mem s)), freelist := v\<rparr>)))"

definition decref :: "u32 \<Rightarrow> 'a kmem_state_scheme \<Rightarrow> 'a kmem_state_scheme result" where
  "decref pa s =
     (if pa \<ge> PHYSTOP then Inl (Panic ''decref: invalid physical address'')
      else andthen (if ref_counts s (pa div PGSIZE) < 1 then kfree (P2V pa) s else Inr s) (\<lambda>s.
        let s = s\<lparr>ref_counts :=
                   (ref_counts s)(pa div PGSIZE := ref_counts s (pa div PGSIZE) - 1)\<rparr>
        in if ref_counts s (pa div PGSIZE) = 0 then kfree (P2V pa) s else Inr s))"

definition kalloc :: "'a kmem_state_scheme \<Rightarrow> addr \<times> 'a kmem_state_scheme" where
  "kalloc s =
     (let r = freelist s;
          s = (if r \<noteq> 0 then s\<lparr>freelist := load32 (mem s) r\<rparr> else s);
          pa = V2P r
      in (r, s\<lparr>ref_counts := (ref_counts s)(pa div PGSIZE := 1)\<rparr>))"

function freerange_loop ::
  "addr \<Rightarrow> addr \<Rightarrow> 'a kmem_state_scheme \<Rightarrow> 'a kmem_state_scheme result" where
  "freerange_loop p vend s =
     (if p + PGSIZE \<le> vend then
        andthen (kfree p s) (\<lambda>s.
          if p + PGSIZE < p then Inl AddrWrap else freerange_loop (p + PGSIZE) vend s)
      else Inr s)"
  by pat_completeness auto
termination
proof (relation "measure (\<lambda>(p, vend, s). unat vend - unat p)", goal_cases)
  case (2 p vend s)
  then show ?case
    using page_step_no_wrap [of p] by (simp add: word_le_nat_alt)
qed simp

declare freerange_loop.simps [simp del]

definition freerange :: "addr \<Rightarrow> addr \<Rightarrow> 'a kmem_state_scheme \<Rightarrow> 'a kmem_state_scheme result" where
  "freerange vstart vend s = freerange_loop (PGROUNDUP vstart) vend s"

definition kinit1 :: "addr \<Rightarrow> addr \<Rightarrow> 'a kmem_state_scheme \<Rightarrow> 'a kmem_state_scheme result" where
  "kinit1 vstart vend s = freerange vstart vend (s\<lparr>use_lock := False\<rparr>)"

definition kinit2 :: "addr \<Rightarrow> addr \<Rightarrow> 'a kmem_state_scheme \<Rightarrow> 'a kmem_state_scheme result" where
  "kinit2 vstart vend s =
     andthen (freerange vstart vend s) (\<lambda>s. Inr (s\<lparr>use_lock := True\<rparr>))"

section \<open>The free list as a list of pages\<close>

primrec chain :: "memory \<Rightarrow> addr \<Rightarrow> addr list \<Rightarrow> bool" where
  "chain m r [] = (r = 0)"
| "chain m r (x # xs) = (r = x \<and> x \<noteq> 0 \<and> chain m (load32 m x) xs)"

text \<open>The pages \<^verbatim>\<open>kfree\<close> accepts.\<close>

definition kpage :: "'a kmem_state_scheme \<Rightarrow> addr \<Rightarrow> bool" where
  "kpage s v \<longleftrightarrow> page_aligned v \<and> kern_end s \<le> v \<and> V2P v < PHYSTOP"

definition free_inv :: "'a kmem_state_scheme \<Rightarrow> addr list \<Rightarrow> bool" where
  "free_inv s xs \<longleftrightarrow> chain (mem s) (freelist s) xs \<and> distinct xs \<and> (\<forall>x \<in> set xs. kpage s x)"

definition ref_count :: "'a kmem_state_scheme \<Rightarrow> addr \<Rightarrow> u8" where
  "ref_count s v = ref_counts s (V2P v div PGSIZE)"

lemma chain_frame:
  "chain m r xs \<Longrightarrow> (\<And>x. x \<in> set xs \<Longrightarrow> load32 m' x = load32 m x) \<Longrightarrow> chain m' r xs"
  by (induction xs arbitrary: r) auto

lemma chain_unique: "chain m r xs \<Longrightarrow> chain m r ys \<Longrightarrow> xs = ys"
  by (induction xs arbitrary: r ys) (case_tac ys; auto)+

lemma free_inv_unique: "free_inv s xs \<Longrightarrow> free_inv s ys \<Longrightarrow> xs = ys"
  by (auto simp: free_inv_def intro: chain_unique)

lemma kpage_nonzero: "kpage s v \<Longrightarrow> v \<noteq> 0"
  by (auto simp: kpage_def V2P_def)

lemma kpage_div_inj:
  assumes "page_aligned a" and "page_aligned b" and "V2P a div PGSIZE = V2P b div PGSIZE"
  shows "a = b"
proof -
  have "unat (V2P a) div 4096 = unat (V2P b) div 4096"
    using arg_cong [OF assms(3), of unat] by (simp add: unat_div)
  moreover have "unat (V2P a) mod 4096 = 0" "unat (V2P b) mod 4096 = 0"
    using assms(1,2) by (simp_all flip: page_aligned_unat)
  ultimately have "unat (V2P a) = unat (V2P b)"
    by (metis div_mult_mod_eq)
  then have "V2P a = V2P b"
    by (rule word_unat_eqI)
  then show ?thesis
    by (metis P2V_V2P)
qed

section \<open>Single operations\<close>

lemma kfree_shared:
  assumes "kpage s v" and "ref_count s v > 1"
  shows "kfree v s = Inr s"
  using assms by (auto simp: kfree_def get_ref_count_def kpage_def page_aligned_def ref_count_def)

lemma kfree_private:
  assumes "kpage s v" and "ref_count s v \<le> 1"
  shows "kfree v s =
    Inr (s\<lparr>mem := store32 v (freelist s) (fill v 4096 1 (mem s)), freelist := v\<rparr>)"
  using assms
  by (auto simp: kfree_def get_ref_count_def kpage_def page_aligned_def ref_count_def memset_fill)

lemma kfree_bad:
  assumes "\<not> kpage s v"
  shows "kfree v s = Inl (Panic ''kfree'')"
proof -
  have "v mod PGSIZE \<noteq> 0 \<or> v < kern_end s \<or> V2P v \<ge> PHYSTOP"
    using assms unfolding kpage_def page_aligned_def by (meson not_le)
  then show ?thesis
    by (simp only: kfree_def if_True)
qed

lemma kfree_result:
  assumes "kfree v s = Inr s'"
  shows "kpage s v"
    and "s' = s \<or> s' = s\<lparr>mem := store32 v (freelist s) (fill v 4096 1 (mem s)), freelist := v\<rparr>"
  using assms kfree_bad [of s v] kfree_shared [of s v] kfree_private [of s v]
  by (cases "kpage s v"; cases "ref_count s v > 1"; force)+

lemma kfree_frame [frame_simps]:
  assumes "kfree v s = Inr s'"
  shows "ref_counts s' = ref_counts s" "kern_end s' = kern_end s" "use_lock s' = use_lock s"
    "kmem_state.more s' = kmem_state.more s"
  using kfree_result(2) [OF assms] by auto

lemma kfree_mem_other:
  assumes "kfree v s = Inr s'" and "PGROUNDDOWN x \<noteq> v"
  shows "mem s' x = mem s x"
proof -
  have v: "page_aligned v"
    using kfree_result(1) [OF assms(1)] by (simp add: kpage_def)
  then have "store32 v w m x = m x" for w m
    using assms(2) by (intro store32_other_page) (simp_all add: page_aligned_mod4 PGROUNDDOWN_aligned)
  then show ?thesis
    using kfree_result(2) [OF assms(1)] assms(2) v by (auto simp: fill_page)
qed

lemma kfree_load32_other:
  assumes "kfree v s = Inr s'" and "PGROUNDDOWN a \<noteq> v" and "a mod 4 = 0"
  shows "load32 (mem s') a = load32 (mem s) a"
  using assms by (intro load32_page_cong) (auto intro: kfree_mem_other)

lemma kfree_free_inv:
  assumes inv: "free_inv s xs" and v: "v \<notin> set xs" and priv: "ref_count s v \<le> 1"
    and free: "kfree v s = Inr s'"
  shows "free_inv s' (v # xs)"
proof -
  have kp: "kpage s v" and al: "page_aligned v"
    using kfree_result(1) [OF free] by (simp_all add: kpage_def)
  have s': "s' = s\<lparr>mem := store32 v (freelist s) (fill v 4096 1 (mem s)), freelist := v\<rparr>"
    using free kfree_private [OF kp priv] by simp
  have "load32 (mem s') x = load32 (mem s) x" if "x \<in> set xs" for x
  proof (rule kfree_load32_other [OF free])
    have "page_aligned x"
      using inv that by (auto simp: free_inv_def kpage_def)
    then show "PGROUNDDOWN x \<noteq> v" "x mod 4 = 0"
      using v that by (auto simp: PGROUNDDOWN_aligned page_aligned_mod4)
  qed
  then have "chain (mem s') (freelist s) xs"
    using inv by (auto simp: free_inv_def intro: chain_frame)
  then show ?thesis
    using inv v kp kpage_nonzero [OF kp] by (auto simp: free_inv_def s' kpage_def)
qed

lemma kalloc_frame [simp]:
  "mem (snd (kalloc s)) = mem s" "kern_end (snd (kalloc s)) = kern_end s"
  "use_lock (snd (kalloc s)) = use_lock s"
  "kmem_state.more (snd (kalloc s)) = kmem_state.more s"
  by (simp_all add: kalloc_def Let_def)

lemma kalloc_refs: "ref_counts (snd (kalloc s)) = (ref_counts s)(V2P (fst (kalloc s)) div PGSIZE := 1)"
  by (simp add: kalloc_def Let_def)

lemma kpage_kalloc [simp]: "kpage (snd (kalloc s)) = kpage s"
  by (rule ext) (simp add: kpage_def)

lemma kalloc_some:
  assumes "free_inv s (x # xs)"
  shows "fst (kalloc s) = x" and "free_inv (snd (kalloc s)) xs"
    and "ref_count (snd (kalloc s)) x = 1" and "x \<notin> set xs"
proof -
  show x: "fst (kalloc s) = x"
    using assms by (simp add: free_inv_def kalloc_def Let_def)
  show "ref_count (snd (kalloc s)) x = 1"
    by (simp add: ref_count_def kalloc_refs x)
  show "free_inv (snd (kalloc s)) xs" "x \<notin> set xs"
    using assms by (auto simp: free_inv_def kalloc_def Let_def kpage_def)
qed

lemma kalloc_none:
  assumes "free_inv s []"
  shows "fst (kalloc s) = 0" and "free_inv (snd (kalloc s)) []"
  using assms by (simp_all add: free_inv_def kalloc_def)

lemma kalloc_ref_other:
  assumes "page_aligned v" and "free_inv s xs" and "v \<noteq> fst (kalloc s)"
  shows "ref_count (snd (kalloc s)) v = ref_count s v"
proof -
  have "page_aligned (fst (kalloc s))"
    using assms(2) by (cases xs) (auto simp: kalloc_some(1) kalloc_none(1) free_inv_def kpage_def
        kalloc_def Let_def)
  then have "V2P v div PGSIZE \<noteq> V2P (fst (kalloc s)) div PGSIZE"
    using kpage_div_inj assms by blast
  then show ?thesis
    by (simp add: ref_count_def kalloc_refs)
qed

section \<open>Handing a range of memory to the allocator\<close>

definition pages :: "addr \<Rightarrow> nat \<Rightarrow> addr list" where
  "pages p n = map (\<lambda>i. p + of_nat i * PGSIZE) [0..<n]"

lemma pages_0 [simp]: "pages p 0 = []"
  by (simp add: pages_def)

lemma pages_Suc: "pages p (Suc n) = p # pages (p + PGSIZE) n"
proof -
  have "[0..<Suc n] = 0 # map Suc [0..<n]"
    by (simp add: map_Suc_upt upt_conv_Cons del: upt_Suc)
  then show ?thesis
    by (simp add: pages_def algebra_simps)
qed

lemma length_pages [simp]: "length (pages p n) = n"
  by (simp add: pages_def)

lemma pages_greater:
  "unat p + 4096 * n < 2 ^ 32 \<Longrightarrow> x \<in> set (pages p n) \<Longrightarrow> unat p \<le> unat x"
proof (induction n arbitrary: p)
  case (Suc n)
  have p: "unat (p + PGSIZE) = unat p + 4096"
    using Suc.prems(1) by (simp add: unat_word_ariths)
  show ?case
  proof (cases "x = p")
    case False
    then have "unat (p + PGSIZE) \<le> unat x"
      using Suc.prems p by (intro Suc.IH) (simp_all add: pages_Suc)
    with p show ?thesis
      by simp
  qed simp
qed simp

lemma freerange_loop_pages:
  assumes "free_inv s xs" and "unat p + 4096 * n \<le> unat vend" and "unat vend < unat p + 4096 * Suc n"
    and "unat vend < 2 ^ 32 - 4096"
    and "\<And>v. v \<in> set (pages p n) \<Longrightarrow> kpage s v \<and> v \<notin> set xs \<and> ref_count s v \<le> 1"
  shows "\<exists>s'. freerange_loop p vend s = Inr s' \<and> free_inv s' (rev (pages p n) @ xs)
    \<and> ref_counts s' = ref_counts s \<and> kern_end s' = kern_end s \<and> use_lock s' = use_lock s
    \<and> kmem_state.more s' = kmem_state.more s"
  using assms
proof (induction n arbitrary: p s xs)
  case 0
  have "unat (p + PGSIZE) = unat p + 4096"
    using "0.prems"(2,4) by (simp add: unat_word_ariths)
  with "0.prems"(3) have "\<not> p + PGSIZE \<le> vend"
    by (simp add: word_le_nat_alt)
  then have "freerange_loop p vend s = Inr s"
    by (subst freerange_loop.simps) simp
  with "0.prems"(1) show ?case
    by simp
next
  case (Suc n)
  have p: "unat (p + PGSIZE) = unat p + 4096"
    using Suc.prems(2,4) by (simp add: unat_word_ariths)
  have "kpage s p" and pxs: "p \<notin> set xs" and ref: "ref_count s p \<le> 1"
    using Suc.prems(5) [of p] by (simp_all add: pages_Suc)
  then obtain s1 where s1: "kfree p s = Inr s1"
    using kfree_private by blast
  note same = kfree_frame [OF s1]
  have inv1: "free_inv s1 (p # xs)"
    using Suc.prems(1) pxs ref s1 by (rule kfree_free_inv)
  have "\<exists>s'. freerange_loop (p + PGSIZE) vend s1 = Inr s'
      \<and> free_inv s' (rev (pages (p + PGSIZE) n) @ p # xs)
      \<and> ref_counts s' = ref_counts s1 \<and> kern_end s' = kern_end s1 \<and> use_lock s' = use_lock s1
      \<and> kmem_state.more s' = kmem_state.more s1"
  proof (rule Suc.IH [OF inv1])
    show "unat (p + PGSIZE) + 4096 * n \<le> unat vend" "unat vend < unat (p + PGSIZE) + 4096 * Suc n"
      using Suc.prems(2,3) p by simp_all
    fix v
    assume v: "v \<in> set (pages (p + PGSIZE) n)"
    then have "unat (p + PGSIZE) \<le> unat v"
      using Suc.prems(2,4) p by (intro pages_greater) simp_all
    then have "v \<noteq> p"
      using p by auto
    moreover have "kpage s v \<and> v \<notin> set xs \<and> ref_count s v \<le> 1"
      using Suc.prems(5) v by (simp add: pages_Suc)
    ultimately show "kpage s1 v \<and> v \<notin> set (p # xs) \<and> ref_count s1 v \<le> 1"
      using same by (simp add: kpage_def ref_count_def)
  qed (use Suc.prems(4) in simp)
  moreover have "p + PGSIZE \<le> vend" "\<not> p + PGSIZE < p"
    using Suc.prems(2) p by (simp_all add: word_le_nat_alt word_less_nat_alt)
  ultimately show ?case
    using same s1 by (subst freerange_loop.simps) (simp add: pages_Suc)
qed

lemma freerange_pages:
  assumes "free_inv s xs" and "unat (PGROUNDUP vstart) \<le> unat vend" and "unat vend < 2 ^ 32 - 4096"
    and n: "n = (unat vend - unat (PGROUNDUP vstart)) div 4096"
    and "\<And>v. v \<in> set (pages (PGROUNDUP vstart) n) \<Longrightarrow>
      kpage s v \<and> v \<notin> set xs \<and> ref_count s v \<le> 1"
  shows "\<exists>s'. freerange vstart vend s = Inr s' \<and> free_inv s' (rev (pages (PGROUNDUP vstart) n) @ xs)
    \<and> ref_counts s' = ref_counts s \<and> kern_end s' = kern_end s \<and> use_lock s' = use_lock s
    \<and> kmem_state.more s' = kmem_state.more s"
  unfolding freerange_def
proof (rule freerange_loop_pages)
  let ?d = "unat vend - unat (PGROUNDUP vstart)"
  have d: "?d = 4096 * n + ?d mod 4096" "?d mod 4096 < 4096"
    by (simp_all add: n)
  with assms(2) show "unat (PGROUNDUP vstart) + 4096 * n \<le> unat vend"
    by linarith
  have "4096 * Suc n = 4096 * n + 4096"
    by simp
  with d assms(2) show "unat vend < unat (PGROUNDUP vstart) + 4096 * Suc n"
    by linarith
qed (use assms in auto)

section \<open>The allocator as an interface\<close>

text \<open>
  What the kernel relies on when it calls the allocator: the free pages form a pool of distinct,
  non-null pages, \<open>alloc\<close> takes one out or returns the null pointer when there is none, and
  \<open>release\<close> puts a releasable page back.
\<close>

primrec alloc_seq :: "('s \<Rightarrow> 'p \<times> 's) \<Rightarrow> nat \<Rightarrow> 's \<Rightarrow> 'p list \<times> 's" where
  "alloc_seq alloc 0 s = ([], s)"
| "alloc_seq alloc (Suc n) s =
     (let (p, s) = alloc s; (ps, s) = alloc_seq alloc n s in (p # ps, s))"

locale page_allocator =
  fixes alloc :: "'s \<Rightarrow> addr \<times> 's"
    and release :: "addr \<Rightarrow> 's \<Rightarrow> 's result"
    and pool :: "'s \<Rightarrow> addr list \<Rightarrow> bool"
    and releasable :: "'s \<Rightarrow> addr \<Rightarrow> bool"
  assumes pool_distinct: "pool s xs \<Longrightarrow> distinct xs \<and> 0 \<notin> set xs"
    and alloc_page: "pool s (x # xs) \<Longrightarrow>
      fst (alloc s) = x \<and> pool (snd (alloc s)) xs \<and> releasable (snd (alloc s)) x"
    and alloc_empty: "pool s [] \<Longrightarrow> fst (alloc s) = 0 \<and> pool (snd (alloc s)) []"
    and release_page: "pool s xs \<Longrightarrow> releasable s v \<Longrightarrow> v \<notin> set xs \<Longrightarrow>
      \<exists>s'. release v s = Inr s' \<and> pool s' (v # xs)"
begin

lemma alloc_seq_pool:
  "pool s xs \<Longrightarrow> n \<le> length xs \<Longrightarrow>
   fst (alloc_seq alloc n s) = take n xs \<and> pool (snd (alloc_seq alloc n s)) (drop n xs)"
proof (induction n arbitrary: s xs)
  case (Suc n)
  then obtain x ys where xs: "xs = x # ys"
    by (cases xs) auto
  with Suc.prems(1) have "fst (alloc s) = x" "pool (snd (alloc s)) ys"
    using alloc_page [of s x ys] by simp_all
  with Suc.IH [of "snd (alloc s)" ys] Suc.prems(2) xs show ?case
    by (simp add: Let_def split_beta)
qed simp

lemma alloc_seq_distinct:
  assumes "pool s xs" and "n \<le> length xs"
  shows "distinct (fst (alloc_seq alloc n s))" and "0 \<notin> set (fst (alloc_seq alloc n s))"
    and "ys = drop n xs \<Longrightarrow> set (fst (alloc_seq alloc n s)) \<inter> set ys = {}"
proof -
  note pool = alloc_seq_pool [OF assms] and dist = pool_distinct [OF assms(1)]
  show "distinct (fst (alloc_seq alloc n s))" "0 \<notin> set (fst (alloc_seq alloc n s))"
    using pool dist by (auto dest: in_set_takeD)
  show "set (fst (alloc_seq alloc n s)) \<inter> set ys = {}" if "ys = drop n xs"
    using pool dist that by (simp add: set_take_disj_set_drop_if_distinct)
qed

lemma alloc_exhausted: "pool s [] \<Longrightarrow> fst (alloc_seq alloc n s) = replicate n 0"
proof (induction n arbitrary: s)
  case (Suc n)
  have "fst (alloc s) = 0" "fst (alloc_seq alloc n (snd (alloc s))) = replicate n 0"
    using alloc_empty [OF Suc.prems] Suc.IH by simp_all
  then show ?case
    by (simp add: Let_def split_beta)
qed simp

lemma release_then_alloc:
  assumes "pool s xs" and "releasable s v" and "v \<notin> set xs"
  shows "\<exists>s'. release v s = Inr s' \<and> fst (alloc s') = v \<and> pool (snd (alloc s')) xs"
proof -
  obtain s' where "release v s = Inr s'" and "pool s' (v # xs)"
    using release_page [OF assms] by blast
  then show ?thesis
    using alloc_page [of s' v xs] by blast
qed

end

interpretation kpool: page_allocator kalloc kfree free_inv "\<lambda>s v. kpage s v \<and> ref_count s v \<le> 1"
proof
  fix s :: "'a kmem_state_scheme" and xs
  assume "free_inv s xs"
  then show "distinct xs \<and> 0 \<notin> set xs"
    using kpage_nonzero by (auto simp: free_inv_def)
next
  fix s :: "'a kmem_state_scheme" and x xs
  assume "free_inv s (x # xs)"
  then show "fst (kalloc s) = x \<and> free_inv (snd (kalloc s)) xs
      \<and> kpage (snd (kalloc s)) x \<and> ref_count (snd (kalloc s)) x \<le> 1"
    using kalloc_some [of s x xs] by (auto simp: free_inv_def)
next
  fix s :: "'a kmem_state_scheme"
  assume "free_inv s []"
  then show "fst (kalloc s) = 0 \<and> free_inv (snd (kalloc s)) []"
    using kalloc_none by blast
next
  fix s :: "'a kmem_state_scheme" and xs v
  assume "free_inv s xs" and "kpage s v \<and> ref_count s v \<le> 1" and "v \<notin> set xs"
  then show "\<exists>s'. kfree v s = Inr s' \<and> free_inv s' (v # xs)"
    using kfree_private kfree_free_inv by blast
qed

section \<open>Boot and reference counts\<close>

lemma set_pages:
  assumes "page_aligned p" and "unat p + 4096 * n < 2 ^ 32"
  shows "set (pages p n) = {v. page_aligned v \<and> unat p \<le> unat v \<and> unat v < unat p + 4096 * n}"
  using assms
proof (induction n arbitrary: p)
  case (Suc n)
  have p: "unat (p + PGSIZE) = unat p + 4096"
    using Suc.prems(2) by (simp add: unat_word_ariths)
  have next_page: "unat p + 4096 \<le> unat v"
    if v: "page_aligned v" "unat p \<le> unat v" "v \<noteq> p" for v
  proof -
    have "PGROUNDDOWN v \<noteq> p"
      using v by (simp add: PGROUNDDOWN_aligned)
    then have "\<not> unat (v - p) < 4096"
      using Suc.prems(1) by (simp add: PGROUNDDOWN_eq_iff)
    with v(2) show ?thesis
      by (simp add: unat_sub word_le_nat_alt)
  qed
  have "set (pages (p + PGSIZE) n)
      = {v. page_aligned v \<and> unat p + 4096 \<le> unat v \<and> unat v < unat p + 4096 + 4096 * n}"
    using Suc.IH [of "p + PGSIZE"] Suc.prems p by simp
  then show ?case
    using Suc.prems(1) next_page by (auto simp: pages_Suc)
qed auto

lemma boot_pages:
  assumes al: "page_aligned mid" and ke: "KERNBASE \<le> kern_end s" "kern_end s \<le> mid"
    and mid: "unat mid \<le> 0x8E000000"
    and n1: "n1 = (unat mid - unat (PGROUNDUP (kern_end s))) div 4096"
    and n2: "n2 = (0x8E000000 - unat mid) div 4096"
  shows "unat (PGROUNDUP (kern_end s)) \<le> unat mid"
    and "set (pages (PGROUNDUP (kern_end s)) n1) = {v. kpage s v \<and> unat v < unat mid}"
    and "set (pages mid n2) = {v. kpage s v \<and> unat mid \<le> unat v}"
proof -
  let ?e = "PGROUNDUP (kern_end s)"
  have ke': "unat (kern_end s) \<ge> 0x80000000" "unat (kern_end s) \<le> unat mid"
    using ke by (simp_all add: word_le_nat_alt)
  have mid_mod: "unat mid mod 4096 = 0" and e_mod: "unat ?e mod 4096 = 0"
    using al page_aligned_PGROUNDUP [of "kern_end s"] by (simp_all only: page_aligned_unat)
  have e: "unat (kern_end s) \<le> unat ?e" "unat ?e < unat (kern_end s) + 4096"
    using PGROUNDUP_bounds [of "kern_end s"] ke' mid by simp_all
  obtain k j where k: "unat mid = 4096 * k" and j: "unat ?e = 4096 * j"
    using mid_mod e_mod by (auto elim!: dvdE dest!: mod_0_imp_dvd)
  show le: "unat ?e \<le> unat mid"
    using e ke' k j by simp
  have n: "4096 * n1 = unat mid - unat ?e" "4096 * n2 = 0x8E000000 - unat mid"
    using le k j n1 n2 mid by (simp_all flip: diff_mult_distrib2)
  have kp: "kpage s v \<longleftrightarrow> page_aligned v \<and> unat ?e \<le> unat v \<and> unat v < 0x8E000000" for v
  proof (cases "page_aligned v")
    case True
    then obtain i where i: "unat v = 4096 * i"
      by (auto simp: page_aligned_unat elim!: dvdE dest!: mod_0_imp_dvd)
    have "unat ?e \<le> unat v \<longleftrightarrow> unat (kern_end s) \<le> unat v"
      using e i j by auto
    moreover have "unat (V2P v) = unat v - 0x80000000" if "0x80000000 \<le> unat v"
      using that by (simp add: V2P_def unat_sub word_le_nat_alt)
    ultimately show ?thesis
      using True ke' by (auto simp: kpage_def word_le_nat_alt word_less_nat_alt)
  qed (simp add: kpage_def)
  show "set (pages ?e n1) = {v. kpage s v \<and> unat v < unat mid}"
    using n le mid e ke' by (subst set_pages) (auto simp: kp)
  show "set (pages mid n2) = {v. kpage s v \<and> unat mid \<le> unat v}"
    using n le mid e ke' al by (subst set_pages) (auto simp: kp)
qed

text \<open>\<^verbatim>\<open>decref\<close>: with two or more references it only counts down, with one it frees the page.\<close>

lemma P2V_low [simp]: "pa < PHYSTOP \<Longrightarrow> \<not> pa \<ge> PHYSTOP"
  by simp

lemma decref_shared:
  assumes "pa < PHYSTOP" and "ref_count s (P2V pa) > 1"
  shows "decref pa s =
    Inr (s\<lparr>ref_counts := (ref_counts s)(pa div PGSIZE := ref_counts s (pa div PGSIZE) - 1)\<rparr>)"
proof -
  let ?r = "ref_counts s (pa div PGSIZE)"
  have "?r > 1"
    using assms(2) by (simp add: ref_count_def)
  then have "\<not> ?r < 1" "?r - 1 \<noteq> 0"
    by auto
  with assms(1) show ?thesis
    by (simp add: decref_def)
qed

lemma decref_last:
  assumes "kpage s (P2V pa)" and "ref_count s (P2V pa) = 1"
  shows "decref pa s = kfree (P2V pa) (s\<lparr>ref_counts := (ref_counts s)(pa div PGSIZE := 0)\<rparr>)"
  using assms by (simp add: decref_def kpage_def ref_count_def)

lemma word_minus_one_u8: "(- 1 :: u8) = 255"
  by simp

lemma decref_zero:
  assumes "kpage s (P2V pa)" and "ref_count s (P2V pa) = 0"
  shows "decref pa s = Inr (s\<lparr>mem := store32 (P2V pa) (freelist s) (fill (P2V pa) 4096 1 (mem s)),
    freelist := P2V pa, ref_counts := (ref_counts s)(pa div PGSIZE := 255)\<rparr>)"
proof -
  have "kfree (P2V pa) s
      = Inr (s\<lparr>mem := store32 (P2V pa) (freelist s) (fill (P2V pa) 4096 1 (mem s)), freelist := P2V pa\<rparr>)"
    using assms by (intro kfree_private) simp_all
  then show ?thesis
    using assms by (simp add: decref_def kpage_def ref_count_def word_minus_one_u8)
qed

section \<open>Properties\<close>

definition boot_state :: kmem_state where
  "boot_state = \<lparr>mem = (\<lambda>_. 0), use_lock = False, freelist = 0, ref_counts = (\<lambda>_. 0),
     kern_end = 0x80115000\<rparr>"

text \<open>
  C1. Boot: \<^verbatim>\<open>kinit1(end, mid)\<close> followed by \<^verbatim>\<open>kinit2(mid, P2V(PHYSTOP))\<close>, as \<^verbatim>\<open>main\<close> calls them,
  never panics and leaves a well-formed free list on which every usable page of physical memory
  stands exactly once, with locking switched on.
\<close>

theorem kinit_frees_every_page:
  assumes "freelist s = 0" and "\<forall>i. ref_counts s i = 0"
    and "page_aligned mid" and "KERNBASE \<le> kern_end s" and "kern_end s \<le> mid"
    and "mid \<le> P2V PHYSTOP"
  shows "\<exists>s1 s2 xs. kinit1 (kern_end s) mid s = Inr s1 \<and> kinit2 mid (P2V PHYSTOP) s1 = Inr s2
    \<and> free_inv s2 xs \<and> set xs = {v. kpage s v} \<and> use_lock s2"
proof -
  let ?e = "PGROUNDUP (kern_end s)" and ?s = "s\<lparr>use_lock := False\<rparr>"
  define n1 n2 where "n1 = (unat mid - unat ?e) div 4096"
    and "n2 = (0x8E000000 - unat mid) div 4096"
  have mid: "unat mid \<le> 0x8E000000"
    using assms(6) by (simp add: P2V_def word_le_nat_alt)
  note bp = boot_pages [OF assms(3-5) mid n1_def n2_def]
  have ref0: "ref_count ?s v \<le> 1" for v
    using assms(2) by (simp add: ref_count_def)
  have "free_inv ?s []"
    using assms(1) by (simp add: free_inv_def)
  then have "\<exists>s1. freerange (kern_end s) mid ?s = Inr s1 \<and> free_inv s1 (rev (pages ?e n1) @ [])
      \<and> ref_counts s1 = ref_counts ?s \<and> kern_end s1 = kern_end ?s \<and> use_lock s1 = use_lock ?s
      \<and> kmem_state.more s1 = kmem_state.more ?s"
    using bp(1,2) mid ref0 n1_def by (intro freerange_pages) (auto simp: kpage_def)
  then obtain s1 where s1: "freerange (kern_end s) mid ?s = Inr s1"
    "free_inv s1 (rev (pages ?e n1))" "ref_counts s1 = ref_counts s" "kern_end s1 = kern_end s"
    by auto
  have midup: "PGROUNDUP mid = mid"
    using assms(3) by (rule PGROUNDUP_aligned)
  have "\<exists>s2. freerange mid (P2V PHYSTOP) s1 = Inr s2
      \<and> free_inv s2 (rev (pages (PGROUNDUP mid) n2) @ rev (pages ?e n1))
      \<and> ref_counts s2 = ref_counts s1 \<and> kern_end s2 = kern_end s1 \<and> use_lock s2 = use_lock s1
      \<and> kmem_state.more s2 = kmem_state.more s1"
    using s1 bp mid ref0 n2_def
    by (intro freerange_pages) (auto simp: midup P2V_def kpage_def ref_count_def)
  then obtain s2 where s2: "freerange mid (P2V PHYSTOP) s1 = Inr s2"
    "free_inv s2 (rev (pages mid n2) @ rev (pages ?e n1))"
    by (auto simp: midup)
  have "set (rev (pages mid n2) @ rev (pages ?e n1)) = {v. kpage s v}"
    using bp(2,3) by auto
  then show ?thesis
    using s1 s2 by (auto simp: kinit1_def kinit2_def free_inv_def kpage_def intro!: exI)
qed

theorem kinit_frees_every_page_witness:
  "\<exists>s1 s2 xs. kinit1 (kern_end boot_state) 0x80400000 boot_state = Inr s1
    \<and> kinit2 0x80400000 (P2V PHYSTOP) s1 = Inr s2
    \<and> free_inv s2 xs \<and> set xs = {v. kpage boot_state v} \<and> use_lock s2"
  by (rule kinit_frees_every_page) (simp_all add: boot_state_def page_aligned_def P2V_def)

text \<open>
  C2. No page is handed out twice: from a state whose free list holds the pages \<open>xs\<close>, any number
  of \<^verbatim>\<open>kalloc\<close> calls up to the length of the list return distinct non-null pages, namely the
  first ones of the list, none of which is still free, and further calls return the null pointer.
\<close>

theorem kalloc_never_repeats:
  assumes inv: "free_inv s xs" and n: "n \<le> length xs"
  shows "fst (alloc_seq kalloc n s) = take n xs \<and> distinct (fst (alloc_seq kalloc n s))
    \<and> 0 \<notin> set (fst (alloc_seq kalloc n s))
    \<and> free_inv (snd (alloc_seq kalloc n s)) (drop n xs)
    \<and> set (fst (alloc_seq kalloc n s)) \<inter> set (drop n xs) = {}
    \<and> fst (alloc_seq kalloc k (snd (alloc_seq kalloc (length xs) s))) = replicate k 0"
proof -
  have "free_inv (snd (alloc_seq kalloc (length xs) s)) []"
    using kpool.alloc_seq_pool [OF inv, of "length xs"] by simp
  then show ?thesis
    using kpool.alloc_seq_pool [OF inv n] kpool.alloc_seq_distinct [OF inv n]
      kpool.alloc_exhausted by blast
qed

definition two_free :: kmem_state where
  "two_free = \<lparr>mem = store32 0x80401000 0x80402000 (\<lambda>_. 0), use_lock = True,
     freelist = 0x80401000, ref_counts = (\<lambda>_. 0), kern_end = 0x80115000\<rparr>"

lemma two_free_inv: "free_inv two_free [0x80401000, 0x80402000]"
  by (simp add: free_inv_def two_free_def kpage_def page_aligned_def V2P_def
      load32_store32_other) (simp add: load32_def)

theorem kalloc_never_repeats_witness:
  "fst (alloc_seq kalloc 2 two_free) = [0x80401000, 0x80402000]
    \<and> fst (alloc_seq kalloc 3 (snd (alloc_seq kalloc 2 two_free))) = [0, 0, 0]"
  using kalloc_never_repeats [OF two_free_inv, of 2 3] by (simp add: numeral_eq_Suc)

text \<open>
  C3. Freeing and allocating are inverse: a page that is not free and has at most one reference
  is accepted by \<^verbatim>\<open>kfree\<close>, becomes the head of the free list, and the next \<^verbatim>\<open>kalloc\<close> returns
  it with reference count 1 and the free list as it was; no byte outside the page changes.
\<close>

theorem kfree_kalloc_roundtrip:
  assumes "free_inv s xs" and "kpage s v" and "ref_count s v \<le> 1" and "v \<notin> set xs"
  shows "\<exists>s'. kfree v s = Inr s' \<and> free_inv s' (v # xs) \<and> fst (kalloc s') = v
    \<and> free_inv (snd (kalloc s')) xs \<and> ref_count (snd (kalloc s')) v = 1
    \<and> (\<forall>x. PGROUNDDOWN x \<noteq> v \<longrightarrow> mem (snd (kalloc s')) x = mem s x)"
proof -
  obtain s' where s': "kfree v s = Inr s'"
    using kfree_private [OF assms(2,3)] by blast
  have inv: "free_inv s' (v # xs)"
    by (rule kfree_free_inv [OF assms(1,4,3) s'])
  show ?thesis
    using s' inv kalloc_some [OF inv] kfree_mem_other [OF s'] by auto
qed

theorem kfree_kalloc_roundtrip_witness:
  "\<exists>s'. kfree 0x80403000 two_free = Inr s' \<and> fst (kalloc s') = 0x80403000
    \<and> free_inv (snd (kalloc s')) [0x80401000, 0x80402000]"
  using kfree_kalloc_roundtrip [OF two_free_inv, of "0x80403000"]
  by (auto simp: kpage_def ref_count_def two_free_def page_aligned_def V2P_def)

text \<open>
  C4. The reference counts decide when a page is freed: with two or more references \<^verbatim>\<open>decref\<close>
  only counts down (and undoes an \<^verbatim>\<open>incref\<close> exactly) and \<^verbatim>\<open>kfree\<close> does nothing at all; with one
  reference \<^verbatim>\<open>decref\<close> puts the page on the free list with count 0.
\<close>

theorem decref_frees_last_reference:
  assumes "kpage s (P2V pa)" and "free_inv s xs" and "P2V pa \<notin> set xs"
    and "1 \<le> ref_count s (P2V pa)" and "ref_count s (P2V pa) < 255"
  shows "(\<exists>s1. incref pa s = Inr s1 \<and> decref pa s1 = Inr s \<and> kfree (P2V pa) s1 = Inr s1)
    \<and> (ref_count s (P2V pa) = 1 \<longrightarrow>
        (\<exists>s'. decref pa s = Inr s' \<and> free_inv s' (P2V pa # xs) \<and> ref_count s' (P2V pa) = 0))"
proof -
  let ?i = "pa div PGSIZE" and ?r = "ref_count s (P2V pa)"
  let ?s1 = "s\<lparr>ref_counts := (ref_counts s)(?i := ?r + 1)\<rparr>"
  have pa: "pa < PHYSTOP"
    using assms(1) by (simp add: kpage_def)
  have inc: "incref pa s = Inr ?s1"
    using pa by (simp add: incref_def ref_count_def)
  have "unat (?r + 1) = unat ?r + 1"
    using assms(5) by (simp add: unat_word_ariths word_less_nat_alt)
  then have gt: "ref_count ?s1 (P2V pa) > 1"
    using assms(4) by (simp add: ref_count_def word_less_nat_alt word_le_nat_alt)
  have dec: "decref pa ?s1 = Inr s"
    using decref_shared [OF pa gt] by (simp add: ref_count_def)
  have shared: "kfree (P2V pa) ?s1 = Inr ?s1"
    using assms(1) gt by (intro kfree_shared) (simp_all add: kpage_def)
  let ?s0 = "s\<lparr>ref_counts := (ref_counts s)(?i := 0)\<rparr>"
  have "\<exists>s'. decref pa s = Inr s' \<and> free_inv s' (P2V pa # xs) \<and> ref_count s' (P2V pa) = 0"
    if r1: "?r = 1"
  proof -
    have kp: "kpage ?s0 (P2V pa)" and inv: "free_inv ?s0 xs" and r0: "ref_count ?s0 (P2V pa) \<le> 1"
      using assms(1,2) by (simp_all add: kpage_def free_inv_def ref_count_def)
    obtain s' where s': "kfree (P2V pa) ?s0 = Inr s'"
      using kfree_private [OF kp r0] by blast
    have "decref pa s = Inr s'"
      using s' decref_last [OF assms(1) r1] by simp
    moreover have "free_inv s' (P2V pa # xs)"
      by (rule kfree_free_inv [OF inv assms(3) r0 s'])
    moreover have "ref_count s' (P2V pa) = 0"
      using kfree_frame(1) [OF s'] by (simp add: ref_count_def)
    ultimately show ?thesis
      by blast
  qed
  with inc dec shared show ?thesis
    by blast
qed

definition one_ref :: kmem_state where
  "one_ref = two_free\<lparr>ref_counts := (\<lambda>_. 0)(0x403 := 1)\<rparr>"

theorem decref_frees_last_reference_witness:
  "(\<exists>s1. incref 0x403000 one_ref = Inr s1 \<and> decref 0x403000 s1 = Inr one_ref)
    \<and> (\<exists>s'. decref 0x403000 one_ref = Inr s'
      \<and> free_inv s' [0x80403000, 0x80401000, 0x80402000])"
proof -
  have inv: "free_inv one_ref [0x80401000, 0x80402000]"
    using two_free_inv by (simp add: one_ref_def free_inv_def kpage_def)
  show ?thesis
    using decref_frees_last_reference [OF _ inv, of "0x403000"]
    by (auto simp: kpage_def ref_count_def one_ref_def two_free_def page_aligned_def V2P_def P2V_def)
qed

text \<open>
  C5. A second \<^verbatim>\<open>decref\<close> after the last reference is gone does not stop: it frees the page a
  second time and the 8-bit count wraps to 255, after which \<^verbatim>\<open>kfree\<close> ignores the page.
\<close>

theorem decref_underflow:
  assumes "kpage s (P2V pa)" and "ref_count s (P2V pa) = 0"
  shows "\<exists>s'. decref pa s = Inr s' \<and> freelist s' = P2V pa \<and> ref_count s' (P2V pa) = 255
    \<and> kfree (P2V pa) s' = Inr s'"
proof -
  obtain s' where s': "decref pa s = Inr s'" "freelist s' = P2V pa" "ref_count s' (P2V pa) = 255"
    "kpage s' (P2V pa)"
    using decref_zero [OF assms] assms(1) by (simp add: ref_count_def kpage_def)
  then show ?thesis
    using kfree_shared [of s' "P2V pa"] by auto
qed

theorem decref_underflow_witness:
  "\<exists>s'. decref 0x403000 two_free = Inr s' \<and> freelist s' = 0x80403000
    \<and> kfree 0x80403000 s' = Inr s'"
  using decref_underflow [of two_free "0x403000"]
  by (auto simp: kpage_def ref_count_def two_free_def page_aligned_def V2P_def P2V_def)

end
