(* ===== verification/Vm.thy ===== *)
theory Vm
  imports Kalloc
begin

text \<open>
  Page tables, \<^verbatim>\<open>vm.c\<close>: two-level tables stored in pages of physical memory, the functions that
  walk, extend, copy (copy-on-write) and free them, and the abstraction of a page directory to a
  function from virtual addresses to page table entries.
\<close>

section \<open>State and operations\<close>

text \<open>\<open>cr3\<close> is the page-table register (\<^verbatim>\<open>lcr3\<close>), \<open>kdata\<close> the linker symbol \<^verbatim>\<open>data\<close>.\<close>

record vm_state = kmem_state +
  cr3 :: u32
  kpgdir :: addr
  kdata :: addr

definition lcr3 :: "u32 \<Rightarrow> 'a vm_state_scheme \<Rightarrow> 'a vm_state_scheme" where
  "lcr3 val s = s\<lparr>cr3 := val\<rparr>"

definition walkpgdir ::
  "addr \<Rightarrow> addr \<Rightarrow> bool \<Rightarrow> 'a kmem_state_scheme \<Rightarrow> addr \<times> 'a kmem_state_scheme" where
  "walkpgdir pgdir va alloc s =
     (let pde = pgdir + 4 * PDX va
      in if load32 (mem s) pde AND PTE_P \<noteq> 0 then
           (P2V (PTE_ADDR (load32 (mem s) pde)) + 4 * PTX va, s)
         else if \<not> alloc then (0, s)
         else
           let (pgtab, s) = kalloc s
           in if pgtab = 0 then (0, s)
              else
                let s = s\<lparr>mem := memset pgtab 0 PGSIZE (mem s)\<rparr>;
                    s = s\<lparr>mem := store32 pde (V2P pgtab OR PTE_P OR PTE_W OR PTE_U) (mem s)\<rparr>
                in (pgtab + 4 * PTX va, s))"

function mappages_loop ::
  "addr \<Rightarrow> addr \<Rightarrow> addr \<Rightarrow> u32 \<Rightarrow> u32 \<Rightarrow> 'a kmem_state_scheme
    \<Rightarrow> (u32 \<times> 'a kmem_state_scheme) result" where
  "mappages_loop pgdir a end_a pa perm s =
     (let (pte, s) = walkpgdir pgdir a True s
      in if pte = 0 then Inr (- 1, s)
         else if load32 (mem s) pte AND PTE_P \<noteq> 0 then Inl (Panic ''remap'')
         else
           let s = s\<lparr>mem := store32 pte (pa OR perm OR PTE_P) (mem s)\<rparr>
           in if a = end_a then Inr (0, s)
              else if end_a - a < PGSIZE then Inl AddrWrap
              else mappages_loop pgdir (a + PGSIZE) end_a (pa + PGSIZE) perm s)"
  by pat_completeness auto
termination
proof (relation "measure (\<lambda>(pgdir, a, end_a, pa, perm, s). unat (end_a - a))", goal_cases)
  case (2 pgdir a end_a pa perm s)
  then have "PGSIZE \<le> end_a - a"
    by simp
  then have "unat (end_a - a - PGSIZE) < unat (end_a - a)"
    by (simp add: unat_sub word_le_nat_alt)
  then show ?case
    by (simp add: diff_diff_eq)
qed simp

declare mappages_loop.simps [simp del]

definition mappages ::
  "addr \<Rightarrow> addr \<Rightarrow> u32 \<Rightarrow> u32 \<Rightarrow> u32 \<Rightarrow> 'a kmem_state_scheme
    \<Rightarrow> (u32 \<times> 'a kmem_state_scheme) result" where
  "mappages pgdir va sz pa perm s =
     mappages_loop pgdir (PGROUNDDOWN va) (PGROUNDDOWN (va + sz - 1)) pa perm s"

function deallocuvm_loop ::
  "addr \<Rightarrow> addr \<Rightarrow> u32 \<Rightarrow> 'a kmem_state_scheme \<Rightarrow> 'a kmem_state_scheme result" where
  "deallocuvm_loop pgdir a oldsz s =
     (if a < oldsz then
        let pte = fst (walkpgdir pgdir a False s)
        in if pte = 0 then
             let a' = PGADDR (PDX a + 1) 0 0 - PGSIZE
             in if a' + PGSIZE \<le> a then Inl AddrWrap
                else deallocuvm_loop pgdir (a' + PGSIZE) oldsz s
           else if load32 (mem s) pte AND PTE_P \<noteq> 0 then
             let pa = PTE_ADDR (load32 (mem s) pte)
             in if pa = 0 then Inl (Panic ''kfree'')
                else andthen (kfree (P2V pa) s) (\<lambda>s.
                  let s = s\<lparr>mem := store32 pte 0 (mem s)\<rparr>
                  in if a + PGSIZE \<le> a then Inl AddrWrap
                     else deallocuvm_loop pgdir (a + PGSIZE) oldsz s)
           else if a + PGSIZE \<le> a then Inl AddrWrap
           else deallocuvm_loop pgdir (a + PGSIZE) oldsz s
      else Inr s)"
  by pat_completeness auto
termination
  by (relation "measure (\<lambda>(pgdir, a, oldsz, s). unat oldsz - unat a)")
    (auto simp: word_less_nat_alt word_le_nat_alt)

declare deallocuvm_loop.simps [simp del]

definition deallocuvm ::
  "addr \<Rightarrow> u32 \<Rightarrow> u32 \<Rightarrow> 'a kmem_state_scheme \<Rightarrow> (u32 \<times> 'a kmem_state_scheme) result" where
  "deallocuvm pgdir oldsz newsz s =
     (if newsz \<ge> oldsz then Inr (oldsz, s)
      else andthen (deallocuvm_loop pgdir (PGROUNDUP newsz) oldsz s) (\<lambda>s. Inr (newsz, s)))"

definition freevm :: "addr \<Rightarrow> 'a kmem_state_scheme \<Rightarrow> 'a kmem_state_scheme result" where
  "freevm pgdir s =
     (if pgdir = 0 then Inl (Panic ''freevm: no pgdir'')
      else andthen (deallocuvm pgdir KERNBASE 0 s) (\<lambda>(_, s).
        andthen (for_each (\<lambda>i s.
            let pde = load32 (mem s) (pgdir + 4 * of_nat i)
            in if pde AND PTE_P \<noteq> 0
               then andthen (kfree (P2V (PTE_ADDR pde)) s) (\<lambda>s. Inr (Next s))
               else Inr (Next s))
          [0..<1024] s) (\<lambda>fl.
        case fl of
          Next s \<Rightarrow> kfree pgdir s
        | Leave (_ :: unit) s \<Rightarrow> Inr s)))"

definition kmap :: "addr \<Rightarrow> (addr \<times> u32 \<times> u32 \<times> u32) list" where
  "kmap data =
     [(KERNBASE, 0, EXTMEM, PTE_W),
      (KERNLINK, V2P KERNLINK, V2P data, 0),
      (data, V2P data, PHYSTOP, PTE_W),
      (DEVSPACE, DEVSPACE, 0, PTE_W)]"

definition setupkvm :: "'a vm_state_scheme \<Rightarrow> (addr \<times> 'a vm_state_scheme) result" where
  "setupkvm s =
     (let (pgdir, s) = kalloc s
      in if pgdir = 0 then Inr (0, s)
         else
           let s = s\<lparr>mem := memset pgdir 0 PGSIZE (mem s)\<rparr>
           in if P2V PHYSTOP > DEVSPACE then Inl (Panic ''PHYSTOP too high'')
              else
                andthen (for_each (\<lambda>(virt, phys_start, phys_end, perm) s.
                    andthen (mappages pgdir virt (phys_end - phys_start) phys_start perm s)
                      (\<lambda>(r, s).
                        if r <s 0 then andthen (freevm pgdir s) (\<lambda>s. Inr (Leave 0 s))
                        else Inr (Next s)))
                  (kmap (kdata s)) s) (\<lambda>fl.
                case fl of
                  Next s \<Rightarrow> Inr (pgdir, s)
                | Leave r s \<Rightarrow> Inr (r, s)))"

definition switchkvm :: "'a vm_state_scheme \<Rightarrow> 'a vm_state_scheme" where
  "switchkvm s = lcr3 (V2P (kpgdir s)) s"

definition kvmalloc :: "'a vm_state_scheme \<Rightarrow> 'a vm_state_scheme result" where
  "kvmalloc s = andthen (setupkvm s) (\<lambda>(pgdir, s). Inr (switchkvm (s\<lparr>kpgdir := pgdir\<rparr>)))"

text \<open>\<^verbatim>\<open>inituvm\<close> does not test the result of \<^verbatim>\<open>kalloc\<close>: without a free page it writes through the
  null pointer.\<close>

definition inituvm ::
  "addr \<Rightarrow> addr \<Rightarrow> u32 \<Rightarrow> 'a kmem_state_scheme \<Rightarrow> 'a kmem_state_scheme result" where
  "inituvm pgdir init sz s =
     (if sz \<ge> PGSIZE then Inl (Panic ''inituvm: more than a page'')
      else
        let (m, s) = kalloc s
        in if m = 0 then Inl (BadAccess 0)
           else
             let s = s\<lparr>mem := memset m 0 PGSIZE (mem s)\<rparr>
             in andthen (mappages pgdir 0 PGSIZE (V2P m) (PTE_W OR PTE_U) s) (\<lambda>(_, s).
                  Inr (s\<lparr>mem := memmove m init sz (mem s)\<rparr>)))"

definition allocuvm_body ::
  "addr \<Rightarrow> u32 \<Rightarrow> u32 \<Rightarrow> addr \<Rightarrow> 'a kmem_state_scheme
    \<Rightarrow> (u32, 'a kmem_state_scheme) flow result" where
  "allocuvm_body pgdir oldsz newsz a s =
     (let (m, s) = kalloc s
      in if m = 0 then
           andthen (deallocuvm pgdir newsz oldsz s) (\<lambda>(_, s). Inr (Leave 0 s))
         else
           let s = s\<lparr>mem := memset m 0 PGSIZE (mem s)\<rparr>
           in andthen (mappages pgdir a PGSIZE (V2P m) (PTE_W OR PTE_U) s) (\<lambda>(r, s).
                if r <s 0 then
                  andthen (deallocuvm pgdir newsz oldsz s) (\<lambda>(_, s).
                  andthen (kfree m s) (\<lambda>s. Inr (Leave 0 s)))
                else Inr (Next s)))"

definition allocuvm ::
  "addr \<Rightarrow> u32 \<Rightarrow> u32 \<Rightarrow> 'a kmem_state_scheme \<Rightarrow> (u32 \<times> 'a kmem_state_scheme) result" where
  "allocuvm pgdir oldsz newsz s =
     (if newsz \<ge> KERNBASE then Inr (0, s)
      else if newsz < oldsz then Inr (oldsz, s)
      else
        andthen (page_loop (allocuvm_body pgdir oldsz newsz) (PGROUNDUP oldsz) newsz s) (\<lambda>fl.
          case fl of Next s \<Rightarrow> Inr (newsz, s) | Leave r s \<Rightarrow> Inr (r, s)))"

definition clearpteu :: "addr \<Rightarrow> addr \<Rightarrow> 'a kmem_state_scheme \<Rightarrow> 'a kmem_state_scheme result" where
  "clearpteu pgdir uva s =
     (let pte = fst (walkpgdir pgdir uva False s)
      in if pte = 0 then Inl (Panic ''clearpteu'')
         else Inr (s\<lparr>mem := store32 pte (load32 (mem s) pte AND NOT PTE_U) (mem s)\<rparr>))"

definition cow_flags :: "u32 \<Rightarrow> u32" where
  "cow_flags flags = (flags OR PTE_COW) AND NOT PTE_W"

definition copyuvm_body ::
  "addr \<Rightarrow> addr \<Rightarrow> addr \<Rightarrow> 'a vm_state_scheme \<Rightarrow> (addr, 'a vm_state_scheme) flow result" where
  "copyuvm_body pgdir d i s =
     (let pte = fst (walkpgdir pgdir i False s)
      in if pte = 0 then Inl (Panic ''copyuvm: pte should exist'')
         else if load32 (mem s) pte AND PTE_P = 0 then Inl (Panic ''copyuvm: page not present'')
         else
           let pa = PTE_ADDR (load32 (mem s) pte);
               flags = PTE_FLAGS (load32 (mem s) pte);
               (flags, s) =
                 (if flags AND PTE_W \<noteq> 0 then
                    let s = lcr3 (V2P pgdir) s;
                        s = s\<lparr>mem := store32 pte (cow_flags (load32 (mem s) pte)) (mem s)\<rparr>
                    in (cow_flags flags, lcr3 (V2P pgdir) s)
                  else (flags, s));
               s = s\<lparr>mem := store32 pte (cow_flags (load32 (mem s) pte)) (mem s)\<rparr>;
               s = lcr3 (V2P pgdir) s
           in andthen (mappages d i PGSIZE pa flags s) (\<lambda>(r, s).
                if r <s 0 then Inr (Leave 0 (lcr3 (V2P pgdir) s))
                else andthen (incref pa s) (\<lambda>s. Inr (Next s))))"

definition copyuvm :: "addr \<Rightarrow> u32 \<Rightarrow> 'a vm_state_scheme \<Rightarrow> (addr \<times> 'a vm_state_scheme) result" where
  "copyuvm pgdir sz s =
     andthen (setupkvm s) (\<lambda>(d, s).
       if d = 0 then Inr (0, s)
       else
         andthen (page_loop (copyuvm_body pgdir d) 0 sz s) (\<lambda>fl.
           case fl of
             Next s \<Rightarrow> Inr (d, lcr3 (V2P pgdir) s)
           | Leave r s \<Rightarrow> Inr (r, s)))"

text \<open>\<^verbatim>\<open>uva2ka\<close> reads through the result of \<^verbatim>\<open>walkpgdir\<close> without a test for the null pointer.\<close>

definition uva2ka :: "addr \<Rightarrow> addr \<Rightarrow> 'a kmem_state_scheme \<Rightarrow> addr result" where
  "uva2ka pgdir uva s =
     (let pte = fst (walkpgdir pgdir uva False s)
      in if pte = 0 then Inl (BadAccess 0)
         else if load32 (mem s) pte AND PTE_P = 0 then Inr 0
         else if load32 (mem s) pte AND PTE_U = 0 then Inr 0
         else Inr (P2V (PTE_ADDR (load32 (mem s) pte))))"

text \<open>
  \<^verbatim>\<open>copyout\<close> of the bytes that its argument \<^verbatim>\<open>p\<close> points to. A pass of the loop fills a page up to its end,
  or takes what is left.
\<close>

definition copyout_chunk :: "addr \<Rightarrow> nat \<Rightarrow> nat" where
  "copyout_chunk va len =
     (let n = unat (PGSIZE - (va - PGROUNDDOWN va)) in if n > len then len else n)"

lemma copyout_chunk_bounds: "0 < len \<Longrightarrow> 0 < copyout_chunk va len \<and> copyout_chunk va len \<le> len"
proof -
  assume "0 < len"
  have "unat (va - PGROUNDDOWN va) < 4096"
    by (simp add: unat_page_offset)
  then have "0 < unat (PGSIZE - (va - PGROUNDDOWN va))"
    by (simp add: unat_sub word_le_nat_alt)
  with \<open>0 < len\<close> show ?thesis
    by (simp add: copyout_chunk_def Let_def)
qed

function copyout ::
  "addr \<Rightarrow> addr \<Rightarrow> u8 list \<Rightarrow> 'a kmem_state_scheme
    \<Rightarrow> (u32 \<times> 'a kmem_state_scheme) result" where
  "copyout pgdir va bytes s =
     (if bytes \<noteq> [] then
        let va0 = PGROUNDDOWN va
        in andthen (uva2ka pgdir va0 s) (\<lambda>pa0.
             if pa0 = 0 then Inr (- 1, s)
             else
               let n = copyout_chunk va (length bytes);
                   s = s\<lparr>mem := put_bytes (pa0 + (va - va0)) (take n bytes) (mem s)\<rparr>
               in copyout pgdir (va0 + PGSIZE) (drop n bytes) s)
      else Inr (0, s))"
  by pat_completeness auto
termination
proof (relation "measure (\<lambda>(pgdir, va, bytes, s). length bytes)", goal_cases)
  case (2 pgdir va bytes s)
  then show ?case
    using copyout_chunk_bounds [of "length bytes" va] by simp
qed simp

declare copyout.simps [simp del]

section \<open>A page directory as a function\<close>

definition pde_of :: "'a kmem_state_scheme \<Rightarrow> addr \<Rightarrow> addr \<Rightarrow> u32" where
  "pde_of s pgdir va = load32 (mem s) (pgdir + 4 * PDX va)"

definition table_of :: "'a kmem_state_scheme \<Rightarrow> addr \<Rightarrow> addr \<Rightarrow> addr option" where
  "table_of s pgdir va =
     (if pde_of s pgdir va AND PTE_P \<noteq> 0 then Some (P2V (PTE_ADDR (pde_of s pgdir va))) else None)"

definition pte_of :: "'a kmem_state_scheme \<Rightarrow> addr \<Rightarrow> addr \<Rightarrow> u32" where
  "pte_of s pgdir va =
     (case table_of s pgdir va of None \<Rightarrow> 0 | Some t \<Rightarrow> load32 (mem s) (t + 4 * PTX va))"

text \<open>
  Well-formedness of one page directory beside the free list \<open>xs\<close>: the directory and its page
  tables are pages of physical memory, pairwise different and not free.
\<close>

definition owned :: "'a kmem_state_scheme \<Rightarrow> addr \<Rightarrow> addr set" where
  "owned s pgdir = insert pgdir {t. \<exists>va. table_of s pgdir va = Some t}"

definition distinct_tables :: "'a kmem_state_scheme \<Rightarrow> addr \<Rightarrow> bool" where
  "distinct_tables s pgdir \<longleftrightarrow>
     (\<forall>va va' t. table_of s pgdir va = Some t \<and> table_of s pgdir va' = Some t \<longrightarrow> PDX va = PDX va')"

definition pgdir_wf :: "'a kmem_state_scheme \<Rightarrow> addr \<Rightarrow> addr list \<Rightarrow> bool" where
  "pgdir_wf s pgdir xs \<longleftrightarrow>
     free_inv s xs \<and> owned s pgdir \<inter> set xs = {} \<and> (\<forall>p \<in> owned s pgdir. kpage s p)
     \<and> (\<forall>va. table_of s pgdir va \<noteq> Some pgdir) \<and> distinct_tables s pgdir"

text \<open>
  What a function that only adds page tables does: it takes the pages \<open>ys\<close> from the free list,
  all of them become tables of the directory, and nothing else in memory changes.
\<close>

definition grows ::
  "addr \<Rightarrow> 'a kmem_state_scheme \<Rightarrow> addr list \<Rightarrow> 'a kmem_state_scheme \<Rightarrow> addr list \<Rightarrow> bool" where
  "grows pgdir s xs s' xs' \<longleftrightarrow>
     pgdir_wf s' pgdir xs' \<and>
     (\<exists>ys. xs = ys @ xs' \<and> owned s' pgdir = owned s pgdir \<union> set ys
        \<and> (\<forall>x. PGROUNDDOWN x \<notin> owned s pgdir \<union> set ys \<longrightarrow> mem s' x = mem s x)
        \<and> (\<forall>v. page_aligned v \<longrightarrow> v \<noteq> 0 \<longrightarrow> v \<notin> set ys \<longrightarrow> ref_count s' v = ref_count s v))
     \<and> kern_end s' = kern_end s \<and> use_lock s' = use_lock s
     \<and> kmem_state.more s' = kmem_state.more s"

lemma slot_less: "unat i < 1024 \<Longrightarrow> unat (4 * i :: u32) = 4 * unat i"
  by (simp add: unat_word_ariths)

lemma slot_page:
  assumes "page_aligned p" and "unat i < 1024"
  shows "PGROUNDDOWN (p + 4 * i) = p"
  using assms by (intro PGROUNDDOWN_add) (simp_all add: slot_less)

lemma slot_mod4:
  assumes "page_aligned p" and "unat i < 1024"
  shows "(p + 4 * i) mod 4 = 0"
  using assms page_aligned_mod4 [OF assms(1)]
  by (simp add: unat_mod4 unat_add_mod4 slot_less)

lemma slot_eq:
  assumes "unat i < 1024" and "unat j < 1024"
  shows "4 * i = 4 * j \<longleftrightarrow> i = (j :: u32)"
  using assms slot_less [of i] slot_less [of j] by (auto intro: word_unat_eqI)

lemmas slot_simps = slot_page [OF _ PDX_bound] slot_page [OF _ PTX_bound]
  slot_mod4 [OF _ PDX_bound] slot_mod4 [OF _ PTX_bound]
  slot_eq [OF PDX_bound PDX_bound] slot_eq [OF PTX_bound PTX_bound]

lemma grows_refl: "pgdir_wf s pgdir xs \<Longrightarrow> grows pgdir s xs s xs"
  by (simp add: grows_def)

lemma grows_trans:
  assumes "grows pgdir s xs s1 xs1" and "grows pgdir s1 xs1 s2 xs2"
  shows "grows pgdir s xs s2 xs2"
proof -
  obtain ys where ys: "xs = ys @ xs1" "owned s1 pgdir = owned s pgdir \<union> set ys"
    "\<And>x. PGROUNDDOWN x \<notin> owned s pgdir \<union> set ys \<Longrightarrow> mem s1 x = mem s x"
    "\<And>v. page_aligned v \<Longrightarrow> v \<noteq> 0 \<Longrightarrow> v \<notin> set ys \<Longrightarrow> ref_count s1 v = ref_count s v"
    using assms(1) by (auto simp: grows_def)
  obtain zs where zs: "xs1 = zs @ xs2" "owned s2 pgdir = owned s1 pgdir \<union> set zs"
    "\<And>x. PGROUNDDOWN x \<notin> owned s1 pgdir \<union> set zs \<Longrightarrow> mem s2 x = mem s1 x"
    "\<And>v. page_aligned v \<Longrightarrow> v \<noteq> 0 \<Longrightarrow> v \<notin> set zs \<Longrightarrow> ref_count s2 v = ref_count s1 v"
    using assms(2) by (auto simp: grows_def)
  have "mem s2 x = mem s x" if "PGROUNDDOWN x \<notin> owned s pgdir \<union> set (ys @ zs)" for x
    using that ys(2,3) zs(3) by simp
  moreover have "ref_count s2 v = ref_count s v"
    if "page_aligned v" "v \<noteq> 0" "v \<notin> set (ys @ zs)" for v
    using that ys(4) zs(4) by simp
  moreover have "xs = (ys @ zs) @ xs2" "owned s2 pgdir = owned s pgdir \<union> set (ys @ zs)"
    using ys zs by auto
  ultimately have "\<exists>ys. xs = ys @ xs2 \<and> owned s2 pgdir = owned s pgdir \<union> set ys
      \<and> (\<forall>x. PGROUNDDOWN x \<notin> owned s pgdir \<union> set ys \<longrightarrow> mem s2 x = mem s x)
      \<and> (\<forall>v. page_aligned v \<longrightarrow> v \<noteq> 0 \<longrightarrow> v \<notin> set ys \<longrightarrow> ref_count s2 v = ref_count s v)"
    by blast
  then show ?thesis
    using assms by (simp add: grows_def)
qed

text \<open>A directory depends on nothing but the pages it owns.\<close>

lemma table_of_cong:
  assumes "page_aligned pgdir" and "\<And>x. PGROUNDDOWN x = pgdir \<Longrightarrow> mem s' x = mem s x"
  shows "table_of s' pgdir = table_of s pgdir"
proof -
  have "pde_of s' pgdir va = pde_of s pgdir va" for va
    unfolding pde_of_def using assms by (intro load32_page_cong) (simp_all add: slot_simps)
  then show ?thesis
    by (simp add: fun_eq_iff table_of_def)
qed

lemma table_of_PDX: "PDX a = PDX b \<Longrightarrow> table_of s pgdir a = table_of s pgdir b"
  by (simp add: table_of_def pde_of_def)

lemma owned_table: "table_of s pgdir va = Some t \<Longrightarrow> t \<in> owned s pgdir"
  by (auto simp: owned_def)

lemma owned_pgdir [simp]: "pgdir \<in> owned s pgdir"
  by (simp add: owned_def)

lemma pgdir_wf_aligned: "pgdir_wf s pgdir xs \<Longrightarrow> p \<in> owned s pgdir \<Longrightarrow> page_aligned p"
  by (auto simp: pgdir_wf_def kpage_def)

lemma pgdir_wf_not_free: "pgdir_wf s pgdir xs \<Longrightarrow> p \<in> owned s pgdir \<Longrightarrow> p \<notin> set xs"
  by (auto simp: pgdir_wf_def)

lemma pgdir_wf_free: "pgdir_wf s pgdir xs \<Longrightarrow> free_inv s xs"
  by (simp add: pgdir_wf_def)

lemma pgdir_wf_tables:
  "pgdir_wf s pgdir xs \<Longrightarrow> table_of s pgdir a = Some t \<Longrightarrow> table_of s pgdir b = Some t \<Longrightarrow> PDX a = PDX b"
  unfolding pgdir_wf_def distinct_tables_def by blast

lemma pgdir_cong:
  assumes wf: "pgdir_wf s pgdir xs"
    and same: "\<And>x. PGROUNDDOWN x \<in> owned s pgdir \<Longrightarrow> mem s' x = mem s x"
  shows "table_of s' pgdir = table_of s pgdir" and "pte_of s' pgdir = pte_of s pgdir"
    and "owned s' pgdir = owned s pgdir"
proof -
  show tab: "table_of s' pgdir = table_of s pgdir"
    using wf same by (intro table_of_cong) (auto intro: pgdir_wf_aligned)
  have "load32 (mem s') (t + 4 * PTX va) = load32 (mem s) (t + 4 * PTX va)"
    if "table_of s pgdir va = Some t" for t va
  proof (rule load32_page_cong)
    have t: "page_aligned t" "t \<in> owned s pgdir"
      using that wf by (auto intro: pgdir_wf_aligned owned_table)
    then show "(t + 4 * PTX va) mod 4 = 0"
      by (simp add: slot_simps)
    show "mem s' x = mem s x" if "PGROUNDDOWN x = PGROUNDDOWN (t + 4 * PTX va)" for x
      using that t same by (simp add: slot_simps)
  qed
  then show "pte_of s' pgdir = pte_of s pgdir"
    by (auto simp: fun_eq_iff pte_of_def tab split: option.splits)
  show "owned s' pgdir = owned s pgdir"
    by (simp add: owned_def tab)
qed

lemma pgdir_wf_cong:
  assumes wf: "pgdir_wf s pgdir xs"
    and same: "\<And>x. PGROUNDDOWN x \<in> owned s pgdir \<Longrightarrow> mem s' x = mem s x"
    and "free_inv s' xs'" and "set xs' \<inter> owned s pgdir = {}" and "kern_end s' = kern_end s"
  shows "pgdir_wf s' pgdir xs'"
proof -
  have "kpage s' = kpage s"
    by (simp add: fun_eq_iff kpage_def assms(5))
  moreover have "table_of s' pgdir = table_of s pgdir" "owned s' pgdir = owned s pgdir"
    by (rule pgdir_cong [OF wf same]; assumption)+
  ultimately show ?thesis
    using wf assms(3,4) by (simp add: pgdir_wf_def distinct_tables_def [abs_def] Int_commute)
qed

text \<open>Two directories with disjoint pages do not see each other's changes.\<close>

lemma grows_isolates:
  assumes "grows pgdir s xs s' xs'" and q: "pgdir_wf s q xs" and "owned s q \<inter> owned s pgdir = {}"
  shows "pgdir_wf s' q xs'" and "pte_of s' q = pte_of s q" and "owned s' q = owned s q"
    and "owned s' q \<inter> owned s' pgdir = {}"
proof -
  obtain ys where ys: "xs = ys @ xs'" "owned s' pgdir = owned s pgdir \<union> set ys"
    and mem: "\<And>x. PGROUNDDOWN x \<notin> owned s pgdir \<union> set ys \<Longrightarrow> mem s' x = mem s x"
    and wf: "pgdir_wf s' pgdir xs'" and ke: "kern_end s' = kern_end s"
    using assms(1) by (auto simp: grows_def)
  have dis: "owned s q \<inter> set xs = {}"
    using q by (simp add: pgdir_wf_def)
  have same: "mem s' x = mem s x" if "PGROUNDDOWN x \<in> owned s q" for x
    using that mem assms(3) dis ys(1) by auto
  show "pgdir_wf s' q xs'"
    using q same
  proof (rule pgdir_wf_cong)
    show "free_inv s' xs'"
      using wf by (simp add: pgdir_wf_def)
  qed (use dis ys(1) ke in auto)
  show "pte_of s' q = pte_of s q" and o: "owned s' q = owned s q"
    by (rule pgdir_cong [OF q same]; assumption)+
  show "owned s' q \<inter> owned s' pgdir = {}"
    using assms(3) dis ys by (auto simp: o)
qed

section \<open>Walking and extending a directory\<close>

lemma walkpgdir_noalloc [simp]: "snd (walkpgdir pgdir va False s) = s"
  by (simp add: walkpgdir_def Let_def)

lemma walkpgdir_present:
  "table_of s pgdir va = Some t \<Longrightarrow> walkpgdir pgdir va alloc s = (t + 4 * PTX va, s)"
  by (auto simp: walkpgdir_def table_of_def pde_of_def Let_def split: if_splits)

lemma walkpgdir_absent: "table_of s pgdir va = None \<Longrightarrow> walkpgdir pgdir va False s = (0, s)"
  by (auto simp: walkpgdir_def table_of_def pde_of_def Let_def split: if_splits)

lemma new_pde:
  assumes "page_aligned t"
  shows "(V2P t OR PTE_P OR PTE_W OR PTE_U) AND PTE_P \<noteq> 0"
    and "P2V (PTE_ADDR (V2P t OR PTE_P OR PTE_W OR PTE_U)) = t"
proof -
  have "bit ((V2P t OR PTE_P OR PTE_W OR PTE_U) AND PTE_P) 0"
    by (simp add: bit_simps)
  then show "(V2P t OR PTE_P OR PTE_W OR PTE_U) AND PTE_P \<noteq> 0"
    by (metis bit_0_eq bot_apply bot_bool_def)
  have "PTE_P OR PTE_W OR PTE_U < PGSIZE"
    by simp
  then show "P2V (PTE_ADDR (V2P t OR PTE_P OR PTE_W OR PTE_U)) = t"
    using PTE_make(1) [of "V2P t" "PTE_P OR PTE_W OR PTE_U"] assms by simp
qed

lemma free_inv_store:
  assumes "free_inv s xs" and "a mod 4 = 0" and "PGROUNDDOWN a \<notin> set xs"
  shows "free_inv (s\<lparr>mem := store32 a v (mem s)\<rparr>) xs"
proof -
  have "load32 (store32 a v (mem s)) x = load32 (mem s) x" if "x \<in> set xs" for x
  proof (rule load32_store32_other)
    have "page_aligned x"
      using assms(1) that by (auto simp: free_inv_def kpage_def)
    then show "x mod 4 = 0" "a \<noteq> x"
      using assms(3) that by (auto simp: page_aligned_mod4 PGROUNDDOWN_aligned)
  qed (use assms in simp)
  then show ?thesis
    using assms(1) by (auto simp: free_inv_def kpage_def intro: chain_frame)
qed

lemma free_inv_fill:
  assumes "free_inv s xs" and "page_aligned p" and "p \<notin> set xs"
  shows "free_inv (s\<lparr>mem := fill p 4096 c (mem s)\<rparr>) xs"
proof -
  have "load32 (fill p 4096 c (mem s)) x = load32 (mem s) x" if "x \<in> set xs" for x
  proof (rule load32_fill_other)
    have "page_aligned x"
      using assms(1) that by (auto simp: free_inv_def kpage_def)
    then show "x mod 4 = 0" "PGROUNDDOWN x \<noteq> p"
      using assms(3) that by (auto simp: page_aligned_mod4 PGROUNDDOWN_aligned)
  qed (use assms in simp)
  then show ?thesis
    using assms(1) by (auto simp: free_inv_def kpage_def intro: chain_frame)
qed

text \<open>A zeroed page that becomes a page table adds no mapping.\<close>

definition add_table :: "addr \<Rightarrow> addr \<Rightarrow> addr \<Rightarrow> 'a kmem_state_scheme \<Rightarrow> 'a kmem_state_scheme" where
  "add_table pgdir va t s =
     s\<lparr>mem := store32 (pgdir + 4 * PDX va) (V2P t OR PTE_P OR PTE_W OR PTE_U)
                (fill t 4096 0 (mem s))\<rparr>"

lemma walkpgdir_alloc:
  "table_of s pgdir va = None \<Longrightarrow> walkpgdir pgdir va True s =
     (let (pgtab, s) = kalloc s
      in if pgtab = 0 then (0, s) else (pgtab + 4 * PTX va, add_table pgdir va pgtab s))"
  by (auto simp: walkpgdir_def table_of_def pde_of_def Let_def memset_fill add_table_def
      split: if_splits prod.splits)

lemma add_table_frame [simp]:
  "kern_end (add_table pgdir va t s) = kern_end s" "use_lock (add_table pgdir va t s) = use_lock s"
  "ref_counts (add_table pgdir va t s) = ref_counts s"
  "kmem_state.more (add_table pgdir va t s) = kmem_state.more s"
  by (simp_all add: add_table_def)

lemma kpage_add_table [simp]: "kpage (add_table pgdir va t s) = kpage s"
  by (simp add: fun_eq_iff kpage_def)

lemma mem_add_table_other:
  assumes "page_aligned pgdir" and "page_aligned t" and "PGROUNDDOWN x \<noteq> pgdir" and "PGROUNDDOWN x \<noteq> t"
  shows "mem (add_table pgdir va t s) x = mem s x"
  using assms by (simp add: add_table_def store32_other_page slot_simps fill_page)

lemma table_of_add_table:
  assumes "page_aligned pgdir" and "page_aligned t" and "t \<noteq> pgdir"
  shows "table_of (add_table pgdir va t s) pgdir va' =
    (if PDX va' = PDX va then Some t else table_of s pgdir va')"
proof (cases "PDX va' = PDX va")
  case True
  then show ?thesis
    using new_pde [OF assms(2)] by (simp add: table_of_def pde_of_def add_table_def)
next
  case False
  then have "pde_of (add_table pgdir va t s) pgdir va' = pde_of s pgdir va'"
    using assms False [symmetric]
    by (simp add: pde_of_def add_table_def load32_store32_other load32_fill_other slot_simps)
  with False show ?thesis
    by (simp add: table_of_def)
qed

lemma owned_add_table:
  assumes "page_aligned pgdir" and "page_aligned t" and "t \<noteq> pgdir" and "table_of s pgdir va = None"
  shows "owned (add_table pgdir va t s) pgdir = insert t (owned s pgdir)"
proof -
  have "table_of s pgdir va' = None" if "PDX va' = PDX va" for va'
    using that assms(4) table_of_PDX [of va' va s pgdir] by simp
  then show ?thesis
    unfolding owned_def table_of_add_table [OF assms(1-3)]
    by (auto split: if_splits) (metis option.distinct(1))
qed

lemma free_inv_add_table:
  assumes "free_inv s xs" and "page_aligned pgdir" "page_aligned t" and "t \<notin> set xs" "pgdir \<notin> set xs"
  shows "free_inv (add_table pgdir va t s) xs"
  using free_inv_store [OF free_inv_fill [OF assms(1,3,4)], of "pgdir + 4 * PDX va"] assms(2,5)
  by (simp add: add_table_def slot_simps)

lemma distinct_tables_add_table:
  assumes "page_aligned pgdir" and "page_aligned t" and "t \<noteq> pgdir" and "t \<notin> owned s pgdir"
    and "distinct_tables s pgdir"
  shows "distinct_tables (add_table pgdir va t s) pgdir"
proof -
  have inj: "PDX a = PDX b" if "table_of s pgdir a = Some u" "table_of s pgdir b = Some u" for a b u
    using assms(5) that unfolding distinct_tables_def by blast
  have new: "table_of s pgdir a \<noteq> Some t" for a
    using assms(4) owned_table by blast
  show ?thesis
    unfolding distinct_tables_def table_of_add_table [OF assms(1-3)]
    using inj new by (metis option.inject)
qed

lemma pte_of_add_table:
  assumes wf: "pgdir_wf s pgdir xs" and t: "page_aligned t" "t \<notin> owned s pgdir"
    and va: "table_of s pgdir va = None"
  shows "pte_of (add_table pgdir va t s) pgdir = pte_of s pgdir"
proof
  fix va'
  have al: "page_aligned pgdir" and ne: "t \<noteq> pgdir"
    using wf t by (auto intro: pgdir_wf_aligned)
  note tab = table_of_add_table [OF al t(1) ne]
  show "pte_of (add_table pgdir va t s) pgdir va' = pte_of s pgdir va'"
  proof (cases "PDX va' = PDX va")
    case True
    then have "table_of s pgdir va' = None"
      using va table_of_PDX [of va' va s pgdir] by simp
    moreover have "load32 (mem (add_table pgdir va t s)) (t + 4 * PTX va') = 0"
    proof -
      have "load32 (mem (add_table pgdir va t s)) (t + 4 * PTX va')
          = load32 (fill t 4096 0 (mem s)) (t + 4 * PTX va')"
        using al t(1) ne
        by (intro load32_page_cong) (simp_all add: add_table_def store32_other_page slot_simps)
      then show ?thesis
        using t(1) by (simp add: load32_fill_zero slot_simps)
    qed
    ultimately show ?thesis
      using True by (simp add: pte_of_def tab)
  next
    case False
    have "load32 (mem (add_table pgdir va t s)) (u + 4 * PTX va') = load32 (mem s) (u + 4 * PTX va')"
      if u: "table_of s pgdir va' = Some u" for u
    proof -
      have "page_aligned u" "u \<noteq> t" "u \<noteq> pgdir"
        using u wf t(2) by (auto intro: pgdir_wf_aligned owned_table dest: owned_table simp: pgdir_wf_def)
      then show ?thesis
        using al t(1) by (intro load32_page_cong) (simp_all add: slot_simps mem_add_table_other)
    qed
    with False show ?thesis
      by (simp add: pte_of_def tab split: option.splits)
  qed
qed

lemma pgdir_wf_kalloc:
  assumes "pgdir_wf s pgdir xs"
  shows "pgdir_wf (snd (kalloc s)) pgdir (tl xs)"
  using assms
proof (rule pgdir_wf_cong)
  have "free_inv s xs"
    using assms by (simp add: pgdir_wf_def)
  then show "free_inv (snd (kalloc s)) (tl xs)"
    by (cases xs) (auto simp: kalloc_some kalloc_none)
  show "set (tl xs) \<inter> owned s pgdir = {}"
    using assms list.set_sel(2) [of xs] by (cases xs) (auto simp: pgdir_wf_def)
qed simp_all

lemma add_table_grows:
  assumes wf: "pgdir_wf s pgdir (t # xs)" and va: "table_of s pgdir va = None"
  shows "grows pgdir s (t # xs) (add_table pgdir va t (snd (kalloc s))) xs"
    and "pte_of (add_table pgdir va t (snd (kalloc s))) pgdir = pte_of s pgdir"
proof -
  let ?s1 = "snd (kalloc s)" and ?s2 = "add_table pgdir va t (snd (kalloc s))"
  have t: "page_aligned t" "kpage s t" "t \<notin> owned s pgdir" and inv: "free_inv s (t # xs)"
    using wf by (auto simp: pgdir_wf_def free_inv_def kpage_def)
  have al: "page_aligned pgdir" and ne: "t \<noteq> pgdir"
    using wf t by (auto intro: pgdir_wf_aligned)
  have wf1: "pgdir_wf ?s1 pgdir xs"
    using pgdir_wf_kalloc [OF wf] by simp
  have same: "table_of ?s1 pgdir = table_of s pgdir" "owned ?s1 pgdir = owned s pgdir"
      "pte_of ?s1 pgdir = pte_of s pgdir"
    using pgdir_cong [OF wf, of ?s1] by simp_all
  have va1: "table_of ?s1 pgdir va = None" and t1: "t \<notin> owned ?s1 pgdir"
    using va t by (simp_all add: same)
  note own = owned_add_table [OF al t(1) ne va1]
  have tx: "t \<notin> set xs"
    using inv by (simp add: free_inv_def)
  show "pte_of ?s2 pgdir = pte_of s pgdir"
    using pte_of_add_table [OF wf1 t(1) t1 va1] same by simp
  have "free_inv ?s2 xs"
    using wf1 al t(1) tx by (simp add: free_inv_add_table pgdir_wf_not_free pgdir_wf_free)
  moreover have "owned ?s2 pgdir \<inter> set xs = {}"
    using wf tx by (auto simp: own same pgdir_wf_def)
  moreover have "\<forall>p \<in> owned ?s2 pgdir. kpage ?s2 p"
    using wf t by (auto simp: own same pgdir_wf_def)
  moreover have "\<forall>va'. table_of ?s2 pgdir va' \<noteq> Some pgdir"
    using wf ne by (auto simp: table_of_add_table [OF al t(1) ne] same pgdir_wf_def)
  moreover have "distinct_tables ?s2 pgdir"
    using wf1 by (intro distinct_tables_add_table al t ne t1) (simp add: pgdir_wf_def)
  ultimately have wf2: "pgdir_wf ?s2 pgdir xs"
    by (simp add: pgdir_wf_def)
  have "ref_count ?s2 v = ref_count s v" if "page_aligned v" "v \<noteq> t" for v
    using that kalloc_ref_other [OF that(1) inv] kalloc_some(1) [OF inv]
    by (simp add: ref_count_def)
  moreover have "mem ?s2 x = mem s x" if "PGROUNDDOWN x \<notin> insert t (owned s pgdir)" for x
    using that mem_add_table_other [OF al t(1), of x va ?s1] by (auto simp: owned_def)
  ultimately have "\<exists>ys. t # xs = ys @ xs \<and> owned ?s2 pgdir = owned s pgdir \<union> set ys
        \<and> (\<forall>x. PGROUNDDOWN x \<notin> owned s pgdir \<union> set ys \<longrightarrow> mem ?s2 x = mem s x)
        \<and> (\<forall>v. page_aligned v \<longrightarrow> v \<noteq> 0 \<longrightarrow> v \<notin> set ys \<longrightarrow> ref_count ?s2 v = ref_count s v)"
    by (intro exI [of _ "[t]"]) (simp add: own same)
  then show "grows pgdir s (t # xs) ?s2 xs"
    using wf2 by (simp add: grows_def)
qed

lemma same_page_iff: "PGROUNDDOWN a = PGROUNDDOWN b \<longleftrightarrow> PDX a = PDX b \<and> PTX a = PTX b"
proof
  have div: "unat (PGROUNDDOWN x) = 4096 * (unat (PDX x) * 1024 + unat (PTX x))" for x
  proof -
    have "unat x div 4096 = unat x div 4096 div 1024 * 1024 + unat x div 4096 mod 1024"
      by simp
    then show ?thesis
      by (simp add: unat_PGROUNDDOWN unat_PDX unat_PTX div_mult2_eq [symmetric])
  qed
  show "PGROUNDDOWN a = PGROUNDDOWN b" if "PDX a = PDX b \<and> PTX a = PTX b"
    using that div [of a] div [of b] by (intro word_unat_eqI) simp
  assume "PGROUNDDOWN a = PGROUNDDOWN b"
  then have eq: "unat (PDX a) * 1024 + unat (PTX a) = unat (PDX b) * 1024 + unat (PTX b)"
    using div [of a] div [of b] by simp
  then have "unat (PTX a) = unat (PTX b)"
    using PTX_bound [of a] PTX_bound [of b] by (metis mod_less mod_mult_self3)
  moreover from this eq have "unat (PDX a) = unat (PDX b)"
    by simp
  ultimately show "PDX a = PDX b \<and> PTX a = PTX b"
    by (simp add: word_unat_eqI)
qed

lemma walkpgdir_grows:
  assumes wf: "pgdir_wf s pgdir xs"
  shows "\<exists>s' xs'. grows pgdir s xs s' xs' \<and> pte_of s' pgdir = pte_of s pgdir
    \<and> ((\<exists>t. table_of s' pgdir va = Some t \<and> walkpgdir pgdir va True s = (t + 4 * PTX va, s'))
       \<or> xs' = [] \<and> walkpgdir pgdir va True s = (0, s'))"
proof (cases "table_of s pgdir va")
  case (Some t)
  then show ?thesis
    using grows_refl [OF wf] walkpgdir_present [OF Some, of True] by blast
next
  case None
  note inv = pgdir_wf_free [OF wf]
  show ?thesis
  proof (cases xs)
    case Nil
    have "walkpgdir pgdir va True s = (0, snd (kalloc s))"
      using inv by (simp add: walkpgdir_alloc [OF None] Nil kalloc_none split_beta Let_def)
    moreover have "pgdir_wf (snd (kalloc s)) pgdir []"
      using pgdir_wf_kalloc [OF wf] by (simp add: Nil)
    moreover have "owned (snd (kalloc s)) pgdir = owned s pgdir"
      "pte_of (snd (kalloc s)) pgdir = pte_of s pgdir"
      using pgdir_cong [OF wf, of "snd (kalloc s)"] by simp_all
    moreover have "ref_count (snd (kalloc s)) v = ref_count s v" if "page_aligned v" "v \<noteq> 0" for v
      using that inv by (intro kalloc_ref_other [of _ _ "[]"]) (simp_all add: Nil kalloc_none)
    ultimately show ?thesis
      by (auto simp: grows_def Nil)
  next
    case (Cons t ys)
    note step = add_table_grows [OF wf [unfolded Cons] None]
    have "t \<noteq> 0" "page_aligned t"
      using inv by (auto simp: Cons free_inv_def kpage_def)
    moreover have "page_aligned pgdir" "t \<noteq> pgdir"
      using pgdir_wf_aligned [OF wf] pgdir_wf_not_free [OF wf, of pgdir] by (auto simp: Cons)
    ultimately have "table_of (add_table pgdir va t (snd (kalloc s))) pgdir va = Some t"
      "walkpgdir pgdir va True s = (t + 4 * PTX va, add_table pgdir va t (snd (kalloc s)))"
      using inv by (simp_all add: table_of_add_table walkpgdir_alloc [OF None] Cons kalloc_some
          split_beta Let_def)
    with step show ?thesis
      unfolding Cons by blast
  qed
qed

lemma store_pte:
  fixes v :: u32
  assumes wf: "pgdir_wf s pgdir xs" and t: "table_of s pgdir va = Some t"
  defines "s' \<equiv> s\<lparr>mem := store32 (t + 4 * PTX va) v (mem s)\<rparr>"
  shows "grows pgdir s xs s' xs"
    and "pte_of s' pgdir =
      (\<lambda>va'. if PGROUNDDOWN va' = PGROUNDDOWN va then v else pte_of s pgdir va')"
    and "table_of s' pgdir = table_of s pgdir"
proof -
  have al: "page_aligned t" "page_aligned pgdir" and own: "t \<in> owned s pgdir" and ne: "t \<noteq> pgdir"
    using wf t by (auto intro: pgdir_wf_aligned owned_table simp: pgdir_wf_def)
  have other: "mem s' x = mem s x" if "PGROUNDDOWN x \<noteq> t" for x
    using that al by (simp add: s'_def store32_other_page slot_simps)
  show tab: "table_of s' pgdir = table_of s pgdir"
    using al ne by (intro table_of_cong) (auto intro: other)
  then have own': "owned s' pgdir = owned s pgdir"
    by (simp add: owned_def)
  have "free_inv s' xs"
    unfolding s'_def using wf own al
    by (intro free_inv_store) (auto simp: slot_simps pgdir_wf_def)
  moreover have "kpage s' = kpage s" "kern_end s' = kern_end s" "use_lock s' = use_lock s"
    "kmem_state.more s' = kmem_state.more s" "ref_counts s' = ref_counts s"
    by (simp_all add: s'_def fun_eq_iff kpage_def)
  moreover have "distinct_tables s' pgdir = distinct_tables s pgdir"
    by (simp only: distinct_tables_def tab)
  ultimately show "grows pgdir s xs s' xs"
    using wf own by (auto simp: grows_def pgdir_wf_def own' tab ref_count_def intro: other)
  have "pte_of s' pgdir va' = (if PGROUNDDOWN va' = PGROUNDDOWN va then v else pte_of s pgdir va')"
    for va'
  proof (cases "table_of s pgdir va'")
    case None
    then show ?thesis
      using t table_of_PDX [of va' va s pgdir] by (auto simp: pte_of_def tab same_page_iff)
  next
    case (Some u)
    then have u: "page_aligned u" "u = t \<longrightarrow> PDX va' = PDX va"
      using t pgdir_wf_aligned [OF wf] owned_table pgdir_wf_tables [OF wf] by blast+
    show ?thesis
    proof (cases "u = t")
      case True
      moreover have "load32 (mem s') (t + 4 * PTX va') =
          (if PTX va' = PTX va then v else load32 (mem s) (t + 4 * PTX va'))"
        using al by (auto simp: s'_def slot_simps load32_store32_other dest: sym)
      ultimately show ?thesis
        using Some u by (simp add: pte_of_def tab same_page_iff)
    next
      case False
      then have "PDX va' \<noteq> PDX va"
        using Some t table_of_PDX [of va' va s pgdir] by auto
      moreover have "load32 (mem s') (u + 4 * PTX va') = load32 (mem s) (u + 4 * PTX va')"
        using u(1) False by (intro load32_page_cong) (simp_all add: slot_simps other)
      ultimately show ?thesis
        using Some by (simp add: pte_of_def tab same_page_iff)
    qed
  qed
  then show "pte_of s' pgdir = (\<lambda>va'. if PGROUNDDOWN va' = PGROUNDDOWN va then v else pte_of s pgdir va')"
    by (rule ext)
qed

section \<open>Mapping a range\<close>

text \<open>\<open>n\<close> pages of virtual memory from \<open>a\<close> on, mapped to the physical memory from \<open>pa\<close> on.\<close>

definition map_range :: "addr \<Rightarrow> nat \<Rightarrow> u32 \<Rightarrow> u32 \<Rightarrow> (addr \<Rightarrow> u32) \<Rightarrow> addr \<Rightarrow> u32" where
  "map_range a n pa perm f va =
     (if unat (va - a) < 4096 * n then (pa + (PGROUNDDOWN va - a)) OR perm OR PTE_P else f va)"

lemma map_range_0 [simp]: "map_range a 0 pa perm f = f"
  by (simp add: fun_eq_iff map_range_def)

lemma map_range_1:
  "page_aligned a \<Longrightarrow> map_range a (Suc 0) pa perm f =
     (\<lambda>va. if PGROUNDDOWN va = PGROUNDDOWN a then pa OR perm OR PTE_P else f va)"
  by (auto simp: fun_eq_iff map_range_def PGROUNDDOWN_aligned simp flip: PGROUNDDOWN_eq_iff)

lemma unat_sub_page:
  fixes va a :: addr
  assumes "unat (va - a) \<ge> 4096"
  shows "unat (va - (a + PGSIZE)) = unat (va - a) - 4096"
proof -
  have "va - (a + PGSIZE) = (va - a) - PGSIZE"
    by simp
  moreover have "PGSIZE \<le> va - a"
    using assms by (simp add: word_le_nat_alt)
  ultimately show ?thesis
    by (simp only: unat_sub) simp
qed

lemma unat_sub_page_below:
  fixes va a :: addr
  assumes "unat (va - a) < 4096"
  shows "unat (va - (a + PGSIZE)) = 2 ^ 32 + unat (va - a) - 4096"
  unfolding diff_diff_eq [symmetric]
  using assms unat_sub_if_size [of "va - a" PGSIZE] by (simp add: word_size)

lemma map_range_Suc:
  assumes "page_aligned a" and "4096 * Suc n \<le> 2 ^ 32"
  shows "map_range (a + PGSIZE) n (pa + PGSIZE) perm (map_range a (Suc 0) pa perm f) =
    map_range a (Suc n) pa perm f"
proof
  fix va
  show "map_range (a + PGSIZE) n (pa + PGSIZE) perm (map_range a (Suc 0) pa perm f) va =
      map_range a (Suc n) pa perm f va"
  proof (cases "unat (va - a) < 4096")
    case True
    then have "\<not> unat (va - (a + PGSIZE)) < 4096 * n"
      using unat_sub_page_below [OF True] assms(2) by simp
    with True show ?thesis
      by (simp add: map_range_def)
  next
    case False
    then show ?thesis
      by (simp add: map_range_def unat_sub_page not_less less_diff_conv2 algebra_simps)
  qed
qed

lemma table_slot_nonzero:
  assumes "pgdir_wf s pgdir xs" and "table_of s pgdir va = Some t"
  shows "t + 4 * PTX va' \<noteq> 0"
proof -
  have "kpage s t" "page_aligned t"
    using assms by (auto simp: pgdir_wf_def owned_def intro: pgdir_wf_aligned owned_table)
  then have "PGROUNDDOWN (t + 4 * PTX va') \<noteq> 0"
    using kpage_nonzero by (simp add: slot_simps)
  moreover have "PGROUNDDOWN 0 = 0"
    by (simp add: PGROUNDDOWN_def)
  ultimately show ?thesis
    by metis
qed

lemma grows_wf: "grows pgdir s xs s' xs' \<Longrightarrow> pgdir_wf s' pgdir xs'"
  by (simp add: grows_def)

text \<open>One pass of the loop of \<^verbatim>\<open>mappages\<close>.\<close>

lemma mappages_step:
  assumes wf: "pgdir_wf s pgdir xs" and "page_aligned a" and free: "pte_of s pgdir a AND PTE_P = 0"
  shows "(\<exists>s'. mappages_loop pgdir a end_a pa perm s = Inr (- 1, s') \<and> grows pgdir s xs s' []
      \<and> pte_of s' pgdir = pte_of s pgdir)
    \<or> (\<exists>s' xs'. mappages_loop pgdir a end_a pa perm s =
          (if a = end_a then Inr (0, s')
           else if end_a - a < PGSIZE then Inl AddrWrap
           else mappages_loop pgdir (a + PGSIZE) end_a (pa + PGSIZE) perm s')
        \<and> grows pgdir s xs s' xs' \<and> pte_of s' pgdir = map_range a (Suc 0) pa perm (pte_of s pgdir))"
proof -
  obtain s1 xs1 where g: "grows pgdir s xs s1 xs1" and same: "pte_of s1 pgdir = pte_of s pgdir"
    and walk: "(\<exists>t. table_of s1 pgdir a = Some t \<and> walkpgdir pgdir a True s = (t + 4 * PTX a, s1))
      \<or> xs1 = [] \<and> walkpgdir pgdir a True s = (0, s1)"
    using walkpgdir_grows [OF wf] by blast
  from walk show ?thesis
  proof (elim disjE exE conjE)
    assume empty: "xs1 = []" and "walkpgdir pgdir a True s = (0, s1)"
    then have "mappages_loop pgdir a end_a pa perm s = Inr (- 1, s1)"
      by (subst mappages_loop.simps) simp
    then show ?thesis
      using g same empty by blast
  next
    fix t
    assume t: "table_of s1 pgdir a = Some t" and w: "walkpgdir pgdir a True s = (t + 4 * PTX a, s1)"
    have "load32 (mem s1) (t + 4 * PTX a) AND PTE_P = 0"
      using free t unfolding same [symmetric] by (simp add: pte_of_def)
    moreover define s' where
      "s' = s1\<lparr>mem := store32 (t + 4 * PTX a) (pa OR perm OR PTE_P) (mem s1)\<rparr>"
    ultimately have "mappages_loop pgdir a end_a pa perm s =
        (if a = end_a then Inr (0, s')
         else if end_a - a < PGSIZE then Inl AddrWrap
         else mappages_loop pgdir (a + PGSIZE) end_a (pa + PGSIZE) perm s')"
      using w table_slot_nonzero [OF grows_wf [OF g] t, of a]
      by (subst mappages_loop.simps) (simp add: Let_def)
    moreover note store =
      store_pte [OF grows_wf [OF g] t, of "pa OR perm OR PTE_P", folded s'_def, unfolded same]
    moreover have "grows pgdir s xs s' xs1"
      using g store(1) by (rule grows_trans)
    ultimately show ?thesis
      using assms(2) by (intro disjI2 exI [of _ s'] exI [of _ xs1]) (simp add: map_range_1)
  qed
qed

text \<open>
  What a call on \<open>n\<close> pages does: all of them are mapped, or the free list ran empty and the first
  \<open>k < n\<close> are.
\<close>

definition map_outcome ::
  "addr \<Rightarrow> addr \<Rightarrow> nat \<Rightarrow> u32 \<Rightarrow> u32 \<Rightarrow> 'a kmem_state_scheme \<Rightarrow> addr list
    \<Rightarrow> (u32 \<times> 'a kmem_state_scheme) result \<Rightarrow> bool" where
  "map_outcome pgdir a n pa perm s xs res \<longleftrightarrow>
     (\<exists>r s' xs' k. res = Inr (r, s') \<and> grows pgdir s xs s' xs'
        \<and> pte_of s' pgdir = map_range a k pa perm (pte_of s pgdir)
        \<and> (r = 0 \<and> k = n \<or> r = - 1 \<and> k < n \<and> xs' = []))"

lemma map_outcomeI:
  "res = Inr (r, s') \<Longrightarrow> grows pgdir s xs s' xs' \<Longrightarrow>
   pte_of s' pgdir = map_range a k pa perm (pte_of s pgdir) \<Longrightarrow>
   r = 0 \<and> k = n \<or> r = - 1 \<and> k < n \<and> xs' = [] \<Longrightarrow> map_outcome pgdir a n pa perm s xs res"
  unfolding map_outcome_def by blast

lemma map_outcomeE:
  assumes "map_outcome pgdir a n pa perm s xs res"
  obtains r s' xs' k where "res = Inr (r, s')" "grows pgdir s xs s' xs'"
    "pte_of s' pgdir = map_range a k pa perm (pte_of s pgdir)"
    "r = 0 \<and> k = n \<or> r = - 1 \<and> k < n \<and> xs' = []"
  using assms unfolding map_outcome_def by blast

lemma mappages_loop_spec:
  assumes "pgdir_wf s pgdir xs" and "page_aligned a" and "unat a + 4096 * n < 2 ^ 32"
    and "\<And>va. unat (va - a) < 4096 * Suc n \<Longrightarrow> pte_of s pgdir va AND PTE_P = 0"
  shows "map_outcome pgdir a (Suc n) pa perm s xs
    (mappages_loop pgdir a (a + of_nat n * PGSIZE) pa perm s)"
  using assms
proof (induction n arbitrary: a pa s xs)
  case 0
  have "pte_of s pgdir a AND PTE_P = 0"
    using 0(4) [of a] by simp
  from mappages_step [OF 0(1,2) this, of a pa perm] show ?case
    by (auto intro: map_outcomeI [where k = 0] map_outcomeI [where k = "Suc 0"])
next
  case (Suc n)
  let ?last = "a + of_nat (Suc n) * PGSIZE"
  have "unat (of_nat (Suc n) * PGSIZE) = 4096 * Suc n"
    using Suc.prems(3) by (simp add: unat_word_ariths unat_of_nat)
  then have ge: "PGSIZE \<le> ?last - a"
    by (simp add: word_le_nat_alt)
  then have ne: "a \<noteq> ?last"
    by auto
  consider s1 where "mappages_loop pgdir a ?last pa perm s = Inr (- 1, s1)" "grows pgdir s xs s1 []"
      "pte_of s1 pgdir = pte_of s pgdir"
    | s1 xs1 where "mappages_loop pgdir a ?last pa perm s =
        mappages_loop pgdir (a + PGSIZE) ?last (pa + PGSIZE) perm s1"
      "grows pgdir s xs s1 xs1" "pte_of s1 pgdir = map_range a (Suc 0) pa perm (pte_of s pgdir)"
    using mappages_step [OF Suc.prems(1,2), of ?last pa perm] Suc.prems(4) [of a] ne ge
    by (auto simp: not_less [symmetric])
  then show ?case
  proof cases
    case 1
    have "pte_of s1 pgdir = map_range a 0 pa perm (pte_of s pgdir)"
      by (simp only: map_range_0 1(3))
    with 1(1,2) show ?thesis
      by (rule map_outcomeI) simp
  next
    case 2
    have "unat a + 4096 < 2 ^ 32"
      using Suc.prems(3) by simp
    then have a1: "unat (a + PGSIZE) = unat a + 4096" "?last = (a + PGSIZE) + of_nat n * PGSIZE"
      by (simp_all add: unat_word_ariths distrib_right)
    have "pte_of s1 pgdir va AND PTE_P = 0" if "unat (va - (a + PGSIZE)) < 4096 * Suc n" for va
    proof -
      have "n \<le> 1048574"
        using Suc.prems(3) by simp
      then have "\<not> unat (va - a) < 4096"
        using that unat_sub_page_below [of va a] by auto
      then show ?thesis
        using that Suc.prems(4) [of va] 2(3) by (simp add: map_range_def unat_sub_page)
    qed
    with Suc.IH [OF grows_wf [OF 2(2)], of "a + PGSIZE" "pa + PGSIZE"] Suc.prems(2,3) a1(1)
    have "map_outcome pgdir (a + PGSIZE) (Suc n) (pa + PGSIZE) perm s1 xs1
        (mappages_loop pgdir (a + PGSIZE) ?last (pa + PGSIZE) perm s1)"
      unfolding a1(2) by simp
    then obtain r s' xs' k where *:
      "mappages_loop pgdir (a + PGSIZE) ?last (pa + PGSIZE) perm s1 = Inr (r, s')"
      "grows pgdir s1 xs1 s' xs'"
      "pte_of s' pgdir = map_range (a + PGSIZE) k (pa + PGSIZE) perm (pte_of s1 pgdir)"
      "r = 0 \<and> k = Suc n \<or> r = - 1 \<and> k < Suc n \<and> xs' = []"
      by (rule map_outcomeE)
    have "4096 * Suc k \<le> 2 ^ 32"
      using *(4) Suc.prems(3) by auto
    then have "pte_of s' pgdir = map_range a (Suc k) pa perm (pte_of s pgdir)"
      using *(3) 2(3) Suc.prems(2) by (simp add: map_range_Suc)
    moreover have "mappages_loop pgdir a ?last pa perm s = Inr (r, s')"
      using 2(1) *(1) by (rule trans)
    ultimately show ?thesis
      using grows_trans [OF 2(2) *(2)] *(4) by (intro map_outcomeI [where k = "Suc k"]) auto
  qed
qed

definition page_count :: "addr \<Rightarrow> u32 \<Rightarrow> nat" where
  "page_count va sz = (unat va + unat sz - 1) div 4096 - unat va div 4096 + 1"

lemma mappages_spec:
  assumes wf: "pgdir_wf s pgdir xs" and sz: "0 < unat sz" and fit: "unat va + unat sz \<le> 2 ^ 32"
    and free: "\<And>x. unat (x - PGROUNDDOWN va) < 4096 * page_count va sz \<Longrightarrow> pte_of s pgdir x AND PTE_P = 0"
  shows "map_outcome pgdir (PGROUNDDOWN va) (page_count va sz) pa perm s xs
    (mappages pgdir va sz pa perm s)"
proof -
  let ?u = "unat va + unat sz - 1"
  define n where "n = ?u div 4096 - unat va div 4096"
  have "unat (va + sz - 1) = ?u"
  proof -
    have "va + sz - 1 = of_nat ?u"
      using sz by (simp add: of_nat_diff)
    then have "unat (va + sz - 1) = ?u mod 2 ^ 32"
      by (simp only: unat_of_nat) simp
    then show ?thesis
      using sz fit by simp
  qed
  then have last: "unat (PGROUNDDOWN (va + sz - 1)) = ?u div 4096 * 4096"
    by (simp add: unat_PGROUNDDOWN)
  have le: "unat va div 4096 \<le> ?u div 4096"
    using sz by (intro div_le_mono) simp
  then have n: "unat (PGROUNDDOWN va) + 4096 * n = ?u div 4096 * 4096"
    by (simp add: unat_PGROUNDDOWN n_def algebra_simps)
  moreover have "?u div 4096 * 4096 \<le> ?u"
    by simp
  ultimately have small: "unat (PGROUNDDOWN va) + 4096 * n < 2 ^ 32"
    using sz fit by linarith
  have "PGROUNDDOWN (va + sz - 1) = PGROUNDDOWN va + of_nat n * PGSIZE"
  proof (rule word_unat_eqI)
    have "unat (PGROUNDDOWN va + of_nat n * PGSIZE) = unat (of_nat (unat (PGROUNDDOWN va) + n * 4096) :: addr)"
      by simp
    also have "\<dots> = unat (PGROUNDDOWN va) + n * 4096"
      using small by (simp only: unat_of_nat) simp
    finally show "unat (PGROUNDDOWN (va + sz - 1)) = unat (PGROUNDDOWN va + of_nat n * PGSIZE)"
      using n last by simp
  qed
  moreover have "page_count va sz = Suc n"
    by (simp add: page_count_def n_def)
  ultimately show ?thesis
    using mappages_loop_spec [OF wf _ small, of pa perm] free by (simp add: mappages_def)
qed

text \<open>A directory has at most 1024 page tables, so this many free pages are always enough.\<close>

lemma card_owned:
  "finite (owned s pgdir)" "card (owned s pgdir - {pgdir}) \<le> 1024"
proof -
  define f where "f i = P2V (PTE_ADDR (load32 (mem s) (pgdir + 4 * of_nat i)))" for i :: nat
  have "t \<in> f ` {..<1024}" if "table_of s pgdir va = Some t" for va t
    using that PDX_bound [of va] by (intro image_eqI [of _ _ "unat (PDX va)"])
      (auto simp: f_def table_of_def pde_of_def split: if_splits)
  then have sub: "owned s pgdir - {pgdir} \<subseteq> f ` {..<1024}"
    by (auto simp: owned_def)
  then show "card (owned s pgdir - {pgdir}) \<le> 1024"
    using card_mono [OF _ sub] card_image_le [of "{..<1024}" f] by simp
  show "finite (owned s pgdir)"
    using finite_subset [OF sub] by simp
qed

lemma tables_bound:
  assumes "distinct ys" and "set ys \<subseteq> owned s pgdir" and "pgdir \<notin> set ys"
  shows "length ys \<le> 1024"
proof -
  have "card (set ys) \<le> card (owned s pgdir - {pgdir})"
    using assms card_owned by (intro card_mono) auto
  then show ?thesis
    using card_owned(2) [of s pgdir] assms(1) by (simp add: distinct_card)
qed

lemma grows_enough:
  assumes "pgdir_wf s pgdir xs" and "grows pgdir s xs s' []"
  shows "length xs \<le> 1024"
proof -
  have "set xs \<subseteq> owned s' pgdir"
    using assms(2) by (auto simp: grows_def)
  moreover have "distinct xs" "pgdir \<notin> set xs"
    using assms(1) pgdir_wf_not_free [OF assms(1), of pgdir] by (simp_all add: pgdir_wf_def free_inv_def)
  ultimately show ?thesis
    by (intro tables_bound)
qed

lemma fresh_pgdir:
  assumes inv: "free_inv s (d # xs)"
  defines "s' \<equiv> (snd (kalloc s))\<lparr>mem := fill d 4096 0 (mem s)\<rparr>"
  shows "pgdir_wf s' d xs" and "pte_of s' d = (\<lambda>_. 0)" and "owned s' d = {d}"
    and "PGROUNDDOWN x \<noteq> d \<Longrightarrow> mem s' x = mem s x"
    and "page_aligned v \<Longrightarrow> v \<noteq> d \<Longrightarrow> ref_count s' v = ref_count s v"
proof -
  have d: "page_aligned d" "kpage s d" "d \<notin> set xs"
    using inv by (auto simp: free_inv_def kpage_def)
  have "table_of s' d va = None" for va
    using d by (simp add: s'_def table_of_def pde_of_def load32_fill_zero slot_simps)
  then have tab: "table_of s' d = (\<lambda>_. None)"
    by (rule ext)
  show "pte_of s' d = (\<lambda>_. 0)" and own: "owned s' d = {d}"
    by (simp_all add: fun_eq_iff pte_of_def owned_def tab)
  have "free_inv s' xs"
    using free_inv_fill [OF kalloc_some(2) [OF inv], of d 0] d by (simp add: s'_def)
  moreover have "kpage s' = kpage s"
    by (simp add: fun_eq_iff kpage_def s'_def)
  ultimately show "pgdir_wf s' d xs"
    using d by (simp add: pgdir_wf_def own tab distinct_tables_def)
  show "mem s' x = mem s x" if "PGROUNDDOWN x \<noteq> d"
    using that d by (simp add: s'_def fill_page)
  show "ref_count s' v = ref_count s v" if "page_aligned v" "v \<noteq> d"
    using that kalloc_ref_other [OF that(1) inv] kalloc_some(1) [OF inv]
    by (simp add: s'_def ref_count_def)
qed

text \<open>The same for page-aligned ranges, in terms of addresses.\<close>

definition map_segment :: "addr \<Rightarrow> u32 \<Rightarrow> u32 \<Rightarrow> u32 \<Rightarrow> (addr \<Rightarrow> u32) \<Rightarrow> addr \<Rightarrow> u32" where
  "map_segment va sz pa perm f x =
     (if va \<le> x \<and> unat x < unat va + unat sz then (pa + (PGROUNDDOWN x - va)) OR perm OR PTE_P
      else f x)"

lemma interval_iff:
  fixes x a :: addr
  assumes "unat a + n \<le> 2 ^ 32"
  shows "unat (x - a) < n \<longleftrightarrow> a \<le> x \<and> unat x < unat a + n"
proof (cases "a \<le> x")
  case True
  then have "unat (x - a) = unat x - unat a"
    by (rule unat_sub)
  then show ?thesis
    using True by (auto simp: word_le_nat_alt)
next
  case False
  then have "unat (x - a) = unat x + 2 ^ 32 - unat a"
    using unat_sub_if_size [of x a] by (simp add: word_le_nat_alt word_size)
  then show ?thesis
    using False assms by simp
qed

lemma page_count_aligned:
  assumes "page_aligned va" and "page_aligned sz" and "0 < unat sz"
  shows "4096 * page_count va sz = unat sz"
proof -
  obtain k m where k: "unat va = 4096 * k" and m: "unat sz = 4096 * m"
    using assms(1,2) by (auto simp: page_aligned_unat elim!: dvdE)
  with assms(3) obtain m' where m': "m = Suc m'"
    by (cases m) auto
  have "(4096 * k + 4096 * m - 1) div 4096 = k + m'"
    by (simp add: m')
  then show ?thesis
    by (simp add: page_count_def k m m')
qed

lemma mappages_segment:
  assumes g: "grows pgdir s0 xs0 s xs" and wf: "pgdir_wf s0 pgdir xs0" and len: "1024 < length xs0"
    and al: "page_aligned va" "page_aligned sz" and sz: "0 < unat sz"
    and fit: "unat va + unat sz \<le> 2 ^ 32"
    and free: "\<And>x. va \<le> x \<Longrightarrow> unat x < unat va + unat sz \<Longrightarrow> pte_of s pgdir x AND PTE_P = 0"
  shows "\<exists>s' xs'. mappages pgdir va sz pa perm s = Inr (0, s') \<and> grows pgdir s0 xs0 s' xs'
    \<and> pte_of s' pgdir = map_segment va sz pa perm (pte_of s pgdir)"
proof -
  have range: "unat (x - va) < 4096 * page_count va sz \<longleftrightarrow> va \<le> x \<and> unat x < unat va + unat sz" for x
    using interval_iff [OF fit] by (simp add: page_count_aligned al sz)
  have "map_outcome pgdir va (page_count va sz) pa perm s xs (mappages pgdir va sz pa perm s)"
    using mappages_spec [OF grows_wf [OF g] sz fit] free
    by (simp add: PGROUNDDOWN_aligned al range)
  then obtain r s' xs' k where *: "mappages pgdir va sz pa perm s = Inr (r, s')"
    "grows pgdir s xs s' xs'" "pte_of s' pgdir = map_range va k pa perm (pte_of s pgdir)"
    "r = 0 \<and> k = page_count va sz \<or> r = - 1 \<and> k < page_count va sz \<and> xs' = []"
    by (rule map_outcomeE)
  have g': "grows pgdir s0 xs0 s' xs'"
    using g *(2) by (rule grows_trans)
  then have "xs' \<noteq> []"
    using grows_enough [OF wf] len by auto
  then have "r = 0" "k = page_count va sz"
    using *(4) by auto
  then show ?thesis
    using * g' by (auto simp: fun_eq_iff map_range_def map_segment_def range)
qed

text \<open>The kernel part of every address space.\<close>

definition kernel_pte :: "addr \<Rightarrow> addr \<Rightarrow> u32" where
  "kernel_pte data va =
     (if va < KERNBASE then 0
      else if va < KERNLINK then V2P (PGROUNDDOWN va) OR PTE_W OR PTE_P
      else if va < data then V2P (PGROUNDDOWN va) OR PTE_P
      else if va < P2V PHYSTOP then V2P (PGROUNDDOWN va) OR PTE_W OR PTE_P
      else if va < DEVSPACE then 0
      else PGROUNDDOWN va OR PTE_W OR PTE_P)"

lemma vm_more_cong:
  "kmem_state.more s' = kmem_state.more s \<Longrightarrow>
   kdata s' = kdata s \<and> kpgdir s' = kpgdir s \<and> cr3 s' = cr3 s \<and> vm_state.more s' = vm_state.more s"
  by (cases s; cases s') simp

lemma V2P_diff: "V2P a - V2P b = a - b"
  by (simp add: V2P_def)

lemma kernel_pte_segments:
  assumes "KERNLINK < data" and "data < P2V PHYSTOP"
  shows "map_segment DEVSPACE (0 - DEVSPACE) DEVSPACE PTE_W
     (map_segment data (PHYSTOP - V2P data) (V2P data) PTE_W
       (map_segment KERNLINK (V2P data - V2P KERNLINK) (V2P KERNLINK) 0
         (map_segment KERNBASE (EXTMEM - 0) 0 PTE_W (\<lambda>_. 0)))) = kernel_pte data"
proof
  fix x
  have "unat (PHYSTOP - V2P data) = unat (P2V PHYSTOP - data)"
    "unat (V2P data - V2P KERNLINK) = unat (data - KERNLINK)"
    by (simp_all add: V2P_def P2V_def)
  then have d: "unat (PHYSTOP - V2P data) = 0x8E000000 - unat data"
    "unat (V2P data - V2P KERNLINK) = unat data - 0x80100000"
    using assms by (simp_all add: unat_sub P2V_def)
  have pa: "V2P data + (PGROUNDDOWN x - data) = V2P (PGROUNDDOWN x)"
    "V2P KERNLINK + (PGROUNDDOWN x - KERNLINK) = V2P (PGROUNDDOWN x)"
    "0 + (PGROUNDDOWN x - KERNBASE) = V2P (PGROUNDDOWN x)"
    by (simp_all add: V2P_def)
  show "map_segment DEVSPACE (0 - DEVSPACE) DEVSPACE PTE_W
     (map_segment data (PHYSTOP - V2P data) (V2P data) PTE_W
       (map_segment KERNLINK (V2P data - V2P KERNLINK) (V2P KERNLINK) 0
         (map_segment KERNBASE (EXTMEM - 0) 0 PTE_W (\<lambda>_. 0)))) x = kernel_pte data x"
    using assms unsigned_less [of x, where 'a = nat]
    unfolding map_segment_def kernel_pte_def d pa
    by (auto simp: word_less_nat_alt word_le_nat_alt P2V_def)
qed

lemma page_aligned_numeral [simp]: "page_aligned (numeral k) \<longleftrightarrow> (numeral k :: u32) mod PGSIZE = 0"
  by (simp add: page_aligned_def)

lemma page_aligned_diff: "page_aligned a \<Longrightarrow> page_aligned b \<Longrightarrow> b \<le> a \<Longrightarrow> page_aligned (a - b)"
  by (auto simp: page_aligned_unat unat_sub mod_eq_0_iff_dvd intro: dvd_diff_nat)

lemma setupkvm_spec:
  fixes s :: "'a vm_state_scheme"
  assumes inv: "free_inv s (d # xs)" and len: "1024 < length xs"
    and data: "page_aligned (kdata s)" "KERNLINK < kdata s" "kdata s < P2V PHYSTOP"
  shows "\<exists>s' xs'. setupkvm s = Inr (d, s')
    \<and> grows d ((snd (kalloc s))\<lparr>mem := fill d 4096 0 (mem s)\<rparr>) xs s' xs'
    \<and> pte_of s' d = kernel_pte (kdata s)"
proof -
  define s0 where "s0 = (snd (kalloc s))\<lparr>mem := fill d 4096 0 (mem s)\<rparr>"
  note fresh = fresh_pgdir [OF inv, folded s0_def]
  have kd: "kdata s0 = kdata s"
    using vm_more_cong [of s0 s] by (simp add: s0_def)
  let ?d = "kdata s"
  have szd: "V2P ?d - V2P KERNLINK = ?d - KERNLINK" "PHYSTOP - V2P ?d = P2V PHYSTOP - ?d"
    by (simp_all add: V2P_def P2V_def)
  have al: "page_aligned (V2P ?d - V2P KERNLINK)" "page_aligned (PHYSTOP - V2P ?d)"
    unfolding szd using data by (auto intro!: page_aligned_diff)
  have u: "unat (V2P ?d - V2P KERNLINK) = unat ?d - 0x80100000"
    "unat (PHYSTOP - V2P ?d) = 0x8E000000 - unat ?d"
    unfolding szd using data(2,3) by (simp_all add: unat_sub P2V_def)
  have lt: "0x80100000 < unat ?d" "unat ?d < 0x8E000000"
    using data(2,3) by (simp_all add: word_less_nat_alt P2V_def)
  note grow = mappages_segment [OF _ fresh(1) len]
  obtain s1 xs1 where 1: "mappages d KERNBASE (EXTMEM - 0) 0 PTE_W s0 = Inr (0, s1)"
    "grows d s0 xs s1 xs1" "pte_of s1 d = map_segment KERNBASE (EXTMEM - 0) 0 PTE_W (pte_of s0 d)"
    using grow [OF grows_refl [OF fresh(1)], of KERNBASE "EXTMEM - 0" 0 PTE_W]
    by (auto simp: fresh(2))
  obtain s2 xs2 where 2:
    "mappages d KERNLINK (V2P ?d - V2P KERNLINK) (V2P KERNLINK) 0 s1 = Inr (0, s2)"
    "grows d s0 xs s2 xs2"
    "pte_of s2 d = map_segment KERNLINK (V2P ?d - V2P KERNLINK) (V2P KERNLINK) 0 (pte_of s1 d)"
    using grow [OF 1(2) _ al(1), of KERNLINK "V2P KERNLINK" 0] lt unfolding u
    by (auto simp: 1(3) fresh(2) map_segment_def word_le_nat_alt)
  obtain s3 xs3 where 3: "mappages d ?d (PHYSTOP - V2P ?d) (V2P ?d) PTE_W s2 = Inr (0, s3)"
    "grows d s0 xs s3 xs3"
    "pte_of s3 d = map_segment ?d (PHYSTOP - V2P ?d) (V2P ?d) PTE_W (pte_of s2 d)"
    using grow [OF 2(2) data(1) al(2), of "V2P ?d" PTE_W] lt unfolding u
    by (auto simp: 1(3) 2(3) fresh(2) map_segment_def word_le_nat_alt u)
  have al4: "page_aligned (0 - DEVSPACE)"
    by (simp add: page_aligned_unat)
  obtain s4 xs4 where 4: "mappages d DEVSPACE (0 - DEVSPACE) DEVSPACE PTE_W s3 = Inr (0, s4)"
    "grows d s0 xs s4 xs4"
    "pte_of s4 d = map_segment DEVSPACE (0 - DEVSPACE) DEVSPACE PTE_W (pte_of s3 d)"
    using grow [OF 3(2) _ al4, of DEVSPACE DEVSPACE PTE_W] lt
    by (auto simp: 1(3) 2(3) 3(3) fresh(2) map_segment_def word_le_nat_alt u)
  have "d \<noteq> 0" "fst (kalloc s) = d"
    using inv kalloc_some(1) [OF inv] by (auto simp: free_inv_def)
  then have "setupkvm s = Inr (d, s4)"
    using 1(1) 2(1) 3(1) 4(1) kd
    by (simp add: setupkvm_def split_beta Let_def memset_fill kmap_def P2V_def flip: s0_def)
  moreover have "pte_of s4 d = kernel_pte ?d"
    using kernel_pte_segments [OF data(2,3)] by (simp add: 1(3) 2(3) 3(3) 4(3) fresh(2))
  ultimately show ?thesis
    using 4(2) unfolding s0_def by blast
qed

end
