(* ===== verification/Cow.thy ===== *)
theory Cow
  imports Vm
begin

text \<open>
  Copy-on-write: what \<^verbatim>\<open>copyuvm\<close> does to the parent's and the child's address space and to the
  reference counts, by an invariant of its loop over the pages of the parent.
\<close>

section \<open>States that differ outside the page tables\<close>

lemma pgdir_lcr3 [simp]:
  "mem (lcr3 v s) = mem s" "ref_counts (lcr3 v s) = ref_counts s" "kern_end (lcr3 v s) = kern_end s"
  "use_lock (lcr3 v s) = use_lock s" "freelist (lcr3 v s) = freelist s"
  by (simp_all add: lcr3_def)

lemma table_of_mem: "mem s' = mem s \<Longrightarrow> table_of s' = table_of s"
  by (intro ext) (simp add: table_of_def pde_of_def)

lemma pte_of_mem: "mem s' = mem s \<Longrightarrow> pte_of s' = pte_of s"
  by (intro ext) (simp add: pte_of_def table_of_mem [of s' s] split: option.split)

lemma owned_mem: "mem s' = mem s \<Longrightarrow> owned s' = owned s"
  by (intro ext) (simp add: owned_def table_of_mem [of s' s])

lemma pgdir_wf_mem:
  assumes "mem s' = mem s" and "freelist s' = freelist s" and "kern_end s' = kern_end s"
  shows "pgdir_wf s' = pgdir_wf s"
proof -
  have "kpage s' = kpage s"
    by (simp add: fun_eq_iff kpage_def assms(3))
  then show ?thesis
    by (intro ext) (simp add: pgdir_wf_def free_inv_def assms distinct_tables_def
        table_of_mem [OF assms(1)] owned_mem [OF assms(1)])
qed

lemmas lcr3_vm [simp] = table_of_mem [OF pgdir_lcr3(1)] pte_of_mem [OF pgdir_lcr3(1)]
  owned_mem [OF pgdir_lcr3(1)] pgdir_wf_mem [OF pgdir_lcr3(1,5,3)]

lemma ref_count_lcr3 [simp]: "ref_count (lcr3 v s) = ref_count s"
  by (simp add: fun_eq_iff ref_count_def)

section \<open>Entries\<close>

text \<open>The entry of the child for a page of the parent.\<close>

definition child_pte :: "u32 \<Rightarrow> u32" where
  "child_pte pte =
     PTE_ADDR pte OR
     (if PTE_FLAGS pte AND PTE_W \<noteq> 0 then cow_flags (PTE_FLAGS pte) else PTE_FLAGS pte) OR PTE_P"

lemma cow_flags_idem [simp]: "cow_flags (cow_flags f) = cow_flags f"
  by (rule bit_word_eqI) (auto simp: cow_flags_def bit_simps)

lemma bit_flags: "bit PTE_P n \<longleftrightarrow> n = 0" "bit PTE_W n \<longleftrightarrow> n = 1" "bit PTE_U n \<longleftrightarrow> n = 2"
  "bit PTE_COW n \<longleftrightarrow> n = 9"
proof -
  have "push_bit 1 1 = PTE_W" "push_bit 2 1 = PTE_U" "push_bit 9 1 = PTE_COW"
    by simp_all
  moreover have "bit (push_bit k (1 :: u32)) n \<longleftrightarrow> n = k" if "k < 32" for k
    using that by (auto simp: bit_exp_iff)
  from this [of 1] this [of 2] this [of 9] calculation
  show "bit PTE_W n \<longleftrightarrow> n = 1" "bit PTE_U n \<longleftrightarrow> n = 2" "bit PTE_COW n \<longleftrightarrow> n = 9"
    by simp_all
  show "bit PTE_P n \<longleftrightarrow> n = 0"
    by (simp add: bit_1_iff)
qed

lemma PTE_ADDR_cow_flags [simp]: "PTE_ADDR (cow_flags pte) = PTE_ADDR pte"
  by (rule bit_word_eqI)
    (auto simp: PTE_ADDR_def cow_flags_def bit_simps mask12_u32 bit_flags simp del: bit_numeral_word_iff)

lemma cow_flags_no_write [simp]: "cow_flags f AND PTE_W = 0"
  by (rule bit_word_eqI) (auto simp: cow_flags_def bit_simps bit_flags simp del: bit_numeral_word_iff)

section \<open>One page\<close>

text \<open>
  The invariant of the loop of \<^verbatim>\<open>copyuvm\<close> after \<open>k\<close> pages, from a state \<open>s0\<close> with the parent's
  directory \<open>p\<close>, the child's directory \<open>d\<close> and the free list \<open>xs0\<close>.
\<close>

definition shared_times :: "'a vm_state_scheme \<Rightarrow> addr \<Rightarrow> addr \<Rightarrow> nat \<Rightarrow> nat" where
  "shared_times s p v k =
     length (filter (\<lambda>i. PTE_ADDR (pte_of s p (of_nat i * PGSIZE)) = V2P v) [0..<k])"

definition copy_inv ::
  "addr \<Rightarrow> addr \<Rightarrow> 'a vm_state_scheme \<Rightarrow> addr list \<Rightarrow> nat \<Rightarrow> 'a vm_state_scheme \<Rightarrow> addr list \<Rightarrow> bool" where
  "copy_inv p d s0 xs0 k s xs \<longleftrightarrow>
     pgdir_wf s p xs \<and> pgdir_wf s d xs \<and> owned s p \<inter> owned s d = {}
     \<and> (\<exists>ys. xs0 = ys @ xs \<and> owned s d = owned s0 d \<union> set ys) \<and> owned s p = owned s0 p
     \<and> pte_of s p = (\<lambda>va. if unat va < 4096 * k then cow_flags (pte_of s0 p va) else pte_of s0 p va)
     \<and> pte_of s d = (\<lambda>va. if unat va < 4096 * k then child_pte (pte_of s0 p va) else pte_of s0 d va)
     \<and> (\<forall>v. page_aligned v \<longrightarrow> v \<noteq> 0 \<longrightarrow> v \<notin> set xs0 \<longrightarrow>
          ref_count s v = ref_count s0 v + of_nat (shared_times s0 p v k))
     \<and> (\<forall>x. PGROUNDDOWN x \<notin> owned s0 p \<union> owned s0 d \<union> set xs0 \<longrightarrow> mem s x = mem s0 x)
     \<and> kern_end s = kern_end s0 \<and> use_lock s = use_lock s0"

lemma pte_of_page: "PGROUNDDOWN va = PGROUNDDOWN a \<Longrightarrow> pte_of s pgdir va = pte_of s pgdir a"
  using table_of_PDX [of va a s pgdir] by (simp add: same_page_iff pte_of_def split: option.split)

lemma mappages_one:
  assumes "pgdir_wf s pgdir xs" and "page_aligned a" and "pte_of s pgdir a AND PTE_P = 0"
  shows "(\<exists>s' xs'. mappages pgdir a PGSIZE pa perm s = Inr (0, s') \<and> grows pgdir s xs s' xs'
      \<and> pte_of s' pgdir =
        (\<lambda>va. if PGROUNDDOWN va = a then pa OR perm OR PTE_P else pte_of s pgdir va))
    \<or> (\<exists>s'. mappages pgdir a PGSIZE pa perm s = Inr (- 1, s') \<and> grows pgdir s xs s' []
      \<and> pte_of s' pgdir = pte_of s pgdir)"
proof -
  have end_a: "PGROUNDDOWN (a + PGSIZE - 1) = a"
  proof -
    have "a + PGSIZE - 1 = a + 4095" "unat (4095 :: u32) < 4096"
      by simp_all
    then show ?thesis
      using PGROUNDDOWN_add [OF assms(2), of 4095] by (simp only:)
  qed
  have "unat a + 4096 * 0 < 2 ^ 32"
    using unsigned_less [of a, where 'a = nat] by simp
  moreover have "pte_of s pgdir va AND PTE_P = 0" if "unat (va - a) < 4096 * Suc 0" for va
  proof -
    have "PGROUNDDOWN va = PGROUNDDOWN a"
      using that assms(2) by (simp add: PGROUNDDOWN_eq_iff PGROUNDDOWN_aligned)
    then show ?thesis
      using assms(3) pte_of_page by metis
  qed
  ultimately have "map_outcome pgdir a (Suc 0) pa perm s xs (mappages pgdir a PGSIZE pa perm s)"
    unfolding mappages_def end_a PGROUNDDOWN_aligned [OF assms(2)]
    using mappages_loop_spec [OF assms(1,2), of 0 pa perm] by simp
  then show ?thesis
    by (elim map_outcomeE) (auto simp: map_range_1 PGROUNDDOWN_aligned assms(2))
qed

lemma page_number:
  assumes "4096 * k < 2 ^ 32"
  shows "unat (of_nat k * PGSIZE :: addr) = 4096 * k" and "page_aligned (of_nat k * PGSIZE :: addr)"
    and "PGROUNDDOWN va = of_nat k * PGSIZE \<longleftrightarrow> unat va < 4096 * Suc k \<and> \<not> unat va < 4096 * k"
proof -
  have "(of_nat k * PGSIZE :: addr) = of_nat (4096 * k)"
    by simp
  then show u: "unat (of_nat k * PGSIZE :: addr) = 4096 * k"
    using assms by (simp only: unat_of_nat) simp
  then show "page_aligned (of_nat k * PGSIZE :: addr)"
    by (simp add: page_aligned_unat)
  have "PGROUNDDOWN va = of_nat k * PGSIZE \<longleftrightarrow> unat va div 4096 * 4096 = 4096 * k"
    using u by (metis unat_PGROUNDDOWN word_unat_eqI)
  also have "\<dots> \<longleftrightarrow> unat va < 4096 * Suc k \<and> \<not> unat va < 4096 * k"
    using div_mult_mod_eq [of "unat va" 4096] mod_less_divisor [of 4096 "unat va"] by auto
  finally show "PGROUNDDOWN va = of_nat k * PGSIZE \<longleftrightarrow> unat va < 4096 * Suc k \<and> \<not> unat va < 4096 * k" .
qed

lemma shared_times_Suc:
  "shared_times s p v (Suc k) =
    shared_times s p v k + (if PTE_ADDR (pte_of s p (of_nat k * PGSIZE)) = V2P v then 1 else 0)"
  by (simp add: shared_times_def)

lemma ref_count_incref:
  assumes "incref pa s = Inr s'" and "page_aligned pa" and "page_aligned v"
  shows "ref_count s' v = ref_count s v + (if pa = V2P v then 1 else 0)"
proof -
  have "pa div PGSIZE = V2P v div PGSIZE \<longleftrightarrow> pa = V2P v"
    using kpage_div_inj [of "P2V pa" v] assms(2,3) by auto
  then show ?thesis
    using assms(1) by (auto simp: incref_def ref_count_def split: if_splits)
qed

lemma incref_frame:
  assumes "incref pa s = Inr s'"
  shows "mem s' = mem s" "freelist s' = freelist s" "kern_end s' = kern_end s" "use_lock s' = use_lock s"
  using assms by (auto simp: incref_def split: if_splits)

text \<open>The two stores of one pass leave the same entry as one.\<close>

lemma store32_twice: "store32 a v (store32 a w m) = store32 a v m"
  by (simp add: store32_def fun_eq_iff)

lemma copyuvm_body_eq:
  assumes t: "table_of s p i = Some t" and nz: "t + 4 * PTX i \<noteq> 0" and pres: "pte_of s p i AND PTE_P \<noteq> 0"
  defines "s1 \<equiv> s\<lparr>mem := store32 (t + 4 * PTX i) (cow_flags (pte_of s p i)) (mem s)\<rparr>"
    and "pte \<equiv> pte_of s p i"
  shows "copyuvm_body p d i s =
    andthen (mappages d i PGSIZE (PTE_ADDR pte)
        (if PTE_FLAGS pte AND PTE_W \<noteq> 0 then cow_flags (PTE_FLAGS pte) else PTE_FLAGS pte)
        (lcr3 (V2P p) s1)) (\<lambda>(r, s).
      if r <s 0 then Inr (Leave 0 (lcr3 (V2P p) s))
      else andthen (incref (PTE_ADDR pte) s) (\<lambda>s. Inr (Next s)))"
proof -
  have l: "load32 (mem s) (t + 4 * PTX i) = pte"
    using t by (simp add: pte_def pte_of_def)
  have lcr: "(lcr3 v s)\<lparr>mem := m\<rparr> = lcr3 v (s\<lparr>mem := m\<rparr>)" "lcr3 v (lcr3 v s) = lcr3 v s" for v m s
    by (simp_all add: lcr3_def)
  show ?thesis
    using pres nz unfolding copyuvm_body_def walkpgdir_present [OF t] s1_def pte_def [symmetric]
    by (simp add: Let_def l lcr store32_twice)
qed

lemma copy_invD:
  assumes "copy_inv p d s0 xs0 k s xs"
  shows "pgdir_wf s p xs" "pgdir_wf s d xs" "owned s p \<inter> owned s d = {}" "owned s p = owned s0 p"
    "\<exists>ys. xs0 = ys @ xs \<and> owned s d = owned s0 d \<union> set ys"
    "pte_of s p = (\<lambda>va. if unat va < 4096 * k then cow_flags (pte_of s0 p va) else pte_of s0 p va)"
    "pte_of s d = (\<lambda>va. if unat va < 4096 * k then child_pte (pte_of s0 p va) else pte_of s0 d va)"
    "\<And>v. page_aligned v \<Longrightarrow> v \<noteq> 0 \<Longrightarrow> v \<notin> set xs0 \<Longrightarrow>
      ref_count s v = ref_count s0 v + of_nat (shared_times s0 p v k)"
    "\<And>x. PGROUNDDOWN x \<notin> owned s0 p \<union> owned s0 d \<union> set xs0 \<Longrightarrow> mem s x = mem s0 x"
    "kern_end s = kern_end s0" "use_lock s = use_lock s0"
  using assms unfolding copy_inv_def by blast+

text \<open>The parent's half of a pass: the entry becomes read-only and copy-on-write.\<close>

lemma copy_parent:
  assumes inv: "copy_inv p d s0 xs0 k s xs" and k: "4096 * k < 2 ^ 32"
    and t: "table_of s p (of_nat k * PGSIZE) = Some t"
  defines "i \<equiv> of_nat k * PGSIZE"
  defines "s1 \<equiv> lcr3 (V2P p) (s\<lparr>mem := store32 (t + 4 * PTX i) (cow_flags (pte_of s0 p i)) (mem s)\<rparr>)"
  shows "pgdir_wf s1 p xs" "pgdir_wf s1 d xs" "owned s1 p = owned s p" "owned s1 d = owned s d"
    "pte_of s1 d = pte_of s d"
    "pte_of s1 p = (\<lambda>va. if unat va < 4096 * Suc k then cow_flags (pte_of s0 p va) else pte_of s0 p va)"
    "\<And>x. PGROUNDDOWN x \<notin> owned s p \<Longrightarrow> mem s1 x = mem s x"
    "kern_end s1 = kern_end s" "use_lock s1 = use_lock s" "ref_count s1 = ref_count s"
proof -
  define s' where "s' = s\<lparr>mem := store32 (t + 4 * PTX i) (cow_flags (pte_of s0 p i)) (mem s)\<rparr>"
  have s1: "s1 = lcr3 (V2P p) s'"
    by (simp add: s1_def s'_def)
  note I = copy_invD [OF inv]
  note st = store_pte [OF I(1) t, folded i_def, of "cow_flags (pte_of s0 p i)", folded s'_def]
  have dis: "owned s d \<inter> owned s p = {}"
    using I(3) by blast
  note iso = grows_isolates [OF st(1) I(2) dis]
  show "pgdir_wf s1 p xs" "pgdir_wf s1 d xs" "owned s1 d = owned s d" "pte_of s1 d = pte_of s d"
    using grows_wf [OF st(1)] iso by (simp_all add: s1)
  show own: "owned s1 p = owned s p"
    using st(3) by (simp add: s1 owned_def)
  show "kern_end s1 = kern_end s" "use_lock s1 = use_lock s" "ref_count s1 = ref_count s"
    by (simp_all add: s1 s'_def ref_count_def fun_eq_iff)
  show "mem s1 x = mem s x" if "PGROUNDDOWN x \<notin> owned s p" for x
    using that st(1) by (auto simp: s1 grows_def)
  have i: "PGROUNDDOWN i = i" "PGROUNDDOWN va = i \<longleftrightarrow> unat va < 4096 * Suc k \<and> \<not> unat va < 4096 * k" for va
    using page_number [OF k] by (simp_all add: i_def PGROUNDDOWN_aligned)
  have "pte_of s1 p va = (if unat va < 4096 * Suc k then cow_flags (pte_of s0 p va) else pte_of s0 p va)"
    for va
  proof (cases "PGROUNDDOWN va = i")
    case True
    then have "pte_of s0 p va = pte_of s0 p i"
      using i(1) by (intro pte_of_page) simp
    then show ?thesis
      using True i(2) [of va] by (simp add: s1 st(2) i(1))
  next
    case False
    then show ?thesis
      using i(2) [of va] by (auto simp: s1 st(2) i(1) I(6))
  qed
  then show "pte_of s1 p =
      (\<lambda>va. if unat va < 4096 * Suc k then cow_flags (pte_of s0 p va) else pte_of s0 p va)"
    by (rule ext)
qed

lemma child_pte_eq:
  "PTE_ADDR pte OR (if PTE_FLAGS pte AND PTE_W \<noteq> 0 then cow_flags (PTE_FLAGS pte) else PTE_FLAGS pte)
    OR PTE_P = child_pte pte"
  by (simp add: child_pte_def)

lemma copy_step:
  assumes inv: "copy_inv p d s0 xs0 k s xs" and wf0: "pgdir_wf s0 d xs0" and len: "1024 < length xs0"
    and k: "4096 * k < 2 ^ 32"
  defines "i \<equiv> of_nat k * PGSIZE"
  assumes pres: "pte_of s0 p i AND PTE_P \<noteq> 0" and pa: "PTE_ADDR (pte_of s0 p i) < PHYSTOP"
    and free: "pte_of s0 d i AND PTE_P = 0"
  shows "\<exists>s' xs'. copyuvm_body p d i s = Inr (Next s') \<and> copy_inv p d s0 xs0 (Suc k) s' xs'"
proof -
  note I = copy_invD [OF inv] and num = page_number [OF k, folded i_def]
  let ?pte = "pte_of s0 p i"
  have pte: "pte_of s p i = ?pte" "pte_of s d i AND PTE_P = 0"
    using free by (simp_all add: I(6,7) num)
  then obtain t where t: "table_of s p i = Some t"
    using pres by (cases "table_of s p i") (auto simp: pte_of_def)
  define s1 where "s1 = lcr3 (V2P p) (s\<lparr>mem := store32 (t + 4 * PTX i) (cow_flags ?pte) (mem s)\<rparr>)"
  note P = copy_parent [OF inv k t [unfolded i_def], folded i_def, folded s1_def]
  have body: "copyuvm_body p d i s =
      andthen (mappages d i PGSIZE (PTE_ADDR ?pte)
        (if PTE_FLAGS ?pte AND PTE_W \<noteq> 0 then cow_flags (PTE_FLAGS ?pte) else PTE_FLAGS ?pte) s1) (\<lambda>(r, s).
      if r <s 0 then Inr (Leave 0 (lcr3 (V2P p) s))
      else andthen (incref (PTE_ADDR ?pte) s) (\<lambda>s. Inr (Next s)))"
    by (rule copyuvm_body_eq [OF t table_slot_nonzero [OF I(1) t], unfolded pte(1), OF pres, folded s1_def])
  obtain ys where ys: "xs0 = ys @ xs" "owned s d = owned s0 d \<union> set ys"
    using I(5) by blast
  have dist: "distinct xs0" "d \<notin> set xs0"
    using wf0 pgdir_wf_not_free [OF wf0, of d] by (simp_all add: pgdir_wf_def free_inv_def)
  have "\<not> grows d s1 xs s2 []" for s2
  proof
    assume "grows d s1 xs s2 []"
    then have "set xs0 \<subseteq> owned s2 d"
      using ys P(4) by (auto simp: grows_def)
    then show False
      using tables_bound [OF dist(1) _ dist(2)] len by fastforce
  qed
  then obtain s2 xs2 where m: "mappages d i PGSIZE (PTE_ADDR ?pte)
        (if PTE_FLAGS ?pte AND PTE_W \<noteq> 0 then cow_flags (PTE_FLAGS ?pte) else PTE_FLAGS ?pte) s1 = Inr (0, s2)"
    and g: "grows d s1 xs s2 xs2"
    and d2: "pte_of s2 d = (\<lambda>va. if PGROUNDDOWN va = i then child_pte ?pte else pte_of s1 d va)"
    using mappages_one [OF P(2) num(2)] pte(2) unfolding child_pte_eq [symmetric] P(5) by blast
  have dis: "owned s1 p \<inter> owned s1 d = {}"
    using I(3) P(3,4) by simp
  note iso = grows_isolates [OF g P(1) dis]
  obtain zs where zs: "xs = zs @ xs2" "owned s2 d = owned s1 d \<union> set zs"
    and mem2: "\<And>x. PGROUNDDOWN x \<notin> owned s1 d \<union> set zs \<Longrightarrow> mem s2 x = mem s1 x"
    and ref2: "\<And>v. page_aligned v \<Longrightarrow> v \<noteq> 0 \<Longrightarrow> v \<notin> set zs \<Longrightarrow> ref_count s2 v = ref_count s1 v"
    and ke: "kern_end s2 = kern_end s1" "use_lock s2 = use_lock s1"
    using g by (auto simp: grows_def)
  obtain s3 where s3: "incref (PTE_ADDR ?pte) s2 = Inr s3"
    using pa by (simp add: incref_def)
  note fr = incref_frame [OF s3]
  note same = pgdir_wf_mem [OF fr(1-3)] pte_of_mem [OF fr(1)] owned_mem [OF fr(1)]
  have "copyuvm_body p d i s = Inr (Next s3)"
    using body m s3 by simp
  moreover have "copy_inv p d s0 xs0 (Suc k) s3 xs2"
    unfolding copy_inv_def same
  proof (intro conjI allI impI)
    show "pgdir_wf s2 p xs2" "owned s2 p \<inter> owned s2 d = {}" "owned s2 p = owned s0 p"
      using iso P(3) I(4) by simp_all
    show "pgdir_wf s2 d xs2"
      using g by (rule grows_wf)
    show "\<exists>ys. xs0 = ys @ xs2 \<and> owned s2 d = owned s0 d \<union> set ys"
      using ys zs P(4) by (intro exI [of _ "ys @ zs"]) auto
    show "pte_of s2 p = (\<lambda>va. if unat va < 4096 * Suc k then cow_flags (pte_of s0 p va) else pte_of s0 p va)"
      using iso(2) P(6) by simp
    have "pte_of s2 d va = (if unat va < 4096 * Suc k then child_pte (pte_of s0 p va) else pte_of s0 d va)"
      for va
    proof (cases "PGROUNDDOWN va = i")
      case True
      then have "pte_of s0 p va = ?pte"
        using num(2) by (intro pte_of_page) (simp add: PGROUNDDOWN_aligned)
      then show ?thesis
        using True num(3) [of va] by (simp add: d2)
    next
      case False
      then show ?thesis
        using num(3) [of va] by (auto simp: d2 P(5) I(7))
    qed
    then show "pte_of s2 d =
        (\<lambda>va. if unat va < 4096 * Suc k then child_pte (pte_of s0 p va) else pte_of s0 d va)"
      by (rule ext)
    show "ref_count s3 v = ref_count s0 v + of_nat (shared_times s0 p v (Suc k))"
      if "page_aligned v" "v \<noteq> 0" "v \<notin> set xs0" for v
      using that ref_count_incref [OF s3 page_aligned_PTE_ADDR that(1)] ref2 [of v] I(8) [OF that]
        ys(1) zs(1) P(10) by (simp add: shared_times_Suc i_def)
    show "mem s3 x = mem s0 x" if "PGROUNDDOWN x \<notin> owned s0 p \<union> owned s0 d \<union> set xs0" for x
      using that mem2 [of x] P(7) [of x] I(9) [OF that] ys zs P(4) I(4) fr(1) by simp
  qed (use fr ke P(8,9) I(10,11) in simp_all)
  ultimately show ?thesis
    by blast
qed

section \<open>The whole address space\<close>

lemma copy_inv_start:
  assumes "pgdir_wf s p xs" and "pgdir_wf s d xs" and "owned s p \<inter> owned s d = {}"
  shows "copy_inv p d s xs 0 s xs"
  using assms by (simp add: copy_inv_def shared_times_def)

definition user_pages :: "u32 \<Rightarrow> nat" where
  "user_pages sz = (unat sz + 4095) div 4096"

lemma user_pages_iff: "4096 * k < unat sz \<longleftrightarrow> k < user_pages sz"
  unfolding user_pages_def by linarith

lemma below_user_pages: "unat va < 4096 * user_pages sz \<longleftrightarrow> PGROUNDDOWN va < sz"
proof -
  have "PGROUNDDOWN va < sz \<longleftrightarrow> 4096 * (unat va div 4096) < unat sz"
    by (simp add: word_less_nat_alt unat_PGROUNDDOWN mult.commute)
  also have "\<dots> \<longleftrightarrow> unat va div 4096 < user_pages sz"
    by (rule user_pages_iff)
  also have "\<dots> \<longleftrightarrow> unat va < 4096 * user_pages sz"
    by (simp add: less_mult_imp_div_less div_less_iff_less_mult mult.commute)
  finally show ?thesis
    by simp
qed

lemma copy_loop:
  assumes wf0: "pgdir_wf s0 d xs0" and len: "1024 < length xs0" and sz: "sz \<le> KERNBASE"
    and user: "\<And>va. va < sz \<Longrightarrow> pte_of s0 p va AND PTE_P \<noteq> 0 \<and> PTE_ADDR (pte_of s0 p va) < PHYSTOP"
    and free: "\<And>va. va < sz \<Longrightarrow> pte_of s0 d va AND PTE_P = 0"
    and inv: "copy_inv p d s0 xs0 k s xs" and k: "k \<le> user_pages sz"
  shows "\<exists>s' xs'. page_loop (copyuvm_body p d) (of_nat k * PGSIZE) sz s = Inr (Next s')
    \<and> copy_inv p d s0 xs0 (user_pages sz) s' xs'"
  using inv k
proof (induction "user_pages sz - k" arbitrary: k s xs)
  case 0
  then have eq: "k = user_pages sz"
    by simp
  have "4096 * k \<le> unat sz + 4095"
    by (simp add: eq user_pages_def)
  also have "\<dots> < 2 ^ 32"
    using sz by (simp add: word_le_nat_alt)
  finally have "unat (of_nat k * PGSIZE :: addr) = 4096 * k"
    by (rule page_number)
  then have "\<not> of_nat k * PGSIZE < sz"
    using user_pages_iff [of k sz] eq by (simp add: word_less_nat_alt)
  then show ?case
    using 0(2) eq by auto
next
  case (Suc n)
  have lt: "4096 * k < unat sz"
    using Suc(2) by (simp add: user_pages_iff)
  moreover have szle: "unat sz \<le> 2 ^ 31"
    using sz by (simp add: word_le_nat_alt)
  ultimately have k32: "4096 * k < 2 ^ 32"
    by simp
  have i: "of_nat k * PGSIZE < sz"
    using lt page_number(1) [OF k32] by (simp add: word_less_nat_alt)
  obtain s1 xs1 where 1: "copyuvm_body p d (of_nat k * PGSIZE) s = Inr (Next s1)"
    "copy_inv p d s0 xs0 (Suc k) s1 xs1"
    using copy_step [OF Suc.prems(1) wf0 len k32] user [OF i] free [OF i] by blast
  have nowrap: "unat (of_nat k * PGSIZE + PGSIZE :: addr) = 4096 * k + 4096"
    using page_number(1) [OF k32] lt szle by (simp add: unat_word_ariths)
  then have "\<not> of_nat k * PGSIZE + PGSIZE < (of_nat k * PGSIZE :: addr)"
    using page_number(1) [OF k32] by (simp add: word_less_nat_alt)
  moreover have "of_nat k * PGSIZE + PGSIZE = (of_nat (Suc k) * PGSIZE :: addr)"
    by (simp add: distrib_right)
  moreover have "\<exists>s' xs'. page_loop (copyuvm_body p d) (of_nat (Suc k) * PGSIZE) sz s1 = Inr (Next s')
    \<and> copy_inv p d s0 xs0 (user_pages sz) s' xs'"
    using Suc(2) by (intro Suc(1) [OF _ 1(2)]) simp_all
  ultimately show ?case
    using i 1(1) by (subst page_loop.simps) (simp del: of_nat_Suc)
qed

lemma copyuvm_spec:
  fixes s :: "'a vm_state_scheme"
  assumes wf: "pgdir_wf s p (d # xs)" and len: "2048 < length xs"
    and data: "page_aligned (kdata s)" "KERNLINK < kdata s" "kdata s < P2V PHYSTOP"
    and sz: "sz \<le> KERNBASE"
    and user: "\<And>va. va < sz \<Longrightarrow> pte_of s p va AND PTE_P \<noteq> 0 \<and> PTE_ADDR (pte_of s p va) < PHYSTOP"
  shows "\<exists>s' xs'. copyuvm p sz s = Inr (d, s') \<and> pgdir_wf s' p xs' \<and> pgdir_wf s' d xs'
    \<and> owned s' p \<inter> owned s' d = {}
    \<and> (\<forall>va. pte_of s' p va = (if PGROUNDDOWN va < sz then cow_flags (pte_of s p va) else pte_of s p va))
    \<and> (\<forall>va. pte_of s' d va = (if PGROUNDDOWN va < sz then child_pte (pte_of s p va)
          else kernel_pte (kdata s) va))
    \<and> (\<forall>v. page_aligned v \<longrightarrow> v \<noteq> 0 \<longrightarrow> v \<notin> set (d # xs) \<longrightarrow>
          ref_count s' v = ref_count s v + of_nat (shared_times s p v (user_pages sz)))
    \<and> (\<forall>x. PGROUNDDOWN x \<notin> owned s p \<union> set (d # xs) \<longrightarrow> mem s' x = mem s x)"
proof -
  note inv = pgdir_wf_free [OF wf]
  have dp: "d \<notin> owned s p"
    using pgdir_wf_not_free [OF wf] by auto
  define s0 where "s0 = (snd (kalloc s))\<lparr>mem := fill d 4096 0 (mem s)\<rparr>"
  note fresh = fresh_pgdir [OF inv, folded s0_def]
  have same0: "mem s0 x = mem s x" if "PGROUNDDOWN x \<in> owned s p" for x
    using that dp by (intro fresh(4)) auto
  have own0: "owned s0 p = owned s p" and pte0: "pte_of s0 p = pte_of s p"
    by (rule pgdir_cong [OF wf same0]; assumption)+
  have wf0: "pgdir_wf s0 p xs"
  proof (rule pgdir_wf_cong [OF wf same0])
    show "free_inv s0 xs"
      using fresh(1) by (rule pgdir_wf_free)
    show "set xs \<inter> owned s p = {}"
      using wf by (auto simp: pgdir_wf_def)
    show "kern_end s0 = kern_end s"
      by (simp add: s0_def)
  qed
  obtain s1 xs1 where 1: "setupkvm s = Inr (d, s1)" "grows d s0 xs s1 xs1"
    "pte_of s1 d = kernel_pte (kdata s)"
    using setupkvm_spec [OF inv _ data, folded s0_def] len by fastforce
  have dis0: "owned s0 p \<inter> owned s0 d = {}"
    using dp by (simp add: own0 fresh(3))
  note iso = grows_isolates [OF 1(2) wf0 dis0]
  obtain ys where ys: "xs = ys @ xs1" "owned s1 d = insert d (set ys)"
    "\<And>x. PGROUNDDOWN x \<notin> insert d (set ys) \<Longrightarrow> mem s1 x = mem s0 x"
    "\<And>v. page_aligned v \<Longrightarrow> v \<noteq> 0 \<Longrightarrow> v \<notin> set ys \<Longrightarrow> ref_count s1 v = ref_count s0 v"
    using 1(2) by (auto simp: grows_def fresh(3))
  have "distinct ys" "d \<notin> set ys"
    using inv ys(1) by (auto simp: free_inv_def)
  then have "length ys \<le> 1024"
    using ys(2) by (intro tables_bound [where s = s1 and pgdir = d]) auto
  then have len1: "1024 < length xs1"
    using len ys(1) by simp
  have low: "pte_of s1 d va AND PTE_P = 0" if "va < sz" for va
    using less_le_trans [OF that sz] by (simp add: 1(3) kernel_pte_def)
  have "pte_of s1 p va AND PTE_P \<noteq> 0 \<and> PTE_ADDR (pte_of s1 p va) < PHYSTOP" if "va < sz" for va
    using user [OF that] by (simp add: iso(2) pte0)
  with copy_loop [OF grows_wf [OF 1(2)] len1 sz _ low copy_inv_start [OF iso(1) grows_wf [OF 1(2)] iso(4)]]
  obtain s2 xs2 where 2: "page_loop (copyuvm_body p d) 0 sz s1 = Inr (Next s2)"
    "copy_inv p d s1 xs1 (user_pages sz) s2 xs2"
    by auto
  note I = copy_invD [OF 2(2)]
  have "d \<noteq> 0"
    using inv by (auto simp: free_inv_def)
  then have "copyuvm p sz s = Inr (d, lcr3 (V2P p) s2)"
    using 1(1) 2(1) by (simp add: copyuvm_def)
  moreover have "ref_count s2 v = ref_count s v + of_nat (shared_times s p v (user_pages sz))"
    if "page_aligned v" "v \<noteq> 0" "v \<notin> set (d # xs)" for v
  proof -
    have "shared_times s1 p v (user_pages sz) = shared_times s p v (user_pages sz)"
      by (simp add: shared_times_def iso(2) pte0)
    then show ?thesis
      using that I(8) [of v] ys(4) [of v] fresh(5) [of v] by (simp add: ys(1))
  qed
  moreover have "mem s2 x = mem s x" if "PGROUNDDOWN x \<notin> owned s p \<union> set (d # xs)" for x
    using that I(9) [of x] ys(3) [of x] fresh(4) [of x] by (simp add: ys(1,2) iso(3) own0)
  ultimately show ?thesis
    using I(1-3) unfolding I(6,7) iso(2) pte0 1(3) below_user_pages
    by (intro exI [of _ "lcr3 (V2P p) s2"] exI [of _ xs2]) (simp add: I(6,7) iso(2) pte0 1(3) below_user_pages)
qed

section \<open>A concrete address space\<close>

text \<open>Memory given by its aligned words.\<close>

definition words :: "(addr \<Rightarrow> u32) \<Rightarrow> memory" where
  "words w a = ucast (drop_bit (8 * (unat a mod 4)) (w (of_nat (4 * (unat a div 4)))))"

lemma load32_words:
  assumes "a mod 4 = 0"
  shows "load32 (words w) a = w a"
proof -
  obtain q where q: "unat a = 4 * q"
    using assms by (auto simp: unat_mod4 elim!: dvdE)
  then have a: "4 * of_nat q = a"
    by (metis of_nat_mult of_nat_numeral of_nat_unat ucast_id)
  have "q < 2 ^ 30"
    using q unsigned_less [of a, where 'a = nat] by simp
  then have u: "unat (a + 1) = 4 * q + 1" "unat (a + 2) = 4 * q + 2" "unat (a + 3) = 4 * q + 3"
    using q by (simp_all add: unat_word_ariths)
  have dm: "(4 * q + j) div 4 = q" "(4 * q + j) mod 4 = j" if "j < 4" for j
    using that by simp_all
  have "words w a = ucast (w a)" "words w (a + 1) = ucast (drop_bit 8 (w a))"
    "words w (a + 2) = ucast (drop_bit 16 (w a))" "words w (a + 3) = ucast (drop_bit 24 (w a))"
    using dm [of 0] dm [of 1] dm [of 2] dm [of 3] unfolding words_def u q
    by (simp_all add: a)
  then show ?thesis
    using load32_store32 [of a "w a" "words w"] by (simp add: load32_def store32_def)
qed


text \<open>
  A process with two pages, one writable and one read-only, and 3000 free pages behind them.
\<close>

definition cow_words :: "addr \<Rightarrow> u32" where
  "cow_words a =
     (if a = 0x80400000 then 0x00401007
      else if a = 0x80401000 then 0x00402007
      else if a = 0x80401004 then 0x00403005
      else if 0x80404000 \<le> a \<and> a < 0x80FBB000 then a + PGSIZE
      else 0)"

definition cow_state :: vm_state where
  "cow_state = \<lparr>mem = words cow_words, use_lock = True, freelist = 0x80404000,
     ref_counts = (\<lambda>_. 1), kern_end = 0x80115000, cr3 = 0, kpgdir = 0, kdata = 0x80108000\<rparr>"

lemma distinct_pages: "unat p + 4096 * n < 2 ^ 32 \<Longrightarrow> distinct (pages p n)"
proof (induction n arbitrary: p)
  case (Suc n)
  have p: "unat (p + PGSIZE) = unat p + 4096"
    using Suc.prems by (simp add: unat_word_ariths)
  then have "p \<notin> set (pages (p + PGSIZE) n)"
    using pages_greater [of "p + PGSIZE" n p] Suc.prems by fastforce
  then show ?case
    using Suc p by (simp add: pages_Suc)
qed simp

lemma cow_chain:
  "unat p + 4096 * n = 0x80FBB000 \<Longrightarrow> 0x80404000 \<le> unat p \<Longrightarrow> page_aligned p \<Longrightarrow>
   chain (words cow_words) p (pages p (Suc n))"
proof (induction n arbitrary: p)
  case 0
  then have "p = 0x80FBB000"
    by (intro word_unat_eqI) simp
  then show ?case
    by (simp add: pages_Suc load32_words cow_words_def)
next
  case (Suc n)
  have p: "unat (p + PGSIZE) = unat p + 4096"
    using Suc.prems(1) by (simp add: unat_word_ariths)
  have "load32 (words cow_words) p = cow_words p"
    using Suc.prems(3) by (intro load32_words) (simp add: page_aligned_mod4)
  also have "\<dots> = p + PGSIZE"
    using Suc.prems(1,2) by (auto simp: cow_words_def word_le_nat_alt word_less_nat_alt)
  finally have "load32 (words cow_words) p = p + PGSIZE" .
  moreover have "p \<noteq> 0"
    using Suc.prems(2) by auto
  moreover have "chain (words cow_words) (p + PGSIZE) (pages (p + PGSIZE) (Suc n))"
    using Suc.prems p by (intro Suc.IH) simp_all
  ultimately show ?case
    by (subst pages_Suc) simp
qed

lemma cow_free: "free_inv cow_state (pages 0x80404000 3000)"
proof -
  have "chain (words cow_words) 0x80404000 (pages 0x80404000 (Suc 2999))"
    by (intro cow_chain) simp_all
  moreover have "distinct (pages 0x80404000 3000)"
    by (intro distinct_pages) simp
  moreover have "kpage cow_state v" if "v \<in> set (pages 0x80404000 3000)" for v
    using that by (auto simp: set_pages kpage_def cow_state_def word_le_nat_alt word_less_nat_alt V2P_def unat_sub)
  ultimately show ?thesis
    by (simp add: free_inv_def cow_state_def)
qed

lemma cow_table: "table_of cow_state 0x80400000 va = (if PDX va = 0 then Some 0x80401000 else None)"
proof -
  have "0x80400000 + 4 * PDX va = 0x80400000 \<longleftrightarrow> PDX va = 0"
    using slot_eq [OF PDX_bound, of 0 va] by simp
  moreover have "pde_of cow_state 0x80400000 va = cow_words (0x80400000 + 4 * PDX va)"
    by (simp add: pde_of_def cow_state_def load32_words slot_simps)
  moreover have "unat (0x80400000 + 4 * PDX va) < 0x80401000" "0x80400000 \<le> unat (0x80400000 + 4 * PDX va)"
    using PDX_bound [of va] slot_less [OF PDX_bound, of va] by (simp_all add: unat_word_ariths)
  ultimately have "pde_of cow_state 0x80400000 va = (if PDX va = 0 then 0x00401007 else 0)"
    by (auto simp: cow_words_def word_le_nat_alt)
  then show ?thesis
    by (simp add: table_of_def PTE_ADDR_def P2V_def)
qed


lemma cow_sel [simp]: "kern_end cow_state = 0x80115000" "kdata cow_state = 0x80108000"
  "ref_counts cow_state i = 1" "mem cow_state = words cow_words"
  by (simp_all add: cow_state_def)

lemma cow_wf: "pgdir_wf cow_state 0x80400000 (pages 0x80404000 3000)"
proof -
  have own: "owned cow_state 0x80400000 = {0x80400000, 0x80401000}"
  proof -
    have "PDX 0 = 0"
      by (simp add: PDX_def)
    then show ?thesis
      by (auto simp: owned_def cow_table split: if_splits intro!: exI [of _ 0])
  qed
  have "v \<notin> set (pages 0x80404000 3000)" if "v \<in> owned cow_state 0x80400000" for v
    using that by (auto simp: own set_pages)
  moreover have "distinct_tables cow_state 0x80400000"
    unfolding distinct_tables_def by (simp add: cow_table)
  ultimately show ?thesis
    using cow_free
    by (auto simp: pgdir_wf_def own cow_table kpage_def V2P_def)
qed

lemma cow_pte:
  "va < 0x2000 \<Longrightarrow> pte_of cow_state 0x80400000 va = (if va < PGSIZE then 0x00402007 else 0x00403005)"
proof -
  assume va: "va < 0x2000"
  then have "unat va < 8192"
    by (simp add: word_less_nat_alt)
  then have u: "unat (PDX va) = 0" "unat (PTX va) = (if va < PGSIZE then 0 else 1)"
    by (auto simp: unat_PDX unat_PTX word_less_nat_alt)
  then have "PDX va = 0" "PTX va = (if va < PGSIZE then 0 else 1)"
    by (auto intro: word_unat_eqI)
  then show ?thesis
    by (simp add: pte_of_def cow_table load32_words cow_words_def)
qed

section \<open>Properties\<close>

text \<open>
  C6. \<^verbatim>\<open>mappages\<close>: on a range that is not mapped yet it returns (the loop ends, no panic). It
  returns \<open>0\<close> and every page of the range is mapped in order with the requested permissions, or
  it returns \<open>-1\<close> after a part of the range because the free list ran empty. No other entry of
  the directory changes, and an address space whose tables are disjoint from this one is not
  affected at all.
\<close>

theorem mappages_maps_range:
  assumes "pgdir_wf s pgdir xs" and "0 < sz" and "unat va + unat sz \<le> 2 ^ 32"
    and "\<forall>x. unat (x - PGROUNDDOWN va) < 4096 * page_count va sz \<longrightarrow> pte_of s pgdir x AND PTE_P = 0"
  shows "\<exists>r s' xs' k. mappages pgdir va sz pa perm s = Inr (r, s') \<and> pgdir_wf s' pgdir xs'
    \<and> pte_of s' pgdir = map_range (PGROUNDDOWN va) k pa perm (pte_of s pgdir)
    \<and> (r = 0 \<and> k = page_count va sz \<or> r = - 1 \<and> k < page_count va sz \<and> xs' = [])
    \<and> (\<forall>q. pgdir_wf s q xs \<longrightarrow> owned s q \<inter> owned s pgdir = {} \<longrightarrow>
          pgdir_wf s' q xs' \<and> pte_of s' q = pte_of s q)"
proof -
  have "0 < unat sz"
    using assms(2) by (simp add: word_less_nat_alt)
  then have "map_outcome pgdir (PGROUNDDOWN va) (page_count va sz) pa perm s xs
      (mappages pgdir va sz pa perm s)"
    using assms by (intro mappages_spec) auto
  then show ?thesis
  proof (rule map_outcomeE)
    fix r s' xs' k
    assume "mappages pgdir va sz pa perm s = Inr (r, s')" and g: "grows pgdir s xs s' xs'"
      and "pte_of s' pgdir = map_range (PGROUNDDOWN va) k pa perm (pte_of s pgdir)"
      and "r = 0 \<and> k = page_count va sz \<or> r = - 1 \<and> k < page_count va sz \<and> xs' = []"
    moreover have "pgdir_wf s' q xs' \<and> pte_of s' q = pte_of s q"
      if "pgdir_wf s q xs" "owned s q \<inter> owned s pgdir = {}" for q
      using grows_isolates(1,2) [OF g that] by blast
    ultimately show ?thesis
      using grows_wf [OF g] by blast
  qed
qed

theorem mappages_maps_range_witness:
  "\<exists>r s' xs' k. mappages 0x80400000 0x500000 0x2000 0 (PTE_W OR PTE_U) cow_state = Inr (r, s')
    \<and> pgdir_wf s' 0x80400000 xs'
    \<and> pte_of s' 0x80400000 = map_range 0x500000 k 0 (PTE_W OR PTE_U) (pte_of cow_state 0x80400000)
    \<and> (r = 0 \<and> k = 2 \<or> r = - 1 \<and> k < 2 \<and> xs' = [])"
proof -
  have va: "PGROUNDDOWN 0x500000 = 0x500000" "page_count 0x500000 0x2000 = 2"
    by (simp_all add: PGROUNDDOWN_def page_count_def)
  have "pte_of cow_state 0x80400000 x AND PTE_P = 0" if "unat (x - 0x500000) < 8192" for x
  proof -
    have "5242880 \<le> unat x" "unat x < 5251072"
      using that interval_iff [of "0x500000" 8192 x] by (simp_all add: word_le_nat_alt)
    then have "unat x div 2 ^ 22 = 1"
      by simp
    then have "PDX x \<noteq> 0"
      using unat_PDX [of x] by auto
    then show ?thesis
      by (simp add: pte_of_def cow_table)
  qed
  then show ?thesis
    using mappages_maps_range [OF cow_wf, of "0x2000" "0x500000" 0 "PTE_W OR PTE_U"]
    unfolding va by auto
qed

text \<open>
  C7. \<^verbatim>\<open>setupkvm\<close>: given more than 1024 free pages, it returns a fresh directory that maps exactly
  the four kernel segments of \<^verbatim>\<open>kmap\<close> (low memory and devices writable, kernel text read-only,
  kernel data up to \<^verbatim>\<open>PHYSTOP\<close> writable) and nothing below \<^verbatim>\<open>KERNBASE\<close>; none of its entries is
  accessible from user mode. No page of memory other than the ones it takes from the free list is
  written.
\<close>

theorem setupkvm_maps_kernel:
  fixes s :: "'a vm_state_scheme"
  assumes "free_inv s (d # xs)" and "1024 < length xs"
    and "page_aligned (kdata s)" and "KERNLINK < kdata s" and "kdata s < P2V PHYSTOP"
  shows "\<exists>s' xs'. setupkvm s = Inr (d, s') \<and> pgdir_wf s' d xs' \<and> pte_of s' d = kernel_pte (kdata s)
    \<and> (\<forall>va. pte_of s' d va AND PTE_U = 0)
    \<and> (\<forall>x. PGROUNDDOWN x \<notin> set (d # xs) \<longrightarrow> mem s' x = mem s x)"
proof -
  obtain s' xs' where s': "setupkvm s = Inr (d, s')" "pte_of s' d = kernel_pte (kdata s)"
    and g: "grows d ((snd (kalloc s))\<lparr>mem := fill d 4096 0 (mem s)\<rparr>) xs s' xs'"
    using setupkvm_spec [OF assms] by blast
  note fresh = fresh_pgdir [OF assms(1)]
  have user: "kernel_pte data va AND PTE_U = 0" for data va
  proof -
    have "PTE_ADDR a AND PTE_U = 0" for a
      by (rule bit_word_eqI)
        (auto simp: PTE_ADDR_def bit_simps mask12_u32 bit_flags simp del: bit_numeral_word_iff)
    moreover have "PGROUNDDOWN va = PTE_ADDR (PGROUNDDOWN va)"
        "V2P (PGROUNDDOWN va) = PTE_ADDR (V2P (PGROUNDDOWN va))"
      by (simp_all add: PTE_ADDR_eq_PGROUNDDOWN PGROUNDDOWN_aligned)
    ultimately have "PGROUNDDOWN va AND PTE_U = 0" "V2P (PGROUNDDOWN va) AND PTE_U = 0"
      by metis+
    then show ?thesis
      by (simp add: kernel_pte_def and.commute [of _ PTE_U] bit.conj_disj_distrib)
  qed
  have "mem s' x = mem s x" if "PGROUNDDOWN x \<notin> set (d # xs)" for x
    using that g fresh(3,4) by (auto simp: grows_def)
  then show ?thesis
    using s' grows_wf [OF g] user by auto
qed

theorem setupkvm_maps_kernel_witness:
  "\<exists>s'. setupkvm cow_state = Inr (0x80404000, s') \<and> pte_of s' 0x80404000 = kernel_pte 0x80108000"
proof -
  have "pages 0x80404000 3000 = 0x80404000 # pages 0x80405000 2999"
    using pages_Suc [of "0x80404000" 2999] by simp
  then have inv: "free_inv cow_state (0x80404000 # pages 0x80405000 2999)"
    using cow_free by simp
  show ?thesis
    using setupkvm_maps_kernel [OF inv] by (auto simp: P2V_def)
qed

text \<open>
  A page that is present is never mapped over: \<^verbatim>\<open>mappages\<close> on an address with a present entry
  panics with \<^verbatim>\<open>remap\<close>.
\<close>

lemma mappages_remap:
  assumes "pgdir_wf s pgdir xs" and "pte_of s pgdir va AND PTE_P \<noteq> 0"
  shows "mappages pgdir va sz pa perm s = Inl (Panic ''remap'')"
proof -
  let ?a = "PGROUNDDOWN va"
  have "pte_of s pgdir ?a = pte_of s pgdir va"
    by (intro pte_of_page) (simp add: PGROUNDDOWN_aligned)
  then have pres: "pte_of s pgdir ?a AND PTE_P \<noteq> 0"
    using assms(2) by simp
  then obtain t where t: "table_of s pgdir ?a = Some t"
    by (cases "table_of s pgdir ?a") (auto simp: pte_of_def)
  have "load32 (mem s) (t + 4 * PTX ?a) AND PTE_P \<noteq> 0"
    using pres t by (simp add: pte_of_def)
  then show ?thesis
    using table_slot_nonzero [OF assms(1) t, of ?a]
    by (simp add: mappages_def mappages_loop.simps [of _ ?a] walkpgdir_present [OF t] Let_def)
qed

text \<open>
  C8. \<^verbatim>\<open>copyuvm\<close>: with enough free pages it returns a new directory \<open>d\<close>. The parent and the child
  map every user page to the same physical page; in the parent every user page has lost its write
  permission and is marked copy-on-write, in the child every page has its parent's flags except
  that a writable one is copy-on-write instead. Above \<^verbatim>\<open>sz\<close> the parent is unchanged and the child
  has the kernel's mappings. The reference count of a page grows by the number of user pages it
  backs, and no byte of memory outside the page tables changes: nothing is copied.
\<close>

theorem copyuvm_shares_pages:
  fixes s :: "'a vm_state_scheme"
  assumes "pgdir_wf s p (d # xs)" and "2048 < length xs"
    and "page_aligned (kdata s)" and "KERNLINK < kdata s" and "kdata s < P2V PHYSTOP"
    and "sz \<le> KERNBASE"
    and "\<forall>va < sz. pte_of s p va AND PTE_P \<noteq> 0 \<and> PTE_ADDR (pte_of s p va) < PHYSTOP"
  shows "\<exists>s' xs'. copyuvm p sz s = Inr (d, s') \<and> pgdir_wf s' p xs' \<and> pgdir_wf s' d xs'
    \<and> owned s' p \<inter> owned s' d = {}
    \<and> (\<forall>va. pte_of s' p va = (if PGROUNDDOWN va < sz then cow_flags (pte_of s p va) else pte_of s p va))
    \<and> (\<forall>va. pte_of s' d va = (if PGROUNDDOWN va < sz then child_pte (pte_of s p va)
          else kernel_pte (kdata s) va))
    \<and> (\<forall>v. page_aligned v \<longrightarrow> v \<noteq> 0 \<longrightarrow> v \<notin> set (d # xs) \<longrightarrow>
          ref_count s' v = ref_count s v + of_nat (shared_times s p v (user_pages sz)))
    \<and> (\<forall>x. PGROUNDDOWN x \<notin> owned s p \<union> set (d # xs) \<longrightarrow> mem s' x = mem s x)"
  using assms by (intro copyuvm_spec) auto

theorem copyuvm_shares_pages_witness:
  "\<exists>s'. copyuvm 0x80400000 0x2000 cow_state = Inr (0x80404000, s')
    \<and> pte_of s' 0x80400000 0 = 0x00402205 \<and> pte_of s' 0x80404000 0 = 0x00402205
    \<and> pte_of s' 0x80400000 0x1000 = 0x00403205 \<and> pte_of s' 0x80404000 0x1000 = 0x00403005
    \<and> ref_count s' 0x80402000 = 2"
proof -
  have split: "pages 0x80404000 3000 = 0x80404000 # pages 0x80405000 2999"
    using pages_Suc [of "0x80404000" 2999] by simp
  have wf: "pgdir_wf cow_state 0x80400000 (0x80404000 # pages 0x80405000 2999)"
    using cow_wf unfolding split .
  have user: "\<forall>va < 0x2000. pte_of cow_state 0x80400000 va AND PTE_P \<noteq> 0
      \<and> PTE_ADDR (pte_of cow_state 0x80400000 va) < PHYSTOP"
    by (simp add: cow_pte PTE_ADDR_def)
  have pte: "pte_of cow_state 0x80400000 0 = 0x00402007" "pte_of cow_state 0x80400000 0x1000 = 0x00403005"
    by (simp_all add: cow_pte)
  have down: "PGROUNDDOWN 0 = 0" "PGROUNDDOWN 0x1000 = 0x1000"
    by (simp_all add: PGROUNDDOWN_def)
  have "user_pages 0x2000 = Suc (Suc 0)"
    by (simp add: user_pages_def)
  then have "shared_times cow_state 0x80400000 0x80402000 (user_pages 0x2000) = 1"
    using pte by (simp add: shared_times_def PTE_ADDR_def V2P_def)
  moreover have "(0x80402000 :: addr) \<notin> set (0x80404000 # pages 0x80405000 2999)"
    by (simp add: set_pages)
  ultimately show ?thesis
    using copyuvm_shares_pages [OF wf _ _ _ _ _ user]
    by (auto simp: P2V_def ref_count_def pte down cow_flags_def child_pte_def PTE_ADDR_def PTE_FLAGS_def)
qed

end
