(* ===== verification/VmFree.thy ===== *)
theory VmFree
  imports Cow
begin

text \<open>
  Giving memory back: \<^verbatim>\<open>deallocuvm\<close>, \<^verbatim>\<open>freevm\<close> and \<^verbatim>\<open>allocuvm\<close>. The pages an address space maps
  are its leaves; a leaf is private when its reference count is at most one.
\<close>

definition in_range :: "addr \<Rightarrow> addr \<Rightarrow> addr \<Rightarrow> bool" where
  "in_range a lim va \<longleftrightarrow> a \<le> PGROUNDDOWN va \<and> PGROUNDDOWN va < lim"

definition present :: "'a kmem_state_scheme \<Rightarrow> addr \<Rightarrow> addr \<Rightarrow> bool" where
  "present s pgdir va \<longleftrightarrow> pte_of s pgdir va AND PTE_P \<noteq> 0"

definition leaf :: "'a kmem_state_scheme \<Rightarrow> addr \<Rightarrow> addr \<Rightarrow> addr" where
  "leaf s pgdir va = P2V (PTE_ADDR (pte_of s pgdir va))"

text \<open>
  The leaves of a range are pages of physical memory, neither free nor page tables, and no two
  virtual pages of the range share one.
\<close>

definition leaves_ok :: "'a kmem_state_scheme \<Rightarrow> addr \<Rightarrow> addr \<Rightarrow> addr \<Rightarrow> addr list \<Rightarrow> bool" where
  "leaves_ok s pgdir a lim xs \<longleftrightarrow>
     (\<forall>va. in_range a lim va \<longrightarrow> present s pgdir va \<longrightarrow>
        kpage s (leaf s pgdir va) \<and> leaf s pgdir va \<notin> owned s pgdir \<and> leaf s pgdir va \<notin> set xs)
     \<and> (\<forall>va va'. in_range a lim va \<longrightarrow> in_range a lim va' \<longrightarrow> present s pgdir va \<longrightarrow> present s pgdir va' \<longrightarrow>
          leaf s pgdir va = leaf s pgdir va' \<longrightarrow> PGROUNDDOWN va = PGROUNDDOWN va')"

definition private_leaves :: "'a kmem_state_scheme \<Rightarrow> addr \<Rightarrow> addr \<Rightarrow> addr \<Rightarrow> addr set" where
  "private_leaves s pgdir a lim =
     {leaf s pgdir va | va. in_range a lim va \<and> present s pgdir va \<and> ref_count s (leaf s pgdir va) \<le> 1}"

definition unmap_range :: "addr \<Rightarrow> addr \<Rightarrow> (addr \<Rightarrow> u32) \<Rightarrow> addr \<Rightarrow> u32" where
  "unmap_range a lim f va = (if in_range a lim va \<and> f va AND PTE_P \<noteq> 0 then 0 else f va)"

definition dealloc_post ::
  "addr \<Rightarrow> addr \<Rightarrow> addr \<Rightarrow> 'a kmem_state_scheme \<Rightarrow> addr list \<Rightarrow> 'a kmem_state_scheme \<Rightarrow> addr list \<Rightarrow> bool" where
  "dealloc_post pgdir a lim s xs s' ys \<longleftrightarrow>
     pgdir_wf s' pgdir (ys @ xs) \<and> owned s' pgdir = owned s pgdir
     \<and> pte_of s' pgdir = unmap_range a lim (pte_of s pgdir)
     \<and> set ys = private_leaves s pgdir a lim
     \<and> (\<forall>x. PGROUNDDOWN x \<notin> owned s pgdir \<union> set ys \<longrightarrow> mem s' x = mem s x)
     \<and> ref_counts s' = ref_counts s \<and> kern_end s' = kern_end s \<and> use_lock s' = use_lock s
     \<and> kmem_state.more s' = kmem_state.more s"

section \<open>Ranges\<close>

lemma in_range_step:
  assumes "page_aligned a" and "unat a < unat lim" and "unat a + 4096 < 2 ^ 32"
  shows "in_range a lim va \<longleftrightarrow> PGROUNDDOWN va = a \<or> in_range (a + PGSIZE) lim va"
proof -
  have u: "unat (a + PGSIZE) = unat a + 4096"
    using assms(3) by (simp add: unat_word_ariths)
  obtain k j where k: "unat a = 4096 * k" and j: "unat (PGROUNDDOWN va) = 4096 * j"
    using assms(1) page_aligned_PGROUNDDOWN [of va] by (auto simp only: page_aligned_unat elim!: dvdE dest!: mod_0_imp_dvd)
  have "PGROUNDDOWN va = a \<longleftrightarrow> j = k"
    using k j by (metis mult_cancel1 word_unat_eqI zero_neq_numeral)
  then show ?thesis
    using assms(2) u k j by (auto simp: in_range_def word_le_nat_alt word_less_nat_alt)
qed

lemma in_range_empty: "\<not> a < lim \<Longrightarrow> \<not> in_range a lim va"
  by (auto simp: in_range_def)

lemma private_leaves_empty: "(\<And>va. \<not> in_range a lim va) \<Longrightarrow> private_leaves s pgdir a lim = {}"
  by (simp add: private_leaves_def)

lemma unat_next_table:
  assumes "unat a < 2 ^ 31"
  shows "unat (PGADDR (PDX a + 1) 0 0) = (unat a div 2 ^ 22 + 1) * 2 ^ 22"
proof -
  have "unat (PDX a) < 512"
    using assms by (simp add: unat_PDX)
  then have "unat (PDX a + 1) = unat (PDX a) + 1"
    by (simp add: unat_word_ariths)
  then show ?thesis
    using \<open>unat (PDX a) < 512\<close>
    by (simp add: PGADDR_def push_bit_eq_mult unat_word_ariths unat_PDX)
qed

lemma in_range_skip:
  assumes "page_aligned a" and "unat a < 2 ^ 31" and "table_of s pgdir a = None"
    and "in_range a lim va" and "present s pgdir va"
  shows "in_range (PGADDR (PDX a + 1) 0 0) lim va"
proof -
  have "PDX va \<noteq> PDX a"
    using assms(3,5) table_of_PDX [of va a s pgdir] by (auto simp: present_def pte_of_def)
  then have "unat va div 2 ^ 22 \<noteq> unat a div 2 ^ 22"
    by (metis unat_PDX word_unat_eqI)
  moreover have "unat a \<le> unat va"
    using assms(4) PGROUNDDOWN_le [of va] by (auto simp: in_range_def word_le_nat_alt)
  then have "unat a div 2 ^ 22 \<le> unat va div 2 ^ 22"
    by (rule div_le_mono)
  ultimately have "unat a div 2 ^ 22 + 1 \<le> unat va div 2 ^ 22"
    by simp
  then have "(unat a div 2 ^ 22 + 1) * 2 ^ 22 \<le> unat va div 2 ^ 22 * 2 ^ 22"
    by (rule mult_le_mono1)
  also have "\<dots> \<le> unat (PGROUNDDOWN va)"
  proof -
    have "unat va div 2 ^ 22 = unat va div 4096 div 1024"
      by (simp flip: div_mult2_eq)
    then have "unat va div 2 ^ 22 * 1024 \<le> unat va div 4096"
      by simp
    then have "unat va div 2 ^ 22 * 1024 * 4096 \<le> unat va div 4096 * 4096"
      by (rule mult_le_mono1)
    then show ?thesis
      by (simp add: unat_PGROUNDDOWN)
  qed
  finally show ?thesis
    using assms(4) unat_next_table [OF assms(2)] by (simp add: in_range_def word_le_nat_alt)
qed

section \<open>deallocuvm\<close>

lemma leaves_okD:
  assumes "leaves_ok s pgdir a lim xs" and "in_range a lim va" and "present s pgdir va"
  shows "kpage s (leaf s pgdir va)" "leaf s pgdir va \<notin> owned s pgdir" "leaf s pgdir va \<notin> set xs"
  using assms unfolding leaves_ok_def by blast+

lemma leaves_ok_inj:
  assumes "leaves_ok s pgdir a lim xs" and "in_range a lim va" "in_range a lim va'"
    and "present s pgdir va" "present s pgdir va'" and "leaf s pgdir va = leaf s pgdir va'"
  shows "PGROUNDDOWN va = PGROUNDDOWN va'"
  using assms unfolding leaves_ok_def by blast

text \<open>One mapped page: \<^verbatim>\<open>kfree\<close> and the cleared entry.\<close>

lemma dealloc_page:
  assumes wf: "pgdir_wf s pgdir xs" and t: "table_of s pgdir a = Some t"
    and v: "kpage s v" "v \<notin> owned s pgdir" "v \<notin> set xs"
  defines "ys \<equiv> if ref_count s v \<le> 1 then [v] else []"
  shows "\<exists>s1 s2. kfree v s = Inr s1 \<and> s2 = s1\<lparr>mem := store32 (t + 4 * PTX a) 0 (mem s1)\<rparr>
    \<and> pgdir_wf s2 pgdir (ys @ xs) \<and> owned s2 pgdir = owned s pgdir
    \<and> pte_of s2 pgdir = (\<lambda>va. if PGROUNDDOWN va = PGROUNDDOWN a then 0 else pte_of s pgdir va)
    \<and> (\<forall>x. PGROUNDDOWN x \<notin> owned s pgdir \<union> set ys \<longrightarrow> mem s2 x = mem s x)
    \<and> ref_counts s2 = ref_counts s \<and> kern_end s2 = kern_end s \<and> use_lock s2 = use_lock s
    \<and> kmem_state.more s2 = kmem_state.more s"
proof -
  obtain s1 where s1: "kfree v s = Inr s1"
    using kfree_shared [OF v(1)] kfree_private [OF v(1)] by (cases "ref_count s v \<le> 1") (auto simp: not_le)
  note fr = kfree_frame [OF s1]
  have other: "mem s1 x = mem s x" if "PGROUNDDOWN x \<notin> set ys" for x
  proof (cases "ref_count s v \<le> 1")
    case True
    then show ?thesis
      using that by (intro kfree_mem_other [OF s1]) (simp add: ys_def)
  next
    case False
    then show ?thesis
      using s1 kfree_shared [OF v(1)] by (simp add: not_le)
  qed
  have "set ys \<inter> owned s pgdir = {}"
    using v(2) by (auto simp: ys_def)
  then have same: "mem s1 x = mem s x" if "PGROUNDDOWN x \<in> owned s pgdir" for x
    using that by (intro other) auto
  have tab: "table_of s1 pgdir = table_of s pgdir" and pte: "pte_of s1 pgdir = pte_of s pgdir"
    and own: "owned s1 pgdir = owned s pgdir"
    by (rule pgdir_cong [OF wf same]; assumption)+
  have "free_inv s1 (ys @ xs)"
  proof (cases "ref_count s v \<le> 1")
    case True
    then show ?thesis
      using kfree_free_inv [OF pgdir_wf_free [OF wf] v(3) _ s1] by (simp add: ys_def)
  next
    case False
    then have "ys = []" "s1 = s"
      using s1 kfree_shared [OF v(1)] by (simp_all add: ys_def not_le)
    then show ?thesis
      using pgdir_wf_free [OF wf] by simp
  qed
  then have wf1: "pgdir_wf s1 pgdir (ys @ xs)"
    using wf v(2) fr by (intro pgdir_wf_cong [OF wf same]) (auto simp: pgdir_wf_def ys_def)
  define s2 where "s2 = s1\<lparr>mem := store32 (t + 4 * PTX a) 0 (mem s1)\<rparr>"
  note st = store_pte [OF wf1, of a t 0, folded s2_def, unfolded tab, OF t]
  have "owned s2 pgdir = owned s1 pgdir"
    using st(3) tab by (simp add: owned_def)
  moreover have "mem s2 x = mem s x" if "PGROUNDDOWN x \<notin> owned s pgdir \<union> set ys" for x
    using that st(1) other [of x] own by (auto simp: grows_def)
  moreover have "ref_counts s2 = ref_counts s" "kern_end s2 = kern_end s" "use_lock s2 = use_lock s"
      "kmem_state.more s2 = kmem_state.more s"
    using fr by (simp_all add: s2_def)
  ultimately show ?thesis
    using s1 grows_wf [OF st(1)] st(2) s2_def unfolding own pte by blast
qed

lemma dealloc_post_refl:
  assumes "pgdir_wf s pgdir xs" and "\<And>va. in_range a lim va \<Longrightarrow> \<not> present s pgdir va"
  shows "dealloc_post pgdir a lim s xs s []"
  using assms by (auto simp: dealloc_post_def private_leaves_def unmap_range_def present_def fun_eq_iff)

text \<open>A prefix of the range without any mapped page can be skipped.\<close>

lemma dealloc_post_skip:
  assumes "dealloc_post pgdir b lim s xs s' ys" and "b \<ge> a"
    and "\<And>va. in_range a lim va \<Longrightarrow> present s pgdir va \<Longrightarrow> in_range b lim va"
  shows "dealloc_post pgdir a lim s xs s' ys"
proof -
  have iff: "in_range a lim va \<and> present s pgdir va \<longleftrightarrow> in_range b lim va \<and> present s pgdir va" for va
    using assms(2,3) by (auto simp: in_range_def)
  then have "unmap_range b lim (pte_of s pgdir) = unmap_range a lim (pte_of s pgdir)"
    by (simp add: fun_eq_iff unmap_range_def present_def)
  moreover have "private_leaves s pgdir b lim = private_leaves s pgdir a lim"
    using iff by (auto simp: private_leaves_def)
  ultimately show ?thesis
    using assms(1) by (simp add: dealloc_post_def)
qed

lemma dealloc_post_step:
  assumes step: "pte_of s2 pgdir = (\<lambda>va. if PGROUNDDOWN va = a then 0 else pte_of s pgdir va)"
    "owned s2 pgdir = owned s pgdir" "ref_counts s2 = ref_counts s" "kern_end s2 = kern_end s"
    "use_lock s2 = use_lock s" "kmem_state.more s2 = kmem_state.more s"
    "\<And>x. PGROUNDDOWN x \<notin> owned s pgdir \<union> set ys1 \<Longrightarrow> mem s2 x = mem s x"
    and ys1: "ys1 = (if ref_count s (leaf s pgdir a) \<le> 1 then [leaf s pgdir a] else [])"
    and al: "page_aligned a" and lt: "unat a < unat lim" "unat a + 4096 < 2 ^ 32" and pres: "present s pgdir a"
    and post: "dealloc_post pgdir (a + PGSIZE) lim s2 (ys1 @ xs) s' ys"
  shows "dealloc_post pgdir a lim s xs s' (ys @ ys1)"
proof -
  note rng = in_range_step [OF al lt]
  have pa: "PGROUNDDOWN a = a"
    using al by (rule PGROUNDDOWN_aligned)
  have page: "pte_of s pgdir va = pte_of s pgdir a" if "PGROUNDDOWN va = a" for va
    using that pa by (intro pte_of_page) simp
  have disj: "PGROUNDDOWN va \<noteq> a" if "in_range (a + PGSIZE) lim va" for va
  proof -
    have "unat (a + PGSIZE) = unat a + 4096"
      using lt(2) by (simp add: unat_word_ariths)
    then show ?thesis
      using that by (auto simp: in_range_def word_le_nat_alt)
  qed
  have other: "pte_of s2 pgdir va = pte_of s pgdir va" if "in_range (a + PGSIZE) lim va" for va
    using disj [OF that] by (simp add: step(1))
  have "unmap_range (a + PGSIZE) lim (pte_of s2 pgdir) va = unmap_range a lim (pte_of s pgdir) va" for va
  proof (cases "PGROUNDDOWN va = a")
    case True
    then show ?thesis
      using disj [of va] pres page [OF True] rng [of va] by (auto simp: unmap_range_def step(1) present_def)
  next
    case False
    then show ?thesis
      using rng [of va] by (simp add: unmap_range_def step(1))
  qed
  then have "unmap_range (a + PGSIZE) lim (pte_of s2 pgdir) = unmap_range a lim (pte_of s pgdir)"
    by (rule ext)
  moreover have "private_leaves s pgdir a lim = private_leaves s2 pgdir (a + PGSIZE) lim \<union> set ys1"
  proof -
    have "private_leaves s2 pgdir (a + PGSIZE) lim =
        {leaf s pgdir va | va. in_range (a + PGSIZE) lim va \<and> present s pgdir va
          \<and> ref_count s (leaf s pgdir va) \<le> 1}"
      unfolding private_leaves_def leaf_def present_def ref_count_def step(3)
      by (rule Collect_cong) (metis other)
    moreover have "set ys1 = {leaf s pgdir va | va. PGROUNDDOWN va = a \<and> present s pgdir va
          \<and> ref_count s (leaf s pgdir va) \<le> 1}"
    proof -
      have eq: "leaf s pgdir va = leaf s pgdir a" if "PGROUNDDOWN va = a" for va
        unfolding leaf_def page [OF that] by simp
      have "set ys1 = {x. x = leaf s pgdir a \<and> ref_count s x \<le> 1}"
        by (auto simp: ys1)
      moreover have "{leaf s pgdir va | va. PGROUNDDOWN va = a \<and> present s pgdir va
          \<and> ref_count s (leaf s pgdir va) \<le> 1} \<subseteq> {x. x = leaf s pgdir a \<and> ref_count s x \<le> 1}"
        using eq by fastforce
      moreover have "{x. x = leaf s pgdir a \<and> ref_count s x \<le> 1} \<subseteq> {leaf s pgdir va | va.
          PGROUNDDOWN va = a \<and> present s pgdir va \<and> ref_count s (leaf s pgdir va) \<le> 1}"
        using pa pres by blast
      ultimately show ?thesis
        by (simp only: subset_antisym)
    qed
    ultimately show ?thesis
      unfolding private_leaves_def [of s] rng by blast
  qed
  ultimately show ?thesis
    using post step(2-6) step(7) unfolding dealloc_post_def by auto
qed

lemma leaves_ok_mono:
  assumes "leaves_ok s pgdir a lim xs" and "\<And>va. in_range b lim' va \<Longrightarrow> in_range a lim va"
  shows "leaves_ok s pgdir b lim' xs"
  using assms unfolding leaves_ok_def by blast

lemma leaves_ok_step:
  assumes ok: "leaves_ok s pgdir a lim xs" and pres: "present s pgdir a"
    and pte: "pte_of s2 pgdir = (\<lambda>va. if PGROUNDDOWN va = a then 0 else pte_of s pgdir va)"
    and same: "owned s2 pgdir = owned s pgdir" "kern_end s2 = kern_end s"
    and al: "page_aligned a" and lt: "unat a < unat lim" "unat a + 4096 < 2 ^ 32"
    and ys: "set ys \<subseteq> {leaf s pgdir a}"
  shows "leaves_ok s2 pgdir (a + PGSIZE) lim (ys @ xs)"
proof -
  note rng = in_range_step [OF al lt]
  have a: "in_range a lim a" "PGROUNDDOWN a = a"
    using al lt by (simp_all add: rng PGROUNDDOWN_aligned)
  have sub: "in_range a lim va" if "in_range (a + PGSIZE) lim va" for va
    using that rng by blast
  have kp: "kpage s2 = kpage s"
    by (simp add: fun_eq_iff kpage_def same)
  have old: "PGROUNDDOWN va \<noteq> a \<and> present s pgdir va \<and> leaf s2 pgdir va = leaf s pgdir va"
    if "present s2 pgdir va" for va
    using that by (auto simp: present_def leaf_def pte split: if_splits)
  have new: "leaf s pgdir va \<noteq> leaf s pgdir a" if "present s2 pgdir va" "in_range (a + PGSIZE) lim va" for va
    using leaves_ok_inj [OF ok sub [OF that(2)] a(1)] old [OF that(1)] pres a(2) by metis
  show ?thesis
    unfolding leaves_ok_def kp same(1)
  proof (intro conjI allI impI)
    fix va
    assume va: "in_range (a + PGSIZE) lim va" "present s2 pgdir va"
    note ok' = leaves_okD [OF ok sub [OF va(1)]] and o = old [OF va(2)]
    show "kpage s (leaf s2 pgdir va)" "leaf s2 pgdir va \<notin> owned s pgdir"
      using ok' o by simp_all
    show "leaf s2 pgdir va \<notin> set (ys @ xs)"
      using ok' o ys new [OF va(2,1)] by auto
    fix va'
    assume "in_range (a + PGSIZE) lim va'" "present s2 pgdir va'" "leaf s2 pgdir va = leaf s2 pgdir va'"
    then show "PGROUNDDOWN va = PGROUNDDOWN va'"
      using leaves_ok_inj [OF ok] sub o va old by metis
  qed
qed

lemma deallocuvm_loop_spec:
  assumes "pgdir_wf s pgdir xs" and "page_aligned a" and lim: "lim \<le> KERNBASE" and "KERNBASE < kern_end s"
    and "leaves_ok s pgdir a lim xs"
  shows "\<exists>s' ys. deallocuvm_loop pgdir a lim s = Inr s' \<and> dealloc_post pgdir a lim s xs s' ys"
  using assms(1,2,4,5)
proof (induction "unat lim - unat a" arbitrary: a s xs rule: less_induct)
  case less
  note wf = less.prems(1) and al = less.prems(2) and ke = less.prems(3) and ok = less.prems(4)
  show ?case
  proof (cases "a < lim")
    case False
    then show ?thesis
      using dealloc_post_refl [OF wf] in_range_empty [OF False]
      by (subst deallocuvm_loop.simps) auto
  next
    case True
    have lt: "unat a < unat lim" "unat a < 2 ^ 31"
      using True lim by (simp_all add: word_less_nat_alt word_le_nat_alt)
    then have w: "unat a + 4096 < 2 ^ 32" and u: "unat (a + PGSIZE) = unat a + 4096"
      by (simp_all add: unat_word_ariths)
    then have nowrap: "\<not> a + PGSIZE \<le> a"
      by (simp add: word_le_nat_alt)
    have dec: "unat lim - unat (a + PGSIZE) < unat lim - unat a"
      using lt u by simp
    note rng = in_range_step [OF al lt(1) w]
    have a: "in_range a lim a"
      using al by (simp add: rng PGROUNDDOWN_aligned)
    show ?thesis
    proof (cases "table_of s pgdir a")
      case None
      let ?b = "PGADDR (PDX a + 1) 0 0"
      have ub: "unat a < unat ?b" "page_aligned ?b"
        using unat_next_table [OF lt(2)] by (simp_all add: page_aligned_unat mod_mult_right_eq dividend_less_div_times)
      have sub: "in_range a lim va" if "in_range ?b lim va" for va
        using that ub(1) by (auto simp: in_range_def word_le_nat_alt)
      have "\<exists>s' ys. deallocuvm_loop pgdir ?b lim s = Inr s' \<and> dealloc_post pgdir ?b lim s xs s' ys"
        using ub lt(1) by (intro less.hyps wf ke leaves_ok_mono [OF ok sub]) simp_all
      moreover have "deallocuvm_loop pgdir a lim s = deallocuvm_loop pgdir ?b lim s"
        using True ub(1) by (subst deallocuvm_loop.simps)
          (simp add: walkpgdir_absent [OF None] Let_def word_le_nat_alt)
      ultimately show ?thesis
        using dealloc_post_skip [of pgdir ?b lim s xs _ _ a] in_range_skip [OF al lt(2) None] ub(1)
        by (metis order_less_imp_le word_less_nat_alt)
    next
      case (Some t)
      note nz = table_slot_nonzero [OF wf Some, of a]
      have pte: "load32 (mem s) (t + 4 * PTX a) = pte_of s pgdir a"
        using Some by (simp add: pte_of_def)
      show ?thesis
      proof (cases "present s pgdir a")
        case False
        have np: "\<not> present s pgdir va" if "PGROUNDDOWN va = a" for va
          using False that pte_of_page [of va a s pgdir] PGROUNDDOWN_aligned [OF al] by (simp add: present_def)
        have "\<exists>s' ys. deallocuvm_loop pgdir (a + PGSIZE) lim s = Inr s'
            \<and> dealloc_post pgdir (a + PGSIZE) lim s xs s' ys"
          using al by (intro less.hyps [OF dec] wf ke leaves_ok_mono [OF ok]) (simp_all add: rng)
        moreover have "deallocuvm_loop pgdir a lim s = deallocuvm_loop pgdir (a + PGSIZE) lim s"
          using True nowrap nz False
          by (subst deallocuvm_loop.simps) (simp add: walkpgdir_present [OF Some] Let_def pte present_def)
        moreover have "a \<le> a + PGSIZE"
          using nowrap by simp
        ultimately show ?thesis
          using dealloc_post_skip [of pgdir "a + PGSIZE" lim s xs _ _ a] rng np by metis
      next
        case pres: True
        let ?v = "leaf s pgdir a"
        note v = leaves_okD [OF ok a pres]
        define ys1 where "ys1 = (if ref_count s ?v \<le> 1 then [?v] else [])"
        obtain s1 s2 where s1: "kfree ?v s = Inr s1"
          and s2: "s2 = s1\<lparr>mem := store32 (t + 4 * PTX a) 0 (mem s1)\<rparr>" "pgdir_wf s2 pgdir (ys1 @ xs)"
            "owned s2 pgdir = owned s pgdir"
            "pte_of s2 pgdir = (\<lambda>va. if PGROUNDDOWN va = PGROUNDDOWN a then 0 else pte_of s pgdir va)"
            "\<forall>x. PGROUNDDOWN x \<notin> owned s pgdir \<union> set ys1 \<longrightarrow> mem s2 x = mem s x"
            "ref_counts s2 = ref_counts s" "kern_end s2 = kern_end s" "use_lock s2 = use_lock s"
            "kmem_state.more s2 = kmem_state.more s"
          using dealloc_page [OF wf Some v] unfolding ys1_def by blast
        note pte2 = s2(4) [unfolded PGROUNDDOWN_aligned [OF al]]
        have ok2: "leaves_ok s2 pgdir (a + PGSIZE) lim (ys1 @ xs)"
          by (rule leaves_ok_step [OF ok pres pte2 s2(3,7) al lt(1) w]) (auto simp: ys1_def)
        have "PTE_ADDR (pte_of s pgdir a) \<noteq> 0"
          using v(1) ke by (auto simp: leaf_def kpage_def P2V_def)
        then have "deallocuvm_loop pgdir a lim s = deallocuvm_loop pgdir (a + PGSIZE) lim s2"
          using True nowrap nz pres s1
          by (subst deallocuvm_loop.simps)
            (simp add: walkpgdir_present [OF Some] Let_def pte present_def s2(1) leaf_def)
        moreover obtain s' ys where "deallocuvm_loop pgdir (a + PGSIZE) lim s2 = Inr s'"
          and "dealloc_post pgdir (a + PGSIZE) lim s2 (ys1 @ xs) s' ys"
          using less.hyps [OF dec s2(2)] ok2 al ke s2(7) by auto
        moreover have "dealloc_post pgdir a lim s xs s' (ys @ ys1)"
          using dealloc_post_step [OF pte2 s2(3,6-9) _ ys1_def al lt(1) w pres] s2(5) calculation by blast
        ultimately show ?thesis
          by auto
      qed
    qed
  qed
qed

section \<open>freevm\<close>

definition pde_at :: "'a kmem_state_scheme \<Rightarrow> addr \<Rightarrow> nat \<Rightarrow> u32" where
  "pde_at s pgdir i = load32 (mem s) (pgdir + 4 * of_nat i)"

definition table_at :: "'a kmem_state_scheme \<Rightarrow> addr \<Rightarrow> nat \<Rightarrow> addr" where
  "table_at s pgdir i = P2V (PTE_ADDR (pde_at s pgdir i))"

definition table_list :: "'a kmem_state_scheme \<Rightarrow> addr \<Rightarrow> nat list \<Rightarrow> addr list" where
  "table_list s pgdir is = map (table_at s pgdir) (filter (\<lambda>i. pde_at s pgdir i AND PTE_P \<noteq> 0) is)"

lemma pde_at_frame:
  assumes "page_aligned pgdir" and "i < 1024" and "\<And>x. PGROUNDDOWN x = pgdir \<Longrightarrow> mem s' x = mem s x"
  shows "pde_at s' pgdir i = pde_at s pgdir i"
  unfolding pde_at_def
proof (rule load32_page_cong)
  have i: "unat (of_nat i :: u32) < 1024"
    using assms(2) by (simp add: unat_of_nat)
  then show "(pgdir + 4 * of_nat i) mod 4 = 0"
    using assms(1) by (simp add: slot_mod4)
  show "mem s' x = mem s x" if "PGROUNDDOWN x = PGROUNDDOWN (pgdir + 4 * of_nat i)" for x
    using that assms(1,3) i by (simp add: slot_page)
qed

lemma kfree_private_step:
  assumes "free_inv s xs" and "kpage s v" and "v \<notin> set xs" and "ref_count s v \<le> 1"
  shows "\<exists>s'. kfree v s = Inr s' \<and> free_inv s' (v # xs) \<and> (\<forall>x. PGROUNDDOWN x \<noteq> v \<longrightarrow> mem s' x = mem s x)
    \<and> ref_counts s' = ref_counts s \<and> kern_end s' = kern_end s \<and> use_lock s' = use_lock s
    \<and> kmem_state.more s' = kmem_state.more s"
proof -
  obtain s' where s': "kfree v s = Inr s'"
    using kfree_private [OF assms(2,4)] by blast
  then show ?thesis
    using kfree_free_inv [OF assms(1,3,4) s'] kfree_mem_other [OF s'] kfree_frame [OF s'] by blast
qed

lemma free_tables:
  assumes "free_inv s xs" and al: "page_aligned pgdir" and "set is \<subseteq> {..<1024}"
    and "distinct (table_list s pgdir is)" and "set (table_list s pgdir is) \<inter> insert pgdir (set xs) = {}"
    and "\<forall>v \<in> set (table_list s pgdir is). kpage s v \<and> ref_count s v \<le> 1"
  shows "\<exists>s'. for_each (\<lambda>i s.
            let pde = load32 (mem s) (pgdir + 4 * of_nat i)
            in if pde AND PTE_P \<noteq> 0
               then andthen (kfree (P2V (PTE_ADDR pde)) s) (\<lambda>s. Inr (Next s))
               else Inr (Next s)) is s = Inr (Next s' :: (unit, _) flow)
    \<and> free_inv s' (rev (table_list s pgdir is) @ xs)
    \<and> ref_counts s' = ref_counts s \<and> kern_end s' = kern_end s \<and> use_lock s' = use_lock s
    \<and> kmem_state.more s' = kmem_state.more s"
  using assms(1,3-6)
proof (induction "is" arbitrary: s xs)
  case Nil
  then show ?case
    by (simp add: table_list_def)
next
  case (Cons i "is")
  show ?case
  proof (cases "pde_at s pgdir i AND PTE_P = 0")
    case True
    then have "table_list s pgdir (i # is) = table_list s pgdir is"
      by (simp add: table_list_def)
    then show ?thesis
      using Cons.IH [OF Cons.prems(1)] Cons.prems(2-5) True by (simp add: pde_at_def)
  next
    case False
    let ?v = "table_at s pgdir i"
    have split: "table_list s pgdir (i # is) = ?v # table_list s pgdir is"
      using False by (simp add: table_list_def)
    have v: "kpage s ?v" "?v \<notin> set xs" "ref_count s ?v \<le> 1" "?v \<noteq> pgdir"
      using Cons.prems(4,5) by (auto simp: split)
    obtain s1 where s1: "kfree ?v s = Inr s1" "free_inv s1 (?v # xs)"
      "\<forall>x. PGROUNDDOWN x \<noteq> ?v \<longrightarrow> mem s1 x = mem s x"
      "ref_counts s1 = ref_counts s" "kern_end s1 = kern_end s" "use_lock s1 = use_lock s"
      "kmem_state.more s1 = kmem_state.more s"
      using kfree_private_step [OF Cons.prems(1) v(1-3)] by blast
    have "pde_at s1 pgdir j = pde_at s pgdir j" if "j \<in> set is" for j
      using that Cons.prems(2) s1(3) v(4) by (intro pde_at_frame al) auto
    then have same: "table_list s1 pgdir is = table_list s pgdir is"
      by (auto simp: table_list_def table_at_def cong: filter_cong)
    have "kpage s1 = kpage s" "ref_count s1 = ref_count s"
      by (simp_all add: fun_eq_iff kpage_def ref_count_def s1)
    then have "\<exists>s'. for_each (\<lambda>i s.
            let pde = load32 (mem s) (pgdir + 4 * of_nat i)
            in if pde AND PTE_P \<noteq> 0
               then andthen (kfree (P2V (PTE_ADDR pde)) s) (\<lambda>s. Inr (Next s))
               else Inr (Next s)) is s1 = Inr (Next s' :: (unit, _) flow)
      \<and> free_inv s' (rev (table_list s1 pgdir is) @ ?v # xs)
      \<and> ref_counts s' = ref_counts s1 \<and> kern_end s' = kern_end s1 \<and> use_lock s' = use_lock s1
      \<and> kmem_state.more s' = kmem_state.more s1"
      using Cons.prems(2-5) by (intro Cons.IH [OF s1(2)]) (auto simp: split same)
    moreover have "load32 (mem s) (pgdir + 4 * of_nat i) AND PTE_P \<noteq> 0"
      "kfree (P2V (PTE_ADDR (load32 (mem s) (pgdir + 4 * of_nat i)))) s = Inr s1"
      using False s1(1) by (simp_all add: pde_at_def table_at_def)
    ultimately show ?thesis
      using s1(4-7) by (simp add: split same Let_def)
  qed
qed

lemma table_of_at:
  "table_of s pgdir va =
    (if pde_at s pgdir (unat (PDX va)) AND PTE_P \<noteq> 0 then Some (table_at s pgdir (unat (PDX va))) else None)"
  by (simp add: table_of_def pde_of_def pde_at_def table_at_def)

lemma PDX_index:
  assumes "i < 1024"
  shows "unat (PDX (PGADDR (of_nat i) 0 0)) = i"
proof -
  have "(of_nat i :: u32) < 1024"
    using assms by (simp add: word_less_nat_alt unat_of_nat)
  then show ?thesis
    using PGADDR_parts(1) [of "of_nat i" 0 0] assms by (simp add: unat_of_nat)
qed

lemma table_list_all:
  assumes "pgdir_wf s pgdir xs"
  shows "set (table_list s pgdir [0..<1024]) = owned s pgdir - {pgdir}"
    and "distinct (table_list s pgdir [0..<1024])"
proof -
  have some: "table_of s pgdir (PGADDR (of_nat i) 0 0) = Some (table_at s pgdir i)"
    if "i < 1024" "pde_at s pgdir i AND PTE_P \<noteq> 0" for i
    using that by (simp add: table_of_at PDX_index)
  have ne: "\<forall>va. table_of s pgdir va \<noteq> Some pgdir"
    using assms by (simp add: pgdir_wf_def)
  show "set (table_list s pgdir [0..<1024]) = owned s pgdir - {pgdir}"
  proof (intro set_eqI iffI)
    fix t
    assume "t \<in> set (table_list s pgdir [0..<1024])"
    then obtain i where "i < 1024" "pde_at s pgdir i AND PTE_P \<noteq> 0" "t = table_at s pgdir i"
      by (auto simp: table_list_def)
    then have "table_of s pgdir (PGADDR (of_nat i) 0 0) = Some t"
      using some by simp
    then show "t \<in> owned s pgdir - {pgdir}"
      using ne by (auto simp: owned_def)
  next
    fix t
    assume "t \<in> owned s pgdir - {pgdir}"
    then obtain va where "table_of s pgdir va = Some t"
      by (auto simp: owned_def)
    then show "t \<in> set (table_list s pgdir [0..<1024])"
      using PDX_bound [of va] by (auto simp: table_of_at table_list_def split: if_splits)
  qed
  have "i = j" if "i < 1024" "j < 1024" "pde_at s pgdir i AND PTE_P \<noteq> 0" "pde_at s pgdir j AND PTE_P \<noteq> 0"
      "table_at s pgdir i = table_at s pgdir j" for i j
    using pgdir_wf_tables [OF assms some [OF that(1,3)]] some [OF that(2,4)] that(5)
      PDX_index [OF that(1)] PDX_index [OF that(2)] by metis
  then show "distinct (table_list s pgdir [0..<1024])"
    by (auto simp: table_list_def distinct_map inj_on_def)
qed

lemma freevm_spec:
  assumes wf: "pgdir_wf s pgdir xs" and ke: "KERNBASE < kern_end s" and ok: "leaves_ok s pgdir 0 KERNBASE xs"
    and ref: "\<forall>p \<in> owned s pgdir. ref_count s p \<le> 1"
  shows "\<exists>s' ys. freevm pgdir s = Inr s' \<and> free_inv s' (ys @ xs)
    \<and> set ys = owned s pgdir \<union> private_leaves s pgdir 0 KERNBASE
    \<and> ref_counts s' = ref_counts s \<and> kern_end s' = kern_end s \<and> use_lock s' = use_lock s
    \<and> kmem_state.more s' = kmem_state.more s"
proof -
  obtain s1 ys where s1: "deallocuvm_loop pgdir 0 KERNBASE s = Inr s1"
    and post: "dealloc_post pgdir 0 KERNBASE s xs s1 ys"
    using deallocuvm_loop_spec [OF wf _ _ ke ok] by auto
  have up: "PGROUNDUP 0 = 0"
    by (simp add: PGROUNDUP_def)
  have d: "deallocuvm pgdir KERNBASE 0 s = Inr (0, s1)"
    using s1 by (simp add: deallocuvm_def up)
  note P = post [unfolded dealloc_post_def]
  have wf1: "pgdir_wf s1 pgdir (ys @ xs)" and own: "owned s1 pgdir = owned s pgdir"
    and ref1: "ref_counts s1 = ref_counts s"
    using P by simp_all
  note tl = table_list_all [OF wf1]
  have "kpage s1 p" "p \<notin> set (ys @ xs)" "ref_count s1 p \<le> 1" if "p \<in> owned s pgdir" for p
    using that wf1 ref own pgdir_wf_not_free [OF wf1] by (simp_all add: pgdir_wf_def ref_count_def ref1)
  note o = this
  have al: "page_aligned pgdir"
    using wf by (auto intro: pgdir_wf_aligned)
  have "\<exists>s'. for_each (\<lambda>i s.
            let pde = load32 (mem s) (pgdir + 4 * of_nat i)
            in if pde AND PTE_P \<noteq> 0
               then andthen (kfree (P2V (PTE_ADDR pde)) s) (\<lambda>s. Inr (Next s))
               else Inr (Next s)) [0..<1024] s1 = Inr (Next s' :: (unit, _) flow)
    \<and> free_inv s' (rev (table_list s1 pgdir [0..<1024]) @ ys @ xs)
    \<and> ref_counts s' = ref_counts s1 \<and> kern_end s' = kern_end s1 \<and> use_lock s' = use_lock s1
    \<and> kmem_state.more s' = kmem_state.more s1"
    using o by (intro free_tables pgdir_wf_free [OF wf1] al tl(2)) (auto simp: tl(1) own)
  then obtain s2 where s2: "for_each (\<lambda>i s.
            let pde = load32 (mem s) (pgdir + 4 * of_nat i)
            in if pde AND PTE_P \<noteq> 0
               then andthen (kfree (P2V (PTE_ADDR pde)) s) (\<lambda>s. Inr (Next s))
               else Inr (Next s)) [0..<1024] s1 = Inr (Next s2 :: (unit, _) flow)"
    "free_inv s2 (rev (table_list s1 pgdir [0..<1024]) @ ys @ xs)"
    "ref_counts s2 = ref_counts s1" "kern_end s2 = kern_end s1" "use_lock s2 = use_lock s1"
    "kmem_state.more s2 = kmem_state.more s1"
    by blast
  have kp: "kpage s2 pgdir" "ref_count s2 pgdir \<le> 1"
    using o(1,3) [of pgdir] s2(3,4) by (simp_all add: kpage_def ref_count_def)
  have nf: "pgdir \<notin> set (rev (table_list s1 pgdir [0..<1024]) @ ys @ xs)"
    using o(2) [of pgdir] by (simp add: tl(1))
  obtain s3 where s3: "kfree pgdir s2 = Inr s3"
    "free_inv s3 (pgdir # rev (table_list s1 pgdir [0..<1024]) @ ys @ xs)"
    "ref_counts s3 = ref_counts s2" "kern_end s3 = kern_end s2" "use_lock s3 = use_lock s2"
    "kmem_state.more s3 = kmem_state.more s2"
    using kfree_private_step [OF s2(2) kp(1) nf kp(2)] by blast
  have "pgdir \<noteq> 0"
    using kpage_nonzero [OF kp(1)] .
  then have "freevm pgdir s = Inr s3"
    using d s2(1) s3(1) by (simp add: freevm_def)
  moreover have "set (pgdir # rev (table_list s1 pgdir [0..<1024]) @ ys)
      = owned s pgdir \<union> private_leaves s pgdir 0 KERNBASE"
    using P by (auto simp: tl(1) own)
  ultimately show ?thesis
    using P s2(3-6) s3(2-6)
    by (intro exI [of _ s3] exI [of _ "pgdir # rev (table_list s1 pgdir [0..<1024]) @ ys"]) simp
qed

section \<open>Properties\<close>

lemma cow_present: "present cow_state 0x80400000 va \<longleftrightarrow> va < 0x2000"
proof (cases "va < 0x2000")
  case True
  then show ?thesis
    by (simp add: present_def cow_pte)
next
  case False
  have "pte_of cow_state 0x80400000 va = 0"
  proof (cases "PDX va = 0")
    case True
    then have "unat va div 4194304 = 0"
      using unat_PDX [of va] by simp
    then have "2 \<le> unat (PTX va)"
      using False by (simp add: unat_PTX word_less_nat_alt)
    then have "cow_words (0x80401000 + 4 * PTX va) = 0"
      using slot_less [OF PTX_bound, of va] PTX_bound [of va]
      by (auto simp: cow_words_def word_le_nat_alt word_less_nat_alt unat_word_ariths dest: arg_cong [of _ _ unat])
    then show ?thesis
      using True by (simp add: pte_of_def cow_table load32_words slot_simps)
  qed (simp add: pte_of_def cow_table)
  with False show ?thesis
    by (simp add: present_def)
qed

lemma cow_leaf: "va < 0x2000 \<Longrightarrow> leaf cow_state 0x80400000 va = (if va < PGSIZE then 0x80402000 else 0x80403000)"
  by (simp add: leaf_def cow_pte PTE_ADDR_def P2V_def)

lemma cow_leaves: "leaves_ok cow_state 0x80400000 0 KERNBASE (pages 0x80404000 3000)"
proof -
  have "PDX 0 = 0"
    by (simp add: PDX_def)
  then have own: "owned cow_state 0x80400000 = {0x80400000, 0x80401000}"
    by (auto simp: owned_def cow_table split: if_splits intro!: exI [of _ 0])
  have same: "PGROUNDDOWN a = PGROUNDDOWN b"
    if "a < 0x2000" "b < 0x2000" "leaf cow_state 0x80400000 a = leaf cow_state 0x80400000 b" for a b
  proof -
    have "a < PGSIZE \<longleftrightarrow> b < PGSIZE"
      using that by (simp add: cow_leaf split: if_splits)
    moreover have "unat a div 4096 = (if a < PGSIZE then 0 else 1)" "unat b div 4096 = (if b < PGSIZE then 0 else 1)"
      using that(1,2) by (auto simp: word_less_nat_alt)
    ultimately show ?thesis
      by (intro word_unat_eqI) (simp add: unat_PGROUNDDOWN)
  qed
  show ?thesis
    unfolding leaves_ok_def cow_present
  proof (intro conjI allI impI)
    fix va :: addr
    assume va: "va < 0x2000"
    show "kpage cow_state (leaf cow_state 0x80400000 va)"
      "leaf cow_state 0x80400000 va \<notin> owned cow_state 0x80400000"
      "leaf cow_state 0x80400000 va \<notin> set (pages 0x80404000 3000)"
      using va by (simp_all add: cow_leaf own kpage_def V2P_def set_pages)
  qed (rule same)
qed

text \<open>
  C9. \<^verbatim>\<open>deallocuvm\<close> on user memory returns, without a panic, and clears every present entry between
  the two sizes and no other one. It puts on the free list exactly the pages of that range that
  are not shared (reference count at most one), and it leaves every reference count as it is.
\<close>

theorem deallocuvm_frees_range:
  assumes "pgdir_wf s pgdir xs" and "oldsz \<le> KERNBASE" and "newsz < oldsz" and "KERNBASE < kern_end s"
    and "leaves_ok s pgdir (PGROUNDUP newsz) oldsz xs"
  shows "\<exists>s' ys. deallocuvm pgdir oldsz newsz s = Inr (newsz, s') \<and> pgdir_wf s' pgdir (ys @ xs)
    \<and> pte_of s' pgdir = unmap_range (PGROUNDUP newsz) oldsz (pte_of s pgdir)
    \<and> set ys = private_leaves s pgdir (PGROUNDUP newsz) oldsz \<and> ref_counts s' = ref_counts s"
proof -
  obtain s' ys where "deallocuvm_loop pgdir (PGROUNDUP newsz) oldsz s = Inr s'"
    and "dealloc_post pgdir (PGROUNDUP newsz) oldsz s xs s' ys"
    using deallocuvm_loop_spec [OF assms(1) _ assms(2,4,5)] by auto
  then show ?thesis
    using assms(3) by (auto simp: deallocuvm_def dealloc_post_def not_le [symmetric])
qed

theorem deallocuvm_frees_range_witness:
  "\<exists>s' ys. deallocuvm 0x80400000 0x2000 0 cow_state = Inr (0, s')
    \<and> pgdir_wf s' 0x80400000 (ys @ pages 0x80404000 3000) \<and> pte_of s' 0x80400000 0x1000 = 0
    \<and> set ys = private_leaves cow_state 0x80400000 0 0x2000 \<and> 0x80402000 \<in> set ys"
proof -
  have up: "PGROUNDUP 0 = 0"
    by (simp add: PGROUNDUP_def)
  have "leaves_ok cow_state 0x80400000 0 0x2000 (pages 0x80404000 3000)"
    by (rule leaves_ok_mono [OF cow_leaves]) (auto simp: in_range_def word_less_nat_alt)
  moreover have "unmap_range 0 0x2000 (pte_of cow_state 0x80400000) 0x1000 = 0"
    by (simp add: unmap_range_def in_range_def cow_pte PGROUNDDOWN_def)
  moreover have "0x80402000 \<in> private_leaves cow_state 0x80400000 0 0x2000"
    unfolding private_leaves_def
    by (rule CollectI, rule exI [of _ 0]) (simp add: cow_leaf cow_present in_range_def PGROUNDDOWN_def ref_count_def)
  moreover have "(0x2000 :: addr) \<le> KERNBASE" "(0 :: addr) < 0x2000" "KERNBASE < kern_end cow_state"
    by simp_all
  ultimately show ?thesis
    using deallocuvm_frees_range [OF cow_wf, of "0x2000" 0] unfolding up by metis
qed

text \<open>
  C10. \<^verbatim>\<open>freevm\<close> returns, without a panic, every page of an address space to the free list exactly
  once: the directory, its page tables and the user pages that are not shared. It never touches
  a reference count, so a page that copy-on-write left with more than one reference is neither
  freed nor counted down when an address space that maps it goes away.
\<close>

theorem freevm_returns_every_page:
  assumes "pgdir_wf s pgdir xs" and "KERNBASE < kern_end s" and "leaves_ok s pgdir 0 KERNBASE xs"
    and "\<forall>p \<in> owned s pgdir. ref_count s p \<le> 1"
  shows "\<exists>s' ys. freevm pgdir s = Inr s' \<and> free_inv s' (ys @ xs)
    \<and> set ys = owned s pgdir \<union> private_leaves s pgdir 0 KERNBASE
    \<and> ref_counts s' = ref_counts s"
  using freevm_spec [OF assms] by blast

theorem freevm_returns_every_page_witness:
  "\<exists>s' ys. freevm 0x80400000 cow_state = Inr s' \<and> free_inv s' (ys @ pages 0x80404000 3000)
    \<and> set ys = owned cow_state 0x80400000 \<union> private_leaves cow_state 0x80400000 0 KERNBASE
    \<and> ref_counts s' = ref_counts cow_state"
  by (rule freevm_returns_every_page [OF cow_wf _ cow_leaves]) (simp_all add: ref_count_def)

end
