(* ===== verification/Spinlock.thy ===== *)
theory Spinlock
  imports Vm
begin

text \<open>
  CPUs, interrupts and spin locks: \<^verbatim>\<open>spinlock.c\<close> and \<^verbatim>\<open>mycpu\<close> of \<^verbatim>\<open>proc.c\<close>. First each function as
  it runs on one CPU, then the instructions of \<^verbatim>\<open>acquire\<close> and \<^verbatim>\<open>release\<close> as a step relation in
  which the CPUs interleave, for mutual exclusion.
\<close>

section \<open>CPUs and the interrupt flag\<close>

text \<open>
  \<open>hw_if c\<close> is the interrupt flag in the \<^verbatim>\<open>eflags\<close> of CPU \<open>c\<close> and \<open>lapic c\<close> what \<^verbatim>\<open>lapicid()\<close> reads
  on it. The rest is \<^verbatim>\<open>struct cpu\<close>, with the descriptors and the fields of the task state that the
  kernel writes; \<open>task_reg\<close> is the register \<^verbatim>\<open>ltr\<close> loads and \<open>ts_addr\<close> the address of the field
  \<^verbatim>\<open>ts\<close>.
\<close>

record cpu =
  apicid :: u8
  ncli :: u32
  intena :: bool
  cproc :: "nat option"
  gdt :: "nat \<Rightarrow> segdesc"
  ts_ss0 :: u16
  ts_esp0 :: u32
  ts_iomb :: u16
  ts_addr :: addr
  task_reg :: u16

record smp_state = vm_state +
  cpus :: "nat \<Rightarrow> cpu"
  ncpu :: nat
  hw_if :: "nat \<Rightarrow> bool"
  lapic :: "nat \<Rightarrow> u8"

definition upd_cpu :: "nat \<Rightarrow> (cpu \<Rightarrow> cpu) \<Rightarrow> 'a smp_state_scheme \<Rightarrow> 'a smp_state_scheme" where
  "upd_cpu i f s = s\<lparr>cpus := (cpus s)(i := f (cpus s i))\<rparr>"

definition cli :: "nat \<Rightarrow> 'a smp_state_scheme \<Rightarrow> 'a smp_state_scheme" where
  "cli c s = s\<lparr>hw_if := (hw_if s)(c := False)\<rparr>"

definition sti :: "nat \<Rightarrow> 'a smp_state_scheme \<Rightarrow> 'a smp_state_scheme" where
  "sti c s = s\<lparr>hw_if := (hw_if s)(c := True)\<rparr>"

definition mycpu :: "nat \<Rightarrow> 'a smp_state_scheme \<Rightarrow> nat result" where
  "mycpu c s =
     (if hw_if s c then Inl (Panic ''mycpu called with interrupts enabled'')
      else case find (\<lambda>i. apicid (cpus s i) = lapic s c) [0..<ncpu s] of
             Some i \<Rightarrow> Inr i
           | None \<Rightarrow> Inl (Panic ''unknown apicid''))"

definition pushcli :: "nat \<Rightarrow> 'a smp_state_scheme \<Rightarrow> 'a smp_state_scheme result" where
  "pushcli c s =
     (let eflags = hw_if s c;
          s = cli c s
      in andthen (mycpu c s) (\<lambda>i.
           let s = (if ncli (cpus s i) = 0 then upd_cpu i (\<lambda>k. k\<lparr>intena := eflags\<rparr>) s else s)
           in Inr (upd_cpu i (\<lambda>k. k\<lparr>ncli := ncli k + 1\<rparr>) s)))"

definition popcli :: "nat \<Rightarrow> 'a smp_state_scheme \<Rightarrow> 'a smp_state_scheme result" where
  "popcli c s =
     (if hw_if s c then Inl (Panic ''popcli - interruptible'')
      else andthen (mycpu c s) (\<lambda>i.
        let s = upd_cpu i (\<lambda>k. k\<lparr>ncli := ncli k - 1\<rparr>) s
        in if ncli (cpus s i) <s 0 then Inl (Panic ''popcli'')
           else if ncli (cpus s i) = 0 \<and> intena (cpus s i) then Inr (sti c s)
           else Inr s))"

definition myproc :: "nat \<Rightarrow> 'a smp_state_scheme \<Rightarrow> (nat option \<times> 'a smp_state_scheme) result" where
  "myproc c s =
     andthen (pushcli c s) (\<lambda>s.
     andthen (mycpu c s) (\<lambda>i.
       let p = cproc (cpus s i)
       in andthen (popcli c s) (\<lambda>s. Inr (p, s))))"

section \<open>Spin locks\<close>

text \<open>
  The debugging fields \<^verbatim>\<open>name\<close> and \<^verbatim>\<open>pcs\<close> are left out. \<open>Inr None\<close> is an \<^verbatim>\<open>xchg\<close> that found the lock
  taken: the CPU goes on spinning with its interrupts off.
\<close>

record spinlock =
  locked :: u32
  lk_cpu :: "nat option"

definition initlock :: spinlock where
  "initlock = \<lparr>locked = 0, lk_cpu = None\<rparr>"

definition holding ::
  "nat \<Rightarrow> spinlock \<Rightarrow> 'a smp_state_scheme \<Rightarrow> (bool \<times> 'a smp_state_scheme) result" where
  "holding c lk s =
     andthen (pushcli c s) (\<lambda>s.
     andthen (mycpu c s) (\<lambda>i.
       let r = (locked lk \<noteq> 0 \<and> lk_cpu lk = Some i)
       in andthen (popcli c s) (\<lambda>s. Inr (r, s))))"

definition xchg :: "u32 \<Rightarrow> u32 \<Rightarrow> u32 \<times> u32" where
  "xchg old newval = (old, newval)"

definition acquire ::
  "nat \<Rightarrow> spinlock \<Rightarrow> 'a smp_state_scheme \<Rightarrow> (spinlock option \<times> 'a smp_state_scheme) result" where
  "acquire c lk s =
     andthen (pushcli c s) (\<lambda>s.
     andthen (holding c lk s) (\<lambda>(h, s).
       if h then Inl (Panic ''acquire'')
       else
         let (old, new) = xchg (locked lk) 1;
             lk = lk\<lparr>locked := new\<rparr>
         in if old \<noteq> 0 then Inr (None, s)
            else andthen (mycpu c s) (\<lambda>i. Inr (Some (lk\<lparr>lk_cpu := Some i\<rparr>), s))))"

definition release ::
  "nat \<Rightarrow> spinlock \<Rightarrow> 'a smp_state_scheme \<Rightarrow> (spinlock \<times> 'a smp_state_scheme) result" where
  "release c lk s =
     andthen (holding c lk s) (\<lambda>(h, s).
       if \<not> h then Inl (Panic ''release'')
       else
         let lk = lk\<lparr>lk_cpu := None\<rparr>;
             lk = lk\<lparr>locked := 0\<rparr>
         in andthen (popcli c s) (\<lambda>s. Inr (lk, s)))"

section \<open>Nesting of pushcli and popcli\<close>

text \<open>Every CPU finds its own entry of the table.\<close>

definition cpus_ok :: "'a smp_state_scheme \<Rightarrow> bool" where
  "cpus_ok s \<longleftrightarrow> (\<forall>i < ncpu s. lapic s i = apicid (cpus s i))
     \<and> inj_on (\<lambda>i. apicid (cpus s i)) {..<ncpu s}"

lemma cpus_ok_cong:
  "ncpu s' = ncpu s \<Longrightarrow> lapic s' = lapic s \<Longrightarrow> (\<And>i. apicid (cpus s' i) = apicid (cpus s i)) \<Longrightarrow>
   cpus_ok s' = cpus_ok s"
  by (simp add: cpus_ok_def)

lemma mycpu_self:
  assumes "cpus_ok s" and "c < ncpu s" and "\<not> hw_if s c"
  shows "mycpu c s = Inr c"
proof -
  have id: "lapic s c = apicid (cpus s c)" and inj: "inj_on (\<lambda>i. apicid (cpus s i)) {..<ncpu s}"
    using assms by (simp_all add: cpus_ok_def)
  have "find (\<lambda>i. apicid (cpus s i) = lapic s c) [0..<ncpu s] = Some c"
  proof (subst find_Some_iff, intro exI [of _ c] conjI allI impI)
    fix j
    assume "j < c"
    then show "apicid (cpus s ([0..<ncpu s] ! j)) \<noteq> lapic s c"
      using inj_onD [OF inj, of j c] assms(2) id by auto
  qed (use assms id in auto)
  then show ?thesis
    using assms(3) by (simp add: mycpu_def)
qed

lemma pushcli_eq:
  assumes "cpus_ok s" and "c < ncpu s"
  shows "pushcli c s = Inr (s\<lparr>hw_if := (hw_if s)(c := False), cpus := (cpus s)(c := (cpus s c)\<lparr>
    intena := (if ncli (cpus s c) = 0 then hw_if s c else intena (cpus s c)),
    ncli := ncli (cpus s c) + 1\<rparr>)\<rparr>)"
proof -
  have "cpus_ok (cli c s) = cpus_ok s"
    by (rule cpus_ok_cong) (simp_all add: cli_def)
  then have "mycpu c (cli c s) = Inr c"
    using assms by (intro mycpu_self) (simp_all add: cli_def)
  then show ?thesis
    by (simp add: pushcli_def Let_def cli_def upd_cpu_def)
qed

lemma popcli_eq:
  assumes "cpus_ok s" and "c < ncpu s" and "\<not> hw_if s c" and "0 < ncli (cpus s c)" "unat (ncli (cpus s c)) < 2 ^ 31"
  shows "popcli c s = Inr (s\<lparr>hw_if := (hw_if s)(c := ncli (cpus s c) = 1 \<and> intena (cpus s c)),
    cpus := (cpus s)(c := (cpus s c)\<lparr>ncli := ncli (cpus s c) - 1\<rparr>)\<rparr>)"
proof -
  let ?n = "ncli (cpus s c)"
  have "1 \<le> ?n"
    using assms(4) by (simp add: word_le_nat_alt word_less_nat_alt)
  then have "unat (?n - 1) < 2 ^ 31"
    using assms(5) by (simp add: unat_sub)
  then have "\<not> ?n - 1 <s 0"
    by (simp add: sless_zero_iff)
  moreover have "?n - 1 = 0 \<longleftrightarrow> ?n = 1"
    by (rule right_minus_eq)
  ultimately show ?thesis
    using assms(3) mycpu_self [OF assms(1-3)]
    by (auto simp: popcli_def Let_def upd_cpu_def sti_def fun_eq_iff)
qed

text \<open>
  The abstract state of one CPU: how many \<^verbatim>\<open>pushcli\<close> are open, and whether interrupts were on
  before the first.
\<close>

definition cli_state :: "nat \<Rightarrow> 'a smp_state_scheme \<Rightarrow> nat \<Rightarrow> bool \<Rightarrow> bool" where
  "cli_state c s n ena \<longleftrightarrow> cpus_ok s \<and> c < ncpu s \<and> n < 2 ^ 31 \<and> unat (ncli (cpus s c)) = n
     \<and> (if n = 0 then hw_if s c = ena else \<not> hw_if s c \<and> intena (cpus s c) = ena)"

lemma pushcli_cli_state:
  assumes "cli_state c s n ena" and "Suc n < 2 ^ 31"
  shows "\<exists>s'. pushcli c s = Inr s' \<and> cli_state c s' (Suc n) ena"
proof -
  have ok: "cpus_ok s" "c < ncpu s" and n: "unat (ncli (cpus s c)) = n"
    using assms(1) by (simp_all add: cli_state_def)
  obtain s' where s': "pushcli c s = Inr s'"
    using pushcli_eq [OF ok] by blast
  have "cpus_ok s' = cpus_ok s"
    using s' pushcli_eq [OF ok] by (intro cpus_ok_cong) auto
  moreover have "unat (ncli (cpus s c) + 1) = Suc n"
    using n assms(2) by (simp add: unat_word_ariths)
  moreover have "ncli (cpus s c) = 0 \<longleftrightarrow> n = 0"
    using n by (auto simp: unat_eq_zero)
  ultimately show ?thesis
    using assms ok s' pushcli_eq [OF ok] by (auto simp: cli_state_def)
qed

lemma popcli_cli_state:
  assumes "cli_state c s (Suc n) ena"
  shows "\<exists>s'. popcli c s = Inr s' \<and> cli_state c s' n ena"
proof -
  have ok: "cpus_ok s" "c < ncpu s" "\<not> hw_if s c" and n: "unat (ncli (cpus s c)) = Suc n" "Suc n < 2 ^ 31"
    and ena: "intena (cpus s c) = ena"
    using assms by (simp_all add: cli_state_def)
  have pos: "0 < ncli (cpus s c)"
    using n(1) by (simp add: word_less_nat_alt)
  note eq = popcli_eq [OF ok pos]
  obtain s' where s': "popcli c s = Inr s'"
    using eq n by auto
  have "cpus_ok s' = cpus_ok s"
    using s' eq n by (intro cpus_ok_cong) auto
  moreover have "unat (ncli (cpus s c) - 1) = n"
    using n(1) pos by (simp add: unat_sub word_le_nat_alt)
  moreover have "ncli (cpus s c) = 1 \<longleftrightarrow> n = 0"
    using n(1) by (auto simp: word_unat_eqI)
  ultimately show ?thesis
    using ok ena s' eq n(1,2) by (auto simp: cli_state_def)
qed

text \<open>A sequence of nested sections: \<open>True\<close> for \<^verbatim>\<open>pushcli\<close>, \<open>False\<close> for \<^verbatim>\<open>popcli\<close>.\<close>

primrec cli_run :: "nat \<Rightarrow> bool list \<Rightarrow> 'a smp_state_scheme \<Rightarrow> 'a smp_state_scheme result" where
  "cli_run c [] s = Inr s"
| "cli_run c (b # bs) s = andthen (if b then pushcli c s else popcli c s) (cli_run c bs)"

primrec depth :: "nat \<Rightarrow> bool list \<Rightarrow> nat option" where
  "depth n [] = Some n"
| "depth n (b # bs) = (if b then depth (Suc n) bs else if n = 0 then None else depth (n - 1) bs)"

lemma cli_run_depth:
  "cli_state c s n ena \<Longrightarrow> depth n bs = Some m \<Longrightarrow> n + length bs < 2 ^ 31 \<Longrightarrow>
   \<exists>s'. cli_run c bs s = Inr s' \<and> cli_state c s' m ena"
proof (induction bs arbitrary: n s)
  case (Cons b bs)
  show ?case
  proof (cases b)
    case True
    then obtain s1 where "pushcli c s = Inr s1" "cli_state c s1 (Suc n) ena"
      using pushcli_cli_state [OF Cons.prems(1)] Cons.prems(3) by auto
    then show ?thesis
      using Cons.IH [of s1 "Suc n"] Cons.prems True by auto
  next
    case False
    then obtain k where k: "n = Suc k"
      using Cons.prems(2) by (cases n) auto
    then obtain s1 where "popcli c s = Inr s1" "cli_state c s1 k ena"
      using popcli_cli_state Cons.prems(1) by blast
    then show ?thesis
      using Cons.IH [of s1 k] Cons.prems False k by auto
  qed
qed auto

section \<open>Interleaved CPUs\<close>

text \<open>
  Where a CPU stands in \<^verbatim>\<open>acquire\<close> or \<^verbatim>\<open>release\<close>; one step is one access to the shared fields of
  the lock. \<open>Holding1\<close> tests \<^verbatim>\<open>holding\<close> in \<^verbatim>\<open>acquire\<close>, \<open>Spin\<close> executes the \<^verbatim>\<open>xchg\<close>, \<open>SetCpu\<close> records the
  owner, \<open>Inside\<close> is the critical section, \<open>Holding2\<close> tests \<^verbatim>\<open>holding\<close> in \<^verbatim>\<open>release\<close>, \<open>ClearCpu\<close> and
  \<open>Unlock\<close> are its two stores.
\<close>

datatype lk_pc = Outside | Holding1 | Spin | SetCpu | Inside | Holding2 | ClearCpu | Unlock | Panicked

record lk_sys =
  lk :: spinlock
  pc :: "nat \<Rightarrow> lk_pc"

definition held :: "nat \<Rightarrow> spinlock \<Rightarrow> bool" where
  "held c l \<longleftrightarrow> locked l \<noteq> 0 \<and> lk_cpu l = Some c"

definition goto :: "nat \<Rightarrow> lk_pc \<Rightarrow> lk_sys \<Rightarrow> lk_sys" where
  "goto c k s = s\<lparr>pc := (pc s)(c := k)\<rparr>"

inductive lk_step :: "lk_sys \<Rightarrow> lk_sys \<Rightarrow> bool" where
  call_acquire: "pc s c = Outside \<Longrightarrow> lk_step s (goto c Holding1 s)"
| not_holding: "pc s c = Holding1 \<Longrightarrow> \<not> held c (lk s) \<Longrightarrow> lk_step s (goto c Spin s)"
| panic_acquire: "pc s c = Holding1 \<Longrightarrow> held c (lk s) \<Longrightarrow> lk_step s (goto c Panicked s)"
| spin: "pc s c = Spin \<Longrightarrow> xchg (locked (lk s)) 1 = (old, new) \<Longrightarrow> old \<noteq> 0 \<Longrightarrow>
    lk_step s (s\<lparr>lk := (lk s)\<lparr>locked := new\<rparr>\<rparr>)"
| win: "pc s c = Spin \<Longrightarrow> xchg (locked (lk s)) 1 = (old, new) \<Longrightarrow> old = 0 \<Longrightarrow>
    lk_step s (goto c SetCpu (s\<lparr>lk := (lk s)\<lparr>locked := new\<rparr>\<rparr>))"
| set_cpu: "pc s c = SetCpu \<Longrightarrow> lk_step s (goto c Inside (s\<lparr>lk := (lk s)\<lparr>lk_cpu := Some c\<rparr>\<rparr>))"
| call_release: "pc s c = Inside \<Longrightarrow> lk_step s (goto c Holding2 s)"
| is_holding: "pc s c = Holding2 \<Longrightarrow> held c (lk s) \<Longrightarrow> lk_step s (goto c ClearCpu s)"
| panic_release: "pc s c = Holding2 \<Longrightarrow> \<not> held c (lk s) \<Longrightarrow> lk_step s (goto c Panicked s)"
| clear_cpu: "pc s c = ClearCpu \<Longrightarrow> lk_step s (goto c Unlock (s\<lparr>lk := (lk s)\<lparr>lk_cpu := None\<rparr>\<rparr>))"
| unlock: "pc s c = Unlock \<Longrightarrow> lk_step s (goto c Outside (s\<lparr>lk := (lk s)\<lparr>locked := 0\<rparr>\<rparr>))"

inductive lk_reachable :: "lk_sys \<Rightarrow> bool" where
  lk_start: "lk_reachable \<lparr>lk = initlock, pc = (\<lambda>_. Outside)\<rparr>"
| lk_next: "lk_reachable s \<Longrightarrow> lk_step s t \<Longrightarrow> lk_reachable t"

text \<open>
  The owner is the CPU between its successful \<^verbatim>\<open>xchg\<close> and its unlocking store; while it has its
  number in \<^verbatim>\<open>lk->cpu\<close>, and only then, \<^verbatim>\<open>holding\<close> is true for it.
\<close>

definition owner :: "lk_sys \<Rightarrow> nat \<Rightarrow> bool" where
  "owner s c \<longleftrightarrow> pc s c \<in> {SetCpu, Inside, Holding2, ClearCpu, Unlock}"

definition lk_inv :: "lk_sys \<Rightarrow> bool" where
  "lk_inv s \<longleftrightarrow>
     (\<forall>c d. owner s c \<longrightarrow> owner s d \<longrightarrow> c = d)
     \<and> (locked (lk s) \<noteq> 0 \<longleftrightarrow> (\<exists>c. owner s c))
     \<and> (\<forall>c. lk_cpu (lk s) = Some c \<longleftrightarrow> pc s c \<in> {Inside, Holding2, ClearCpu})
     \<and> (\<forall>c. pc s c \<noteq> Panicked)"

lemma lk_inv_move:
  assumes inv: "lk_inv s" and k: "k \<noteq> Panicked"
    and own: "k \<in> {SetCpu, Inside, Holding2, ClearCpu, Unlock} \<longleftrightarrow> owner s c"
    and cpu: "k \<in> {Inside, Holding2, ClearCpu} \<longleftrightarrow> pc s c \<in> {Inside, Holding2, ClearCpu}"
  shows "lk_inv (goto c k s)"
proof -
  have "owner (goto c k s) = owner s"
    using own by (intro ext, rename_tac d, case_tac "d = c") (simp_all add: owner_def goto_def)
  moreover have "pc (goto c k s) d \<in> {Inside, Holding2, ClearCpu} \<longleftrightarrow> pc s d \<in> {Inside, Holding2, ClearCpu}" for d
    using cpu by (cases "d = c") (simp_all add: goto_def)
  moreover have "pc (goto c k s) d \<noteq> Panicked" for d
    using inv k by (cases "d = c") (simp_all add: goto_def lk_inv_def)
  moreover have "lk (goto c k s) = lk s"
    by (simp add: goto_def)
  ultimately show ?thesis
    using inv unfolding lk_inv_def by simp
qed

lemma lk_inv_step: "lk_step s t \<Longrightarrow> lk_inv s \<Longrightarrow> lk_inv t"
proof (induction rule: lk_step.induct)
  case (win s c old new)
  then have none: "\<not> owner s d" for d
    by (auto simp: lk_inv_def xchg_def)
  have "owner (goto c SetCpu (s\<lparr>lk := (lk s)\<lparr>locked := new\<rparr>\<rparr>)) d \<longleftrightarrow> d = c" for d
    using none [of d] by (simp add: owner_def goto_def)
  then show ?case
    using win none unfolding lk_inv_def
    by (auto simp: xchg_def goto_def owner_def split: if_splits)
next
  case (set_cpu s c)
  have own: "owner (goto c Inside (s\<lparr>lk := (lk s)\<lparr>lk_cpu := Some c\<rparr>\<rparr>)) d = owner s d" for d
    using set_cpu(1) by (simp add: owner_def goto_def)
  have "pc s d \<notin> {Inside, Holding2, ClearCpu}" if "d \<noteq> c" for d
    using set_cpu that unfolding lk_inv_def owner_def by blast
  then show ?case
    using set_cpu(2) set_cpu(1) unfolding lk_inv_def own by (auto simp: goto_def)
next
  case (clear_cpu s c)
  have own: "owner (goto c Unlock (s\<lparr>lk := (lk s)\<lparr>lk_cpu := None\<rparr>\<rparr>)) d = owner s d" for d
    using clear_cpu(1) by (simp add: owner_def goto_def)
  have "pc s d \<notin> {Inside, Holding2, ClearCpu}" if "d \<noteq> c" for d
    using clear_cpu that unfolding lk_inv_def owner_def by blast
  then show ?case
    using clear_cpu(2) clear_cpu(1) unfolding lk_inv_def own by (auto simp: goto_def)
next
  case (unlock s c)
  have "owner s c" and only: "owner s d \<Longrightarrow> d = c" for d
    using unlock unfolding lk_inv_def owner_def by blast+
  have "\<not> owner (goto c Outside (s\<lparr>lk := (lk s)\<lparr>locked := 0\<rparr>\<rparr>)) d" for d
    using only [of d] by (cases "d = c") (auto simp: owner_def goto_def)
  moreover have "pc s c \<noteq> Inside" "pc s c \<noteq> Holding2" "pc s c \<noteq> ClearCpu"
    using unlock(1) by simp_all
  ultimately show ?case
    using unlock(2) unfolding lk_inv_def by (auto simp: goto_def)
next
  case (panic_acquire s c)
  then have "pc s c \<in> {Inside, Holding2, ClearCpu}"
    unfolding lk_inv_def held_def by blast
  then show ?case
    using panic_acquire(1) by simp
next
  case (panic_release s c)
  then have "lk_cpu (lk s) = Some c" "locked (lk s) \<noteq> 0"
    unfolding lk_inv_def owner_def by blast+
  then show ?case
    using panic_release(2) by (simp add: held_def)
next
  case (spin s c old new)
  then have "new = 1" "locked (lk s) \<noteq> 0"
    by (simp_all add: xchg_def)
  then show ?case
    using spin(4) unfolding lk_inv_def owner_def by simp
qed (rule lk_inv_move; simp add: owner_def)+

lemma lk_reachable_inv: "lk_reachable s \<Longrightarrow> lk_inv s"
proof (induction rule: lk_reachable.induct)
  case lk_start
  show ?case
    by (simp add: lk_inv_def owner_def initlock_def)
next
  case (lk_next s t)
  then show ?case
    by (blast intro: lk_inv_step)
qed

section \<open>The functions take the steps\<close>

lemma mycpu_only:
  assumes "mycpu c s = Inr i" "cpus_ok s" "c < ncpu s"
  shows "i = c"
proof -
  have "\<not> hw_if s c"
    using assms(1) by (auto simp: mycpu_def split: if_splits)
  then show ?thesis
    using mycpu_self [OF assms(2,3)] assms(1) by simp
qed

lemma cli_frame:
  "pushcli c s = Inr t \<Longrightarrow> ncpu t = ncpu s \<and> lapic t = lapic s \<and> (\<forall>i. apicid (cpus t i) = apicid (cpus s i))"
  "popcli c s = Inr t \<Longrightarrow> ncpu t = ncpu s \<and> lapic t = lapic s \<and> (\<forall>i. apicid (cpus t i) = apicid (cpus s i))"
  by (auto simp: pushcli_def popcli_def upd_cpu_def cli_def sti_def Let_def andthen_eq_Inr split: if_splits)

lemma cli_keeps_cpus:
  "pushcli c s = Inr t \<Longrightarrow> cpus_ok t = cpus_ok s \<and> ncpu t = ncpu s"
  "popcli c s = Inr t \<Longrightarrow> cpus_ok t = cpus_ok s \<and> ncpu t = ncpu s"
  using cli_frame [of c s t] cpus_ok_cong [of t s] by blast+

lemma holding_held:
  assumes "holding c l s = Inr (h, t)" "cpus_ok s" "c < ncpu s"
  shows "h = held c l \<and> cpus_ok t \<and> ncpu t = ncpu s"
proof -
  obtain u i where u: "pushcli c s = Inr u" "mycpu c u = Inr i" "popcli c u = Inr t" "h = (locked l \<noteq> 0 \<and> lk_cpu l = Some i)"
    using assms(1) by (auto simp: holding_def Let_def andthen_eq_Inr)
  note k = cli_keeps_cpus(1) [OF u(1)] cli_keeps_cpus(2) [OF u(3)]
  show ?thesis
    using mycpu_only [OF u(2)] k assms(2,3) u(4) by (simp add: held_def)
qed

lemma acquire_steps:
  assumes "lk_reachable s" "pc s c = Outside" "acquire c (lk s) m = Inr (r, m')" "cpus_ok m" "c < ncpu m"
  shows "lk_reachable (case r of None \<Rightarrow> goto c Spin s | Some l \<Rightarrow> goto c Inside (s\<lparr>lk := l\<rparr>))"
proof -
  obtain u h v where u: "pushcli c m = Inr u" "holding c (lk s) u = Inr (h, v)" "\<not> h"
    using assms(3) by (auto simp: acquire_def andthen_eq_Inr split: if_splits)
  have v: "cpus_ok v" "c < ncpu v" "\<not> held c (lk s)"
    using cli_keeps_cpus(1) [OF u(1)] holding_held [OF u(2)] u(3) assms(4,5) by simp_all
  have 1: "lk_reachable (goto c Holding1 s)"
    using assms(1,2) by (rule lk_next [OF _ call_acquire])
  have 2: "lk_reachable (goto c Spin s)"
    using lk_next [OF 1 not_holding [of _ c]] v(3) by (simp add: goto_def)
  show ?thesis
  proof (cases "locked (lk s) = 0")
    case True
    then obtain i where i: "mycpu c v = Inr i" "r = Some ((lk s)\<lparr>locked := 1, lk_cpu := Some i\<rparr>)"
      using assms(3) u by (auto simp: acquire_def xchg_def andthen_eq_Inr)
    have 3: "lk_reachable (goto c SetCpu (s\<lparr>lk := (lk s)\<lparr>locked := 1\<rparr>\<rparr>))"
      using lk_next [OF 2 win [of _ c 0 1]] True by (simp add: goto_def xchg_def)
    show ?thesis
      using lk_next [OF 3 set_cpu [of _ c]] mycpu_only [OF i(1) v(1,2)] i(2) by (simp add: goto_def)
  next
    case False
    then show ?thesis
      using assms(3) u 2 by (simp add: acquire_def xchg_def)
  qed
qed

lemma release_steps:
  assumes "lk_reachable s" "pc s c = Inside" "release c (lk s) m = Inr (l, m')" "cpus_ok m" "c < ncpu m"
  shows "lk_reachable (goto c Outside (s\<lparr>lk := l\<rparr>))"
proof -
  obtain h v where h: "holding c (lk s) m = Inr (h, v)" "h" "l = (lk s)\<lparr>lk_cpu := None, locked := 0\<rparr>"
    using assms(3) by (auto simp: release_def Let_def andthen_eq_Inr split: if_splits)
  have held: "held c (lk s)"
    using holding_held [OF h(1) assms(4,5)] h(2) by simp
  have 1: "lk_reachable (goto c Holding2 s)"
    using assms(1,2) by (rule lk_next [OF _ call_release])
  have 2: "lk_reachable (goto c ClearCpu s)"
    using lk_next [OF 1 is_holding [of _ c]] held by (simp add: goto_def)
  have 3: "lk_reachable (goto c Unlock (s\<lparr>lk := (lk s)\<lparr>lk_cpu := None\<rparr>\<rparr>))"
    using lk_next [OF 2 clear_cpu [of _ c]] by (simp add: goto_def)
  show ?thesis
    using lk_next [OF 3 unlock [of _ c]] h(3) by (cases "lk s") (simp add: goto_def)
qed

section \<open>Properties\<close>

text \<open>
  C11. \<^verbatim>\<open>pushcli\<close> and \<^verbatim>\<open>popcli\<close> nest: along any sequence of calls on a CPU that never pops more than it
  has pushed, no call panics, interrupts are off as long as a section is open, and once all
  sections are closed the interrupt flag is what it was before the first.
\<close>

theorem cli_nesting:
  assumes "cpus_ok s" and "c < ncpu s" and "ncli (cpus s c) = 0"
    and "depth 0 bs = Some m" and "length bs < 2 ^ 31"
  shows "\<exists>s'. cli_run c bs s = Inr s' \<and> unat (ncli (cpus s' c)) = m
    \<and> (hw_if s' c \<longleftrightarrow> m = 0 \<and> hw_if s c)"
proof -
  have "cli_state c s 0 (hw_if s c)"
    using assms(1-3) by (simp add: cli_state_def)
  then obtain s' where "cli_run c bs s = Inr s'" "cli_state c s' m (hw_if s c)"
    using cli_run_depth assms(4,5) by fastforce
  then show ?thesis
    by (auto simp: cli_state_def split: if_splits)
qed

definition one_cpu :: smp_state where
  "one_cpu = \<lparr>mem = (\<lambda>_. 0), use_lock = True, freelist = 0, ref_counts = (\<lambda>_. 0), kern_end = 0x80115000,
     cr3 = 0, kpgdir = 0, kdata = 0x80108000, cpus = (\<lambda>_. \<lparr>apicid = 0, ncli = 0, intena = False, cproc = None, gdt = (\<lambda>_. SEG 0 0 0 0),
     ts_ss0 = 0, ts_esp0 = 0, ts_iomb = 0, ts_addr = 0, task_reg = 0\<rparr>), ncpu = 1,
     hw_if = (\<lambda>_. True), lapic = (\<lambda>_. 0)\<rparr>"

theorem cli_nesting_witness:
  "\<exists>s'. cli_run 0 [True, True, False, True, False, False] one_cpu = Inr s' \<and> hw_if s' 0"
  using cli_nesting [of one_cpu 0 "[True, True, False, True, False, False]" 0]
  by (auto simp: one_cpu_def cpus_ok_def inj_on_def)

text \<open>
  C12. Mutual exclusion: however the CPUs interleave, at most one is between its successful \<^verbatim>\<open>xchg\<close>
  in \<^verbatim>\<open>acquire\<close> and the store that unlocks in \<^verbatim>\<open>release\<close>; the lock word is nonzero exactly when
  there is such a CPU; \<^verbatim>\<open>holding\<close> is true on a CPU exactly while it may rely on the lock; and no
  CPU panics. A call of \<^verbatim>\<open>acquire\<close> or \<^verbatim>\<open>release\<close> as a whole does nothing but take such steps.
\<close>

theorem spinlock_mutual_exclusion:
  assumes "lk_reachable s"
  shows "(\<forall>c d. owner s c \<and> owner s d \<longrightarrow> c = d) \<and> (locked (lk s) \<noteq> 0 \<longleftrightarrow> (\<exists>c. owner s c))
    \<and> (\<forall>c. held c (lk s) \<longleftrightarrow> pc s c \<in> {Inside, Holding2, ClearCpu}) \<and> (\<forall>c. pc s c \<noteq> Panicked)
    \<and> (\<forall>c (m :: smp_state) r m'. pc s c = Outside \<and> cpus_ok m \<and> c < ncpu m \<and> acquire c (lk s) m = Inr (r, m')
        \<longrightarrow> lk_reachable (case r of None \<Rightarrow> goto c Spin s | Some l \<Rightarrow> goto c Inside (s\<lparr>lk := l\<rparr>)))
    \<and> (\<forall>c (m :: smp_state) l m'. pc s c = Inside \<and> cpus_ok m \<and> c < ncpu m \<and> release c (lk s) m = Inr (l, m')
        \<longrightarrow> lk_reachable (goto c Outside (s\<lparr>lk := l\<rparr>)))"
proof -
  have inv: "lk_inv s"
    using assms by (rule lk_reachable_inv)
  then have "held c (lk s) \<longleftrightarrow> pc s c \<in> {Inside, Holding2, ClearCpu}" for c
    unfolding lk_inv_def held_def owner_def by blast
  then show ?thesis
    using inv acquire_steps [OF assms] release_steps [OF assms] unfolding lk_inv_def by blast
qed

definition lk_at :: "u32 \<Rightarrow> nat option \<Rightarrow> lk_pc \<Rightarrow> lk_pc \<Rightarrow> lk_sys" where
  "lk_at l o_cpu a b = \<lparr>lk = \<lparr>locked = l, lk_cpu = o_cpu\<rparr>, pc = (\<lambda>_. Outside)(0 := a, 1 := b)\<rparr>"

theorem spinlock_mutual_exclusion_witness:
  "lk_reachable (lk_at 1 (Some 0) Inside Spin) \<and> \<not> owner (lk_at 1 (Some 0) Inside Spin) 1"
proof -
  have "\<lparr>lk = initlock, pc = (\<lambda>_. Outside)\<rparr> = lk_at 0 None Outside Outside"
    by (simp add: initlock_def lk_at_def fun_eq_iff)
  then have 0: "lk_reachable (lk_at 0 None Outside Outside)"
    using lk_start by simp
  have 1: "lk_reachable (lk_at 0 None Holding1 Outside)"
    using lk_next [OF 0 call_acquire [of _ 0]] by (simp add: lk_at_def goto_def fun_upd_twist)
  have 2: "lk_reachable (lk_at 0 None Holding1 Holding1)"
    using lk_next [OF 1 call_acquire [of _ 1]] by (simp add: lk_at_def goto_def)
  have 3: "lk_reachable (lk_at 0 None Spin Holding1)"
    using lk_next [OF 2 not_holding [of _ 0]] by (simp add: lk_at_def goto_def held_def fun_upd_twist)
  have 4: "lk_reachable (lk_at 0 None Spin Spin)"
    using lk_next [OF 3 not_holding [of _ 1]] by (simp add: lk_at_def goto_def held_def)
  have 5: "lk_reachable (lk_at 1 None SetCpu Spin)"
    using lk_next [OF 4 win [of _ 0 0 1]] by (simp add: lk_at_def goto_def xchg_def fun_upd_twist)
  have 6: "lk_reachable (lk_at 1 (Some 0) Inside Spin)"
    using lk_next [OF 5 set_cpu [of _ 0]] by (simp add: lk_at_def goto_def fun_upd_twist)
  have "owner (lk_at 1 (Some 0) Inside Spin) 0"
    by (simp add: owner_def lk_at_def)
  with spinlock_mutual_exclusion [OF 6] 6 show ?thesis
    by (metis zero_neq_one)
qed

end
