(* ===== verification/VmFrame.thy ===== *)
theory VmFrame
  imports Vm
begin

text \<open>
  What the memory allocator and the page-table functions leave alone: whatever record extends the
  state, its fields come back unchanged from every call that returns. The components above rely on
  these facts whenever one of their functions allocates, maps or frees memory.
\<close>

definition keeps :: "'a kmem_state_scheme \<Rightarrow> 'a kmem_state_scheme \<Rightarrow> bool" where
  "keeps s s' \<longleftrightarrow> kmem_state.more s' = kmem_state.more s"

lemma keeps_refl [simp]: "keeps s s"
  by (simp add: keeps_def)

lemma keeps_mem [simp]:
  "keeps s (s'\<lparr>mem := m\<rparr>) = keeps s s'" "keeps (s\<lparr>mem := m\<rparr>) s' = keeps s s'"
  by (simp_all add: keeps_def)

lemma keeps_trans [trans]: "keeps s s1 \<Longrightarrow> keeps s1 s2 \<Longrightarrow> keeps s s2"
  by (simp add: keeps_def)

primrec flow_state :: "('r, 's) flow \<Rightarrow> 's" where
  "flow_state (Next s) = s"
| "flow_state (Leave r s) = s"

lemma for_each_inv:
  "for_each body is s = Inr fl \<Longrightarrow> P s \<Longrightarrow>
   (\<And>i s fl. i \<in> set is \<Longrightarrow> P s \<Longrightarrow> body i s = Inr fl \<Longrightarrow> P (flow_state fl)) \<Longrightarrow> P (flow_state fl)"
proof (induction "is" arbitrary: s)
  case (Cons i "is")
  show ?case
  proof (cases "body i s")
    case (Inr f)
    have P: "P (flow_state f)"
      using Cons.prems(3) [OF _ Cons.prems(2) Inr] by simp
    show ?thesis
    proof (cases f)
      case (Next s')
      have "for_each body is s' = Inr fl"
        using Cons.prems(1) Inr Next by simp
      moreover have "P s'"
        using P Next by simp
      ultimately show ?thesis
        using Cons.IH Cons.prems(3) by (metis list.set_intros(2))
    next
      case (Leave r s')
      then show ?thesis
        using Cons.prems(1) Inr P by simp
    qed
  qed (use Cons.prems(1) in simp)
qed auto

lemma page_loop_inv:
  "page_loop body a lim s = Inr fl \<Longrightarrow> P s \<Longrightarrow>
   (\<And>a s fl. P s \<Longrightarrow> body a s = Inr fl \<Longrightarrow> P (flow_state fl)) \<Longrightarrow> P (flow_state fl)"
proof (induction body a lim s rule: page_loop.induct)
  case (1 body a lim s)
  show ?case
  proof (cases "a < lim")
    case True
    note step = 1(2) [unfolded page_loop.simps [of body a lim s]]
    obtain f where f: "body a s = Inr f"
      using step True by (cases "body a s") auto
    have P: "P (flow_state f)"
      using 1(4) [OF 1(3) f] .
    show ?thesis
    proof (cases f)
      case (Next s')
      then have "\<not> a + 4096 < a" "page_loop body (a + 4096) lim s' = Inr fl"
        using step True f by (auto split: if_splits)
      then show ?thesis
        using 1(1) [OF True f Next] P Next 1(4) by simp
    next
      case (Leave r s')
      then show ?thesis
        using step True f P by simp
    qed
  qed (use 1 in auto)
qed

lemma kalloc_keeps: "kalloc s = (r, s') \<Longrightarrow> keeps s s'"
  by (auto simp: kalloc_def keeps_def Let_def split: if_splits)

lemma kfree_keeps: "kfree v s = Inr s' \<Longrightarrow> keeps s s'"
  by (auto simp: kfree_def keeps_def Let_def andthen_eq_Inr split: if_splits)

lemma decref_keeps: "decref pa s = Inr s' \<Longrightarrow> keeps s s'"
  by (auto simp: decref_def Let_def andthen_eq_Inr keeps_def split: if_splits dest!: kfree_keeps)

lemma incref_keeps: "incref pa s = Inr s' \<Longrightarrow> keeps s s'"
  by (auto simp: incref_def Let_def keeps_def split: if_splits)

lemma walkpgdir_keeps: "walkpgdir pg va al s = (r, s') \<Longrightarrow> keeps s s'"
  by (auto simp: walkpgdir_def Let_def split: if_splits prod.splits dest: kalloc_keeps)

lemma mappages_loop_keeps: "mappages_loop pg a l pa perm s = Inr (r, s') \<Longrightarrow> keeps s s'"
proof (induction pg a l pa perm s rule: mappages_loop.induct)
  case (1 pg a l pa perm s)
  obtain pte s1 where w: "walkpgdir pg a True s = (pte, s1)"
    by (cases "walkpgdir pg a True s")
  have k: "keeps s s1"
    using w by (rule walkpgdir_keeps)
  show ?case
    using 1(2) w k 1(1) [OF w [symmetric]] keeps_trans [OF k]
    by (subst (asm) mappages_loop.simps) (auto simp: Let_def split: if_splits)
qed

lemma mappages_keeps: "mappages pg va sz pa perm s = Inr (r, s') \<Longrightarrow> keeps s s'"
  by (simp add: mappages_def mappages_loop_keeps)

lemma deallocuvm_loop_keeps: "deallocuvm_loop pg a oldsz s = Inr s' \<Longrightarrow> keeps s s'"
proof (induction pg a oldsz s rule: deallocuvm_loop.induct)
  case (1 pg a oldsz s)
  show ?case
    using 1(4) 1(1-3)
    by (subst (asm) deallocuvm_loop.simps)
      (auto simp: Let_def andthen_eq_Inr split: if_splits intro: keeps_trans kfree_keeps)
qed

lemma deallocuvm_keeps: "deallocuvm pg oz n s = Inr (r, s') \<Longrightarrow> keeps s s'"
  by (auto simp: deallocuvm_def andthen_eq_Inr split: if_splits dest!: deallocuvm_loop_keeps)

lemma freevm_keeps: "freevm pg s = Inr s' \<Longrightarrow> keeps s s'"
proof -
  assume "freevm pg s = Inr s'"
  then obtain r s1 fl where s1: "deallocuvm pg KERNBASE 0 s = Inr (r, s1)"
    and loop: "for_each (\<lambda>i s.
            let pde = load32 (mem s) (pg + 4 * of_nat i)
            in if pde AND PTE_P \<noteq> 0
               then andthen (kfree (P2V (PTE_ADDR pde)) s) (\<lambda>s. Inr (Next s))
               else Inr (Next s)) [0..<1024] s1 = Inr fl"
    and fin: "(case fl of Next s \<Rightarrow> kfree pg s | Leave (_ :: unit) s \<Rightarrow> Inr s) = Inr s'"
    by (auto simp: freevm_def andthen_eq_Inr split: if_splits)
  have "keeps s (flow_state fl)"
    using loop deallocuvm_keeps [OF s1]
    by (rule for_each_inv) (auto simp: Let_def andthen_eq_Inr split: if_splits dest!: kfree_keeps dest: keeps_trans)
  then show ?thesis
    using fin by (cases fl) (auto dest!: kfree_keeps dest: keeps_trans)
qed

lemma setupkvm_keeps: "setupkvm s = Inr (r, s') \<Longrightarrow> keeps s s'"
proof -
  assume *: "setupkvm s = Inr (r, s')"
  obtain pg s1 where k: "kalloc s = (pg, s1)"
    by (cases "kalloc s")
  have s1: "keeps s s1"
    using k by (rule kalloc_keeps)
  show ?thesis
  proof (cases "pg = 0")
    case False
    let ?body = "\<lambda>(virt, phys_start, phys_end, perm) s.
        andthen (mappages pg virt (phys_end - phys_start) phys_start perm s)
          (\<lambda>(r, s). if r <s 0 then andthen (freevm pg s) (\<lambda>s. Inr (Leave 0 s)) else Inr (Next s))"
    obtain fl where loop: "for_each ?body (kmap (kdata s1)) (s1\<lparr>mem := memset pg 0 PGSIZE (mem s1)\<rparr>) = Inr fl"
      and fin: "(case fl of Next s \<Rightarrow> Inr (pg, s) | Leave r s \<Rightarrow> Inr (r, s)) = (Inr (r, s') :: _ result)"
      using * k False by (auto simp: setupkvm_def Let_def andthen_eq_Inr split: if_splits)
    have "keeps s (flow_state fl)"
    proof (rule for_each_inv [OF loop])
      fix i t f
      assume "keeps s t" "?body i t = Inr f"
      then show "keeps s (flow_state f)"
        by (cases i)
          (auto simp: andthen_eq_Inr split: if_splits dest!: mappages_keeps freevm_keeps dest: keeps_trans)
    qed (simp add: s1)
    then show ?thesis
      using fin by (cases fl) auto
  qed (use * k s1 in \<open>simp add: setupkvm_def\<close>)
qed

lemma allocuvm_keeps: "allocuvm pg oz n s = Inr (r, s') \<Longrightarrow> keeps s s'"
proof -
  assume *: "allocuvm pg oz n s = Inr (r, s')"
  show ?thesis
  proof (cases "n \<ge> KERNBASE \<or> n < oz")
    case False
    then obtain fl where loop: "page_loop (allocuvm_body pg oz n) (PGROUNDUP oz) n s = Inr fl"
      and fin: "(case fl of Next s \<Rightarrow> Inr (n, s) | Leave r s \<Rightarrow> Inr (r, s)) = (Inr (r, s') :: _ result)"
      using * by (auto simp: allocuvm_def andthen_eq_Inr)
    have "keeps s (flow_state fl)"
      using loop
    proof (rule page_loop_inv)
      fix a t f
      assume "keeps s t" "allocuvm_body pg oz n a t = Inr f"
      then show "keeps s (flow_state f)"
        by (auto simp: allocuvm_body_def Let_def andthen_eq_Inr split: if_splits prod.splits
            dest!: kalloc_keeps mappages_keeps deallocuvm_keeps kfree_keeps) (simp_all add: keeps_def)
    qed simp
    then show ?thesis
      using fin by (cases fl) auto
  qed (use * in \<open>auto simp: allocuvm_def split: if_splits\<close>)
qed

lemma inituvm_keeps: "inituvm pg init sz s = Inr s' \<Longrightarrow> keeps s s'"
  by (auto simp: inituvm_def Let_def andthen_eq_Inr split: if_splits prod.splits
      dest!: kalloc_keeps mappages_keeps) (simp_all add: keeps_def)

text \<open>\<^verbatim>\<open>copyuvm\<close> also loads the page-table register.\<close>

definition vkeeps :: "'a vm_state_scheme \<Rightarrow> 'a vm_state_scheme \<Rightarrow> bool" where
  "vkeeps s s' \<longleftrightarrow> vm_state.more s' = vm_state.more s \<and> kpgdir s' = kpgdir s \<and> kdata s' = kdata s"

lemma vkeeps_refl [simp]: "vkeeps s s"
  by (simp add: vkeeps_def)

lemma vkeeps_trans: "vkeeps s s1 \<Longrightarrow> vkeeps s1 s2 \<Longrightarrow> vkeeps s s2"
  by (simp add: vkeeps_def)

lemma vkeeps_upd [simp]:
  "vkeeps s (lcr3 v s') = vkeeps s s'" "vkeeps s (s'\<lparr>mem := m\<rparr>) = vkeeps s s'"
  by (simp_all add: vkeeps_def lcr3_def)

lemma keeps_vkeeps: "keeps s s' \<Longrightarrow> vkeeps s s'"
  by (cases s; cases s') (simp add: keeps_def vkeeps_def)

lemma copyuvm_keeps: "copyuvm pg sz s = Inr (r, s') \<Longrightarrow> vkeeps s s'"
proof -
  assume *: "copyuvm pg sz s = Inr (r, s')"
  obtain d s1 where d: "setupkvm s = Inr (d, s1)"
    using * by (auto simp: copyuvm_def andthen_eq_Inr)
  have s1: "vkeeps s s1"
    using setupkvm_keeps [OF d] by (rule keeps_vkeeps)
  show ?thesis
  proof (cases "d = 0")
    case False
    then obtain fl where loop: "page_loop (copyuvm_body pg d) 0 sz s1 = Inr fl"
      and fin: "(case fl of Next s \<Rightarrow> Inr (d, lcr3 (V2P pg) s) | Leave r s \<Rightarrow> Inr (r, s)) = (Inr (r, s') :: _ result)"
      using * d by (auto simp: copyuvm_def andthen_eq_Inr)
    have "vkeeps s (flow_state fl)"
      using loop s1
    proof (rule page_loop_inv)
      fix a t f
      assume t: "vkeeps s t" and f: "copyuvm_body pg d a t = Inr f"
      show "vkeeps s (flow_state f)"
        using t f
        by (auto simp: copyuvm_body_def Let_def andthen_eq_Inr split: if_splits
            dest!: mappages_keeps incref_keeps keeps_vkeeps) (simp_all add: vkeeps_def lcr3_def)
    qed
    then show ?thesis
      using fin by (cases fl) auto
  qed (use * d s1 in \<open>auto simp: copyuvm_def\<close>)
qed

end
