(* ===== verification/Sched.thy ===== *)
theory Sched
  imports Spinlock VmFrame
begin

text \<open>
  The process table and the scheduler: \<^verbatim>\<open>proc.h\<close> and the parts of \<^verbatim>\<open>proc.c\<close> that do not touch files
  (\<^verbatim>\<open>allocproc\<close>, \<^verbatim>\<open>growproc\<close>, \<^verbatim>\<open>wait\<close>, \<^verbatim>\<open>scheduler\<close>, \<^verbatim>\<open>sched\<close>, \<^verbatim>\<open>yield\<close>, \<^verbatim>\<open>sleep\<close>, \<^verbatim>\<open>wakeup\<close>, \<^verbatim>\<open>kill\<close>), with
  \<^verbatim>\<open>seginit\<close> and \<^verbatim>\<open>switchuvm\<close> of \<^verbatim>\<open>vm.c\<close>. A pointer to a process is its index in the table, an
  \<open>option\<close> where it can be null.
\<close>

section \<open>Data\<close>

datatype procstate = UNUSED | EMBRYO | SLEEPING | RUNNABLE | RUNNING | ZOMBIE

record mmap_region =
  r_addr :: u32
  r_length :: u32
  r_flags :: u32
  r_used :: bool
  r_fd :: u32
  r_loaded :: u32

record wmapinfo =
  wi_total :: u32
  wi_addr :: "nat \<Rightarrow> u32"
  wi_length :: "nat \<Rightarrow> u32"
  wi_loaded :: "nat \<Rightarrow> u32"

record proc =
  psz :: u32
  ppgdir :: addr
  pkstack :: addr
  pstate :: procstate
  pid :: u32
  pparent :: "nat option"
  ptf :: addr
  pcontext :: addr
  pchan :: "chan option"
  pkilled :: bool
  pofile :: "nat \<Rightarrow> nat option"
  pcwd :: "nat option"
  pname :: "u8 list"
  pmmap :: "nat \<Rightarrow> mmap_region"
  pwmap :: wmapinfo
  ptotal_mmaps :: u32

text \<open>
  \<open>forkret_sym\<close> and \<open>trapret_sym\<close> are the addresses of \<^verbatim>\<open>forkret\<close> and \<^verbatim>\<open>trapret\<close>.
\<close>

record ptable_state = smp_state +
  ptable :: "nat \<Rightarrow> proc"
  ptable_lock :: spinlock
  initproc :: "nat option"
  nextpid :: u32
  ticks :: u32
  forkret_sym :: u32
  trapret_sym :: u32

abbreviation (input) NPROC :: nat where "NPROC \<equiv> 64"
abbreviation (input) MAX_MMAPS :: nat where "MAX_MMAPS \<equiv> 16"
abbreviation (input) NOFILE :: nat where "NOFILE \<equiv> 16"
abbreviation (input) KSTACKSIZE :: u32 where "KSTACKSIZE \<equiv> 4096"

definition upd_proc :: "nat \<Rightarrow> (proc \<Rightarrow> proc) \<Rightarrow> 'a ptable_state_scheme \<Rightarrow> 'a ptable_state_scheme" where
  "upd_proc p f s = s\<lparr>ptable := (ptable s)(p := f (ptable s p))\<rparr>"

definition set_state :: "nat \<Rightarrow> procstate \<Rightarrow> 'a ptable_state_scheme \<Rightarrow> 'a ptable_state_scheme" where
  "set_state p st s = upd_proc p (\<lambda>q. q\<lparr>pstate := st\<rparr>) s"

section \<open>Segments and address spaces\<close>

definition seginit :: "nat \<Rightarrow> 'a smp_state_scheme \<Rightarrow> 'a smp_state_scheme result" where
  "seginit c s =
     andthen (mycpu c s) (\<lambda>i.
       Inr (upd_cpu i (\<lambda>k. k\<lparr>gdt := (gdt k)(
         1 := SEG (0x8 OR 0x2) 0 0xffffffff 0,
         2 := SEG 0x2 0 0xffffffff 0,
         3 := SEG (0x8 OR 0x2) 0 0xffffffff 3,
         4 := SEG 0x2 0 0xffffffff 3)\<rparr>) s))"

definition switchuvm :: "nat \<Rightarrow> proc \<Rightarrow> 'a smp_state_scheme \<Rightarrow> 'a smp_state_scheme result" where
  "switchuvm c p s =
     (if pkstack p = 0 then Inl (Panic ''switchuvm: no kstack'')
      else if ppgdir p = 0 then Inl (Panic ''switchuvm: no pgdir'')
      else
        andthen (pushcli c s) (\<lambda>s.
        andthen (mycpu c s) (\<lambda>i.
          let s = upd_cpu i (\<lambda>k. k\<lparr>gdt := (gdt k)(5 := SEG16 0x9 (ts_addr k) (104 - 1) 0)\<rparr>) s;
              s = upd_cpu i (\<lambda>k. k\<lparr>gdt := (gdt k)(5 := (gdt k 5)\<lparr>seg_s := 0\<rparr>)\<rparr>) s;
              s = upd_cpu i (\<lambda>k. k\<lparr>ts_ss0 := 0x10, ts_esp0 := pkstack p + KSTACKSIZE,
                                   ts_iomb := 0xFFFF, task_reg := 0x28\<rparr>) s
          in popcli c (lcr3 (V2P (ppgdir p)) s))))"

section \<open>Creating and growing a process\<close>

text \<open>The trap frame has 76 bytes, the context 20 with \<^verbatim>\<open>eip\<close> at offset 16.\<close>

definition allocproc :: "'a ptable_state_scheme \<Rightarrow> nat option \<times> 'a ptable_state_scheme" where
  "allocproc s =
     (case find (\<lambda>p. pstate (ptable s p) = UNUSED) [0..<NPROC] of
        None \<Rightarrow> (None, s)
      | Some p \<Rightarrow>
          let s = upd_proc p (\<lambda>q. q\<lparr>pstate := EMBRYO, pid := nextpid s\<rparr>) s;
              s = s\<lparr>nextpid := nextpid s + 1\<rparr>;
              (stack, s) = kalloc s;
              s = upd_proc p (\<lambda>q. q\<lparr>pkstack := stack\<rparr>) s
          in if stack = 0 then (None, set_state p UNUSED s)
             else
               let sp = stack + KSTACKSIZE - 76;
                   s = upd_proc p (\<lambda>q. q\<lparr>ptf := sp\<rparr>) s;
                   sp = sp - 4;
                   s = s\<lparr>mem := store32 sp (trapret_sym s) (mem s)\<rparr>;
                   sp = sp - 20;
                   s = upd_proc p (\<lambda>q. q\<lparr>pcontext := sp\<rparr>) s;
                   s = s\<lparr>mem := store32 (sp + 16) (forkret_sym s) (memset sp 0 20 (mem s))\<rparr>;
                   s = upd_proc p (\<lambda>q. q\<lparr>ptotal_mmaps := 0, pwmap := (pwmap q)\<lparr>
                         wi_addr := (\<lambda>i. if i < 16 then - 1 else wi_addr (pwmap q) i),
                         wi_length := (\<lambda>i. if i < 16 then - 1 else wi_length (pwmap q) i),
                         wi_loaded := (\<lambda>i. if i < 16 then - 1 else wi_loaded (pwmap q) i)\<rparr>\<rparr>) s
               in (Some p, s))"

definition growproc :: "nat \<Rightarrow> nat \<Rightarrow> u32 \<Rightarrow> 'a ptable_state_scheme \<Rightarrow> (u32 \<times> 'a ptable_state_scheme) result" where
  "growproc c me n s =
     (let sz0 = psz (ptable s me);
          pg = ppgdir (ptable s me);
          finish = (\<lambda>sz1 s.
            let s = upd_proc me (\<lambda>q. q\<lparr>psz := sz1\<rparr>) s
            in andthen (switchuvm c (ptable s me) s) (\<lambda>s. Inr (0, s)))
      in if 0 <s n then
           andthen (allocuvm pg sz0 (sz0 + n) s) (\<lambda>(sz1, s).
             if sz1 = 0 then Inr (- 1, s) else finish sz1 s)
         else if n <s 0 then
           andthen (deallocuvm pg sz0 (sz0 + n) s) (\<lambda>(sz1, s).
             if sz1 = 0 then Inr (- 1, s) else finish sz1 s)
         else finish sz0 s)"

section \<open>Sleeping and waking\<close>

definition wakeup1 :: "chan option \<Rightarrow> 'a ptable_state_scheme \<Rightarrow> 'a ptable_state_scheme" where
  "wakeup1 ch s =
     fold (\<lambda>p s. if pstate (ptable s p) = SLEEPING \<and> pchan (ptable s p) = ch
                 then set_state p RUNNABLE s else s) [0..<NPROC] s"

definition wakeup :: "chan \<Rightarrow> 'a ptable_state_scheme \<Rightarrow> 'a ptable_state_scheme" where
  "wakeup ch s = wakeup1 (Some ch) s"

definition kill :: "u32 \<Rightarrow> 'a ptable_state_scheme \<Rightarrow> u32 \<times> 'a ptable_state_scheme" where
  "kill k s =
     (case find (\<lambda>p. pid (ptable s p) = k) [0..<NPROC] of
        Some p \<Rightarrow>
          let s = upd_proc p (\<lambda>q. q\<lparr>pkilled := True\<rparr>) s;
              s = (if pstate (ptable s p) = SLEEPING then set_state p RUNNABLE s else s)
          in (0, s)
      | None \<Rightarrow> (- 1, s))"

section \<open>Switching\<close>

definition lock_ptable :: "nat \<Rightarrow> 'a ptable_state_scheme \<Rightarrow> 'a ptable_state_scheme result" where
  "lock_ptable c s =
     andthen (acquire c (ptable_lock s) s) (\<lambda>(r, s).
       case r of None \<Rightarrow> Inl Spinning | Some l \<Rightarrow> Inr (s\<lparr>ptable_lock := l\<rparr>))"

definition unlock_ptable :: "nat \<Rightarrow> 'a ptable_state_scheme \<Rightarrow> 'a ptable_state_scheme result" where
  "unlock_ptable c s =
     andthen (release c (ptable_lock s) s) (\<lambda>(l, s). Inr (s\<lparr>ptable_lock := l\<rparr>))"

text \<open>
  \<open>sched\<close> runs up to its \<^verbatim>\<open>swtch\<close> and returns the \<^verbatim>\<open>intena\<close> that it keeps on its stack; \<open>sched_resume\<close>
  is what follows when the process is switched to again.
\<close>

definition sched :: "nat \<Rightarrow> nat \<Rightarrow> 'a ptable_state_scheme \<Rightarrow> (bool \<times> 'a ptable_state_scheme) result" where
  "sched c p s =
     andthen (holding c (ptable_lock s) s) (\<lambda>(h, s).
       if \<not> h then Inl (Panic ''sched ptable.lock'')
       else andthen (mycpu c s) (\<lambda>i.
         if ncli (cpus s i) \<noteq> 1 then Inl (Panic ''sched locks'')
         else if pstate (ptable s p) = RUNNING then Inl (Panic ''sched running'')
         else if hw_if s c then Inl (Panic ''sched interruptible'')
         else Inr (intena (cpus s i), s)))"

definition sched_resume :: "nat \<Rightarrow> bool \<Rightarrow> 'a ptable_state_scheme \<Rightarrow> 'a ptable_state_scheme result" where
  "sched_resume c ena s =
     andthen (mycpu c s) (\<lambda>i. Inr (upd_cpu i (\<lambda>k. k\<lparr>intena := ena\<rparr>) s))"

definition yield :: "nat \<Rightarrow> nat \<Rightarrow> 'a ptable_state_scheme \<Rightarrow> (bool \<times> 'a ptable_state_scheme) result" where
  "yield c p s = andthen (lock_ptable c s) (\<lambda>s. sched c p (set_state p RUNNABLE s))"

definition yield_resume :: "nat \<Rightarrow> bool \<Rightarrow> 'a ptable_state_scheme \<Rightarrow> 'a ptable_state_scheme result" where
  "yield_resume c ena s = andthen (sched_resume c ena s) (unlock_ptable c)"

text \<open>
  \<open>sleep\<close> with a lock other than \<^verbatim>\<open>ptable.lock\<close>: the caller hands the lock in and gets it back free;
  \<open>sleep_resume\<close> takes the lock again, in the state in which it finds it.
\<close>

definition sleep ::
  "nat \<Rightarrow> nat \<Rightarrow> chan \<Rightarrow> spinlock \<Rightarrow> 'a ptable_state_scheme
    \<Rightarrow> (bool \<times> spinlock \<times> 'a ptable_state_scheme) result" where
  "sleep c p ch l s =
     andthen (lock_ptable c s) (\<lambda>s.
     andthen (release c l s) (\<lambda>(l, s).
       let s = upd_proc p (\<lambda>q. q\<lparr>pchan := Some ch, pstate := SLEEPING\<rparr>) s
       in andthen (sched c p s) (\<lambda>(ena, s). Inr (ena, l, s))))"

definition sleep_resume ::
  "nat \<Rightarrow> nat \<Rightarrow> bool \<Rightarrow> spinlock \<Rightarrow> 'a ptable_state_scheme
    \<Rightarrow> (spinlock option \<times> 'a ptable_state_scheme) result" where
  "sleep_resume c p ena l s =
     andthen (sched_resume c ena s) (\<lambda>s.
     andthen (unlock_ptable c (upd_proc p (\<lambda>q. q\<lparr>pchan := None\<rparr>) s)) (\<lambda>s.
       acquire c l s))"

text \<open>
  The body of the loop of \<^verbatim>\<open>scheduler\<close>. \<open>scheduler_run\<close> looks for the next runnable process from
  index \<open>k\<close> on and switches to it; \<open>scheduler_back\<close> is what follows when the process switches back.
\<close>

definition scheduler_run ::
  "nat \<Rightarrow> nat \<Rightarrow> 'a ptable_state_scheme \<Rightarrow> (nat option \<times> 'a ptable_state_scheme) result" where
  "scheduler_run c k s =
     (case find (\<lambda>p. pstate (ptable s p) = RUNNABLE) [k..<NPROC] of
        None \<Rightarrow> andthen (unlock_ptable c s) (\<lambda>s. Inr (None, s))
      | Some p \<Rightarrow>
          let s = upd_cpu c (\<lambda>i. i\<lparr>cproc := Some p\<rparr>) s
          in andthen (switchuvm c (ptable s p) s) (\<lambda>s. Inr (Some p, set_state p RUNNING s)))"

definition scheduler_back :: "nat \<Rightarrow> 'a ptable_state_scheme \<Rightarrow> 'a ptable_state_scheme" where
  "scheduler_back c s = upd_cpu c (\<lambda>i. i\<lparr>cproc := None\<rparr>) (switchkvm s)"

definition scheduler_lock :: "nat \<Rightarrow> 'a ptable_state_scheme \<Rightarrow> 'a ptable_state_scheme result" where
  "scheduler_lock c s = lock_ptable c (sti c s)"

section \<open>Leaving and waiting\<close>

text \<open>The end of \<^verbatim>\<open>exit\<close>, from the acquisition of \<^verbatim>\<open>ptable.lock\<close> on.\<close>

definition exit_reparent :: "nat \<Rightarrow> nat \<Rightarrow> 'a ptable_state_scheme \<Rightarrow> 'a ptable_state_scheme" where
  "exit_reparent me p s =
     (if pparent (ptable s p) = Some me then
        let s = upd_proc p (\<lambda>q. q\<lparr>pparent := initproc s\<rparr>) s
        in if pstate (ptable s p) = ZOMBIE then wakeup1 (map_option ChProc (initproc s)) s else s
      else s)"

definition exit_tail :: "nat \<Rightarrow> 'a ptable_state_scheme \<Rightarrow> 'a ptable_state_scheme" where
  "exit_tail me s =
     (let s = wakeup1 (map_option ChProc (pparent (ptable s me))) s;
          s = fold (exit_reparent me) [0..<NPROC] s
      in set_state me ZOMBIE s)"

definition exit_switch :: "nat \<Rightarrow> nat \<Rightarrow> 'a ptable_state_scheme \<Rightarrow> (bool \<times> 'a ptable_state_scheme) result" where
  "exit_switch c me s = andthen (lock_ptable c s) (\<lambda>s. sched c me (exit_tail me s))"

text \<open>One pass of the loop of \<^verbatim>\<open>wait\<close>.\<close>

datatype 'a waiting = Done 'a | Block chan

definition wait_body ::
  "nat \<Rightarrow> nat \<Rightarrow> bool \<times> 'a ptable_state_scheme \<Rightarrow> (u32, bool \<times> 'a ptable_state_scheme) flow result" where
  "wait_body me p = (\<lambda>(havekids, s).
     if pparent (ptable s p) \<noteq> Some me then Inr (Next (havekids, s))
     else if pstate (ptable s p) = ZOMBIE then
       let k = pid (ptable s p)
       in andthen (kfree (pkstack (ptable s p)) s) (\<lambda>s.
          let s = upd_proc p (\<lambda>q. q\<lparr>pkstack := 0\<rparr>) s
          in andthen (freevm (ppgdir (ptable s p)) s) (\<lambda>s.
             let s = upd_proc p (\<lambda>q. q\<lparr>pid := 0, pparent := None, pname := [], pkilled := False,
                                       pstate := UNUSED\<rparr>) s
             in Inr (Leave k (True, s))))
     else Inr (Next (True, s)))"

definition wait_pass ::
  "nat \<Rightarrow> 'a ptable_state_scheme \<Rightarrow> (u32 waiting \<times> 'a ptable_state_scheme) result" where
  "wait_pass me s =
     andthen (for_each (wait_body me) [0..<NPROC] (False, s)) (\<lambda>fl.
       case fl of
         Leave k (_, s) \<Rightarrow> Inr (Done k, s)
       | Next (havekids, s) \<Rightarrow>
           if \<not> havekids \<or> pkilled (ptable s me) then Inr (Done (- 1), s)
           else Inr (Block (ChProc me), s))"

section \<open>What the locks leave unchanged\<close>

definition cpu_frame :: "'a smp_state_scheme \<Rightarrow> 'a smp_state_scheme \<Rightarrow> bool" where
  "cpu_frame s s' \<longleftrightarrow> (\<forall>i. cproc (cpus s' i) = cproc (cpus s i)) \<and> ncpu s' = ncpu s
     \<and> smp_state.more s' = smp_state.more s"

lemma cpu_frame_refl [simp]: "cpu_frame s s"
  by (simp add: cpu_frame_def)

lemma cpu_frame_trans: "cpu_frame s s1 \<Longrightarrow> cpu_frame s1 s2 \<Longrightarrow> cpu_frame s s2"
  by (simp add: cpu_frame_def)

lemma cpu_frame_upd: "(\<And>k. cproc (f k) = cproc k) \<Longrightarrow> cpu_frame s (upd_cpu i f s)"
  by (simp add: cpu_frame_def upd_cpu_def)

lemma pushcli_frame: "pushcli c s = Inr s' \<Longrightarrow> cpu_frame s s'"
  by (auto simp: pushcli_def Let_def andthen_eq_Inr cpu_frame_def upd_cpu_def cli_def split: if_splits)

lemma popcli_frame: "popcli c s = Inr s' \<Longrightarrow> cpu_frame s s'"
  by (auto simp: popcli_def Let_def andthen_eq_Inr cpu_frame_def upd_cpu_def sti_def split: if_splits)

lemma holding_frame: "holding c l s = Inr (h, s') \<Longrightarrow> cpu_frame s s'"
  by (auto simp: holding_def Let_def andthen_eq_Inr dest!: pushcli_frame popcli_frame intro: cpu_frame_trans)

lemma acquire_frame: "acquire c l s = Inr (r, s') \<Longrightarrow> cpu_frame s s'"
  by (auto simp: acquire_def Let_def andthen_eq_Inr xchg_def split: if_splits
      dest!: pushcli_frame holding_frame intro: cpu_frame_trans)

lemma release_frame: "release c l s = Inr (r, s') \<Longrightarrow> cpu_frame s s'"
  by (auto simp: release_def Let_def andthen_eq_Inr split: if_splits
      dest!: popcli_frame holding_frame intro: cpu_frame_trans)

lemma switchuvm_frame: "switchuvm c p s = Inr s' \<Longrightarrow> cpu_frame s s'"
  by (auto simp: switchuvm_def Let_def andthen_eq_Inr cpu_frame_def upd_cpu_def lcr3_def split: if_splits
      dest!: pushcli_frame popcli_frame)

lemma ptable_more_cong:
  "smp_state.more s' = smp_state.more s \<Longrightarrow>
   ptable s' = ptable s \<and> initproc s' = initproc s \<and> nextpid s' = nextpid s"
  by (cases s; cases s') simp

definition tab_frame :: "'a ptable_state_scheme \<Rightarrow> 'a ptable_state_scheme \<Rightarrow> bool" where
  "tab_frame s s' \<longleftrightarrow> ptable s' = ptable s \<and> (\<forall>i. cproc (cpus s' i) = cproc (cpus s i))
     \<and> ncpu s' = ncpu s \<and> initproc s' = initproc s \<and> nextpid s' = nextpid s"

lemma cpu_tab_frame: "cpu_frame s s' \<Longrightarrow> tab_frame s s'"
  using ptable_more_cong [of s' s] by (simp add: cpu_frame_def tab_frame_def)

lemma tab_frame_trans: "tab_frame s s1 \<Longrightarrow> tab_frame s1 s2 \<Longrightarrow> tab_frame s s2"
  by (simp add: tab_frame_def)

lemma tab_frame_lock [simp]: "tab_frame s (s'\<lparr>ptable_lock := l\<rparr>) = tab_frame s s'"
  by (simp add: tab_frame_def)

lemma lock_ptable_frame: "lock_ptable c s = Inr s' \<Longrightarrow> tab_frame s s'"
  by (auto simp: lock_ptable_def andthen_eq_Inr split: option.splits
      dest!: acquire_frame cpu_tab_frame)

lemma unlock_ptable_frame: "unlock_ptable c s = Inr s' \<Longrightarrow> tab_frame s s'"
  by (auto simp: unlock_ptable_def andthen_eq_Inr dest!: release_frame cpu_tab_frame)

lemma sched_frame: "sched c p s = Inr (ena, s') \<Longrightarrow> tab_frame s s'"
  by (auto simp: sched_def andthen_eq_Inr split: if_splits dest!: holding_frame cpu_tab_frame)

lemma sched_resume_frame: "sched_resume c ena s = Inr s' \<Longrightarrow> tab_frame s s'"
  by (auto simp: sched_resume_def andthen_eq_Inr intro!: cpu_tab_frame cpu_frame_upd)

section \<open>Wakeup\<close>

lemma wakeup1_fold:
  "ptable (fold (\<lambda>p s. if pstate (ptable s p) = SLEEPING \<and> pchan (ptable s p) = ch
                 then set_state p RUNNABLE s else s) ps s) =
   (\<lambda>p. if p \<in> set ps \<and> pstate (ptable s p) = SLEEPING \<and> pchan (ptable s p) = ch
        then (ptable s p)\<lparr>pstate := RUNNABLE\<rparr> else ptable s p)"
  "cpus (fold (\<lambda>p s. if pstate (ptable s p) = SLEEPING \<and> pchan (ptable s p) = ch
                 then set_state p RUNNABLE s else s) ps s) = cpus s"
  "ncpu (fold (\<lambda>p s. if pstate (ptable s p) = SLEEPING \<and> pchan (ptable s p) = ch
                 then set_state p RUNNABLE s else s) ps s) = ncpu s"
  "initproc (fold (\<lambda>p s. if pstate (ptable s p) = SLEEPING \<and> pchan (ptable s p) = ch
                 then set_state p RUNNABLE s else s) ps s) = initproc s"
  "nextpid (fold (\<lambda>p s. if pstate (ptable s p) = SLEEPING \<and> pchan (ptable s p) = ch
                 then set_state p RUNNABLE s else s) ps s) = nextpid s"
  by (induction ps arbitrary: s) (auto simp: set_state_def upd_proc_def fun_eq_iff)

lemma wakeup1_ptable:
  "ptable (wakeup1 ch s) p =
    (if p < NPROC \<and> pstate (ptable s p) = SLEEPING \<and> pchan (ptable s p) = ch
     then (ptable s p)\<lparr>pstate := RUNNABLE\<rparr> else ptable s p)"
  by (simp add: wakeup1_def wakeup1_fold)

lemma wakeup1_frame [simp]:
  "cpus (wakeup1 ch s) = cpus s" "ncpu (wakeup1 ch s) = ncpu s" "initproc (wakeup1 ch s) = initproc s"
  "nextpid (wakeup1 ch s) = nextpid s"
  by (simp_all add: wakeup1_def wakeup1_fold)


section \<open>Locks and the switch\<close>

lemma holding_cli_state:
  assumes "cli_state c s n ena" and "Suc n < 2 ^ 31"
  shows "\<exists>s'. holding c l s = Inr (locked l \<noteq> 0 \<and> lk_cpu l = Some c, s') \<and> cli_state c s' n ena"
proof -
  obtain s1 where s1: "pushcli c s = Inr s1" "cli_state c s1 (Suc n) ena"
    using pushcli_cli_state [OF assms] by blast
  then have "mycpu c s1 = Inr c"
    by (intro mycpu_self) (simp_all add: cli_state_def)
  then show ?thesis
    using s1 popcli_cli_state [OF s1(2)] by (auto simp: holding_def)
qed

lemma acquire_cli_state:
  assumes "cli_state c s n ena" and "Suc (Suc n) < 2 ^ 31" and "locked l = 0"
  shows "\<exists>s'. acquire c l s = Inr (Some \<lparr>locked = 1, lk_cpu = Some c\<rparr>, s') \<and> cli_state c s' (Suc n) ena
    \<and> cpu_frame s s'"
proof -
  obtain s1 where s1: "pushcli c s = Inr s1" "cli_state c s1 (Suc n) ena"
    using pushcli_cli_state [OF assms(1)] assms(2) by auto
  obtain s2 where s2: "holding c l s1 = Inr (False, s2)" "cli_state c s2 (Suc n) ena"
    using holding_cli_state [OF s1(2) assms(2), of l] assms(3) by auto
  have "mycpu c s2 = Inr c"
    using s2(2) by (intro mycpu_self) (simp_all add: cli_state_def)
  then show ?thesis
    using s1 s2 assms(3) by (auto simp: acquire_def xchg_def intro: cpu_frame_trans pushcli_frame holding_frame)
qed

lemma release_cli_state:
  assumes "cli_state c s (Suc n) ena" and "Suc (Suc n) < 2 ^ 31" and "locked l \<noteq> 0" and "lk_cpu l = Some c"
  shows "\<exists>s'. release c l s = Inr (\<lparr>locked = 0, lk_cpu = None\<rparr>, s') \<and> cli_state c s' n ena \<and> cpu_frame s s'"
proof -
  obtain s1 where s1: "holding c l s = Inr (True, s1)" "cli_state c s1 (Suc n) ena"
    using holding_cli_state [OF assms(1,2), of l] assms(3,4) by auto
  obtain s2 where "popcli c s1 = Inr s2" "cli_state c s2 n ena"
    using popcli_cli_state [OF s1(2)] by blast
  then show ?thesis
    using s1 by (auto simp: release_def intro: cpu_frame_trans popcli_frame holding_frame)
qed

lemma cli_state_cong:
  "cpus s' = cpus s \<Longrightarrow> ncpu s' = ncpu s \<Longrightarrow> hw_if s' = hw_if s \<Longrightarrow> lapic s' = lapic s \<Longrightarrow>
   cli_state c s' n ena = cli_state c s n ena"
  by (simp add: cli_state_def cpus_ok_def)

lemma cli_state_tab [simp]:
  "cli_state c (s\<lparr>ptable_lock := l\<rparr>) n ena = cli_state c s n ena"
  "cli_state c (upd_proc p f s) n ena = cli_state c s n ena"
  "cli_state c (set_state p st s) n ena = cli_state c s n ena"
  by (rule cli_state_cong; simp add: upd_proc_def set_state_def)+

text \<open>CPU \<open>c\<close> holds \<^verbatim>\<open>ptable.lock\<close> and no other lock.\<close>

definition at_switch :: "nat \<Rightarrow> bool \<Rightarrow> 'a ptable_state_scheme \<Rightarrow> bool" where
  "at_switch c ena s \<longleftrightarrow> cli_state c s 1 ena \<and> locked (ptable_lock s) \<noteq> 0 \<and> lk_cpu (ptable_lock s) = Some c"

lemma at_switch_upd [simp]:
  "at_switch c ena (upd_proc p f s) = at_switch c ena s"
  "at_switch c ena (set_state p st s) = at_switch c ena s"
  by (auto simp: at_switch_def) (simp_all add: upd_proc_def set_state_def)

lemma ptable_upd [simp]:
  "ptable (upd_proc p f s) = (ptable s)(p := f (ptable s p))"
  "ptable (set_state p st s) = (ptable s)(p := (ptable s p)\<lparr>pstate := st\<rparr>)"
  "ptable_lock (upd_proc p f s) = ptable_lock s" "ptable_lock (set_state p st s) = ptable_lock s"
  "cpus (upd_proc p f s) = cpus s" "ncpu (upd_proc p f s) = ncpu s"
  "initproc (upd_proc p f s) = initproc s" "nextpid (upd_proc p f s) = nextpid s"
  "cpus (set_state p st s) = cpus s" "ncpu (set_state p st s) = ncpu s"
  "initproc (set_state p st s) = initproc s" "nextpid (set_state p st s) = nextpid s"
  by (simp_all add: upd_proc_def set_state_def)

lemma lock_ptable_cli_state:
  assumes "cli_state c s n ena" and "Suc (Suc n) < 2 ^ 31" and "locked (ptable_lock s) = 0"
  shows "\<exists>s'. lock_ptable c s = Inr s' \<and> cli_state c s' (Suc n) ena
    \<and> ptable_lock s' = \<lparr>locked = 1, lk_cpu = Some c\<rparr> \<and> tab_frame s s'"
proof -
  obtain s' where "acquire c (ptable_lock s) s = Inr (Some \<lparr>locked = 1, lk_cpu = Some c\<rparr>, s')"
    "cli_state c s' (Suc n) ena" "cpu_frame s s'"
    using acquire_cli_state [OF assms] by auto
  then show ?thesis
    by (auto simp: lock_ptable_def cpu_tab_frame)
qed

lemma unlock_ptable_at_switch:
  assumes "at_switch c ena s"
  shows "\<exists>s'. unlock_ptable c s = Inr s' \<and> cli_state c s' 0 ena
    \<and> ptable_lock s' = \<lparr>locked = 0, lk_cpu = None\<rparr> \<and> tab_frame s s'"
proof -
  obtain s' where "release c (ptable_lock s) s = Inr (\<lparr>locked = 0, lk_cpu = None\<rparr>, s')"
    "cli_state c s' 0 ena" "cpu_frame s s'"
    using release_cli_state [of c s 0 ena "ptable_lock s"] assms by (auto simp: at_switch_def)
  then show ?thesis
    by (auto simp: unlock_ptable_def cpu_tab_frame)
qed

lemma sched_at_switch:
  assumes "at_switch c ena s" and "pstate (ptable s p) \<noteq> RUNNING"
  shows "\<exists>s'. sched c p s = Inr (ena, s') \<and> at_switch c ena s' \<and> tab_frame s s'"
proof -
  obtain s' where s': "holding c (ptable_lock s) s = Inr (True, s')" "cli_state c s' 1 ena"
    using holding_cli_state [of c s 1 ena "ptable_lock s"] assms(1) by (auto simp: at_switch_def)
  have frame: "cpu_frame s s'"
    using s'(1) by (rule holding_frame)
  then have same: "ptable_lock s' = ptable_lock s" "ptable s' = ptable s"
    by (cases s; cases s'; simp add: cpu_frame_def)+
  have "mycpu c s' = Inr c" "\<not> hw_if s' c" "intena (cpus s' c) = ena" "unat (ncli (cpus s' c)) = 1"
    using s'(2) mycpu_self [of s' c] by (auto simp: cli_state_def)
  moreover from this have "ncli (cpus s' c) = 1"
    by (simp add: word_unat_eqI)
  ultimately show ?thesis
    using s' same assms cpu_tab_frame [OF frame] by (auto simp: sched_def at_switch_def)
qed

lemma sched_resume_at_switch:
  assumes "at_switch c e s"
  shows "\<exists>s'. sched_resume c ena s = Inr s' \<and> at_switch c ena s' \<and> tab_frame s s'"
proof -
  have my: "mycpu c s = Inr c"
    using assms mycpu_self [of s c] by (auto simp: at_switch_def cli_state_def)
  let ?s = "upd_cpu c (\<lambda>k. k\<lparr>intena := ena\<rparr>) s"
  have "cpus_ok ?s = cpus_ok s"
    by (rule cpus_ok_cong) (simp_all add: upd_cpu_def)
  then have "at_switch c ena ?s"
    using assms by (simp add: at_switch_def cli_state_def) (simp add: upd_cpu_def)
  moreover have "tab_frame s ?s"
    by (rule cpu_tab_frame, rule cpu_frame_upd) simp
  ultimately show ?thesis
    using my by (simp add: sched_resume_def)
qed

lemma cli_state_upd_cpu:
  assumes "\<And>k. ncli (f k) = ncli k \<and> intena (f k) = intena k \<and> apicid (f k) = apicid k"
  shows "cli_state c (upd_cpu i f s) n ena = cli_state c s n ena"
proof -
  have "cpus_ok (upd_cpu i f s) = cpus_ok s"
    by (rule cpus_ok_cong) (use assms in \<open>simp_all add: upd_cpu_def\<close>)
  then show ?thesis
    using assms by (simp add: cli_state_def) (simp add: upd_cpu_def)
qed

lemma cli_state_lcr3 [simp]: "cli_state c (lcr3 v s) n ena = cli_state c s n ena"
  by (rule cli_state_cong; simp add: lcr3_def)

lemma switchuvm_cli_state:
  assumes "cli_state c s n ena" and "Suc n < 2 ^ 31" and "pkstack p \<noteq> 0" and "ppgdir p \<noteq> 0"
  shows "\<exists>s'. switchuvm c p s = Inr s' \<and> cli_state c s' n ena"
proof -
  obtain s1 where s1: "pushcli c s = Inr s1" "cli_state c s1 (Suc n) ena"
    using pushcli_cli_state [OF assms(1,2)] by blast
  then have "mycpu c s1 = Inr c"
    by (intro mycpu_self) (simp_all add: cli_state_def)
  then show ?thesis
    using s1 assms(3,4) unfolding switchuvm_def Let_def
    by (auto intro!: popcli_cli_state simp: cli_state_upd_cpu)
qed

lemma yield_at_switch:
  assumes "cli_state c s 0 ena" and "locked (ptable_lock s) = 0"
  shows "\<exists>s'. yield c p s = Inr (ena, s') \<and> at_switch c ena s' \<and> tab_frame (set_state p RUNNABLE s) s'"
proof -
  obtain s1 where s1: "lock_ptable c s = Inr s1" "cli_state c s1 1 ena"
    "ptable_lock s1 = \<lparr>locked = 1, lk_cpu = Some c\<rparr>" "tab_frame s s1"
    using lock_ptable_cli_state [OF assms(1) _ assms(2)] by auto
  then have at: "at_switch c ena (set_state p RUNNABLE s1)"
    by (simp add: at_switch_def)
  obtain s2 where "sched c p (set_state p RUNNABLE s1) = Inr (ena, s2)" "at_switch c ena s2"
    "tab_frame (set_state p RUNNABLE s1) s2"
    using sched_at_switch [OF at, of p] by auto
  moreover have "tab_frame (set_state p RUNNABLE s) (set_state p RUNNABLE s1)"
    using s1(4) by (simp add: tab_frame_def)
  ultimately show ?thesis
    using s1(1) by (auto simp: yield_def intro: tab_frame_trans)
qed


lemma sleep_at_switch:
  assumes "cli_state c s 1 ena" and "locked (ptable_lock s) = 0" and "locked l \<noteq> 0" and "lk_cpu l = Some c"
  shows "\<exists>s'. sleep c p ch l s = Inr (ena, \<lparr>locked = 0, lk_cpu = None\<rparr>, s') \<and> at_switch c ena s'
    \<and> tab_frame (upd_proc p (\<lambda>q. q\<lparr>pchan := Some ch, pstate := SLEEPING\<rparr>) s) s'"
proof -
  let ?f = "\<lambda>q. q\<lparr>pchan := Some ch, pstate := SLEEPING\<rparr>"
  obtain s1 where s1: "lock_ptable c s = Inr s1" "cli_state c s1 (Suc 1) ena"
    "ptable_lock s1 = \<lparr>locked = 1, lk_cpu = Some c\<rparr>" "tab_frame s s1"
    using lock_ptable_cli_state [OF assms(1) _ assms(2)] by auto
  obtain s2 where s2: "release c l s1 = Inr (\<lparr>locked = 0, lk_cpu = None\<rparr>, s2)" "cli_state c s2 1 ena"
    "cpu_frame s1 s2"
    using release_cli_state [OF s1(2) _ assms(3,4)] by auto
  have "ptable_lock s2 = ptable_lock s1"
    using s2(3) by (cases s1; cases s2) (simp add: cpu_frame_def)
  then have at: "at_switch c ena (upd_proc p ?f s2)"
    using s1 s2 by (simp add: at_switch_def)
  obtain s3 where "sched c p (upd_proc p ?f s2) = Inr (ena, s3)" "at_switch c ena s3"
    "tab_frame (upd_proc p ?f s2) s3"
    using sched_at_switch [OF at, of p] by auto
  moreover have "tab_frame (upd_proc p ?f s) (upd_proc p ?f s2)"
    using s1(4) cpu_tab_frame [OF s2(3)] by (simp add: tab_frame_def)
  ultimately show ?thesis
    using s1(1) s2(1) by (auto simp: sleep_def intro: tab_frame_trans)
qed

lemma sleep_resume_at_switch:
  assumes "at_switch c e s" and "locked l = 0"
  shows "\<exists>s'. sleep_resume c p ena l s = Inr (Some \<lparr>locked = 1, lk_cpu = Some c\<rparr>, s') \<and> cli_state c s' 1 ena
    \<and> locked (ptable_lock s') = 0 \<and> tab_frame (upd_proc p (\<lambda>q. q\<lparr>pchan := None\<rparr>) s) s'"
proof -
  let ?f = "\<lambda>q. q\<lparr>pchan := None\<rparr>"
  obtain s1 where s1: "sched_resume c ena s = Inr s1" "at_switch c ena s1" "tab_frame s s1"
    using sched_resume_at_switch [OF assms(1)] by blast
  have "at_switch c ena (upd_proc p ?f s1)"
    using s1(2) by simp
  then obtain s2 where s2: "unlock_ptable c (upd_proc p ?f s1) = Inr s2" "cli_state c s2 0 ena"
    "ptable_lock s2 = \<lparr>locked = 0, lk_cpu = None\<rparr>" "tab_frame (upd_proc p ?f s1) s2"
    using unlock_ptable_at_switch by blast
  obtain s3 where s3: "acquire c l s2 = Inr (Some \<lparr>locked = 1, lk_cpu = Some c\<rparr>, s3)" "cli_state c s3 1 ena"
    "cpu_frame s2 s3"
    using acquire_cli_state [OF s2(2) _ assms(2)] by auto
  have "ptable_lock s3 = ptable_lock s2"
    using s3(3) by (cases s2; cases s3) (simp add: cpu_frame_def)
  moreover have "tab_frame (upd_proc p ?f s) (upd_proc p ?f s1)"
    using s1(3) by (simp add: tab_frame_def)
  ultimately show ?thesis
    using s1(1) s2 s3 cpu_tab_frame [OF s3(3)] by (auto simp: sleep_resume_def intro: tab_frame_trans)
qed

section \<open>Which CPU runs which process\<close>

text \<open>
  The steps by which the table and the CPUs' current processes change. A process that switches
  away runs to its \<^verbatim>\<open>swtch\<close> and the scheduler's \<open>scheduler_back\<close> follows; \<open>forked\<close> is the last
  assignment of \<^verbatim>\<open>fork\<close> and of \<^verbatim>\<open>userinit\<close>. The process numbers are followed up to the point where
  \<^verbatim>\<open>nextpid\<close> wraps.
\<close>

inductive sched_step :: "ptable_state \<Rightarrow> ptable_state \<Rightarrow> bool" where
  run: "c < ncpu s \<Longrightarrow> cproc (cpus s c) = None \<Longrightarrow> scheduler_run c k s = Inr (r, t) \<Longrightarrow> sched_step s t"
| yields: "c < ncpu s \<Longrightarrow> cproc (cpus s c) = Some p \<Longrightarrow> yield c p s = Inr (ena, t) \<Longrightarrow>
    sched_step s (scheduler_back c t)"
| sleeps: "c < ncpu s \<Longrightarrow> cproc (cpus s c) = Some p \<Longrightarrow> sleep c p ch l s = Inr (ena, l', t) \<Longrightarrow>
    sched_step s (scheduler_back c t)"
| exits: "c < ncpu s \<Longrightarrow> cproc (cpus s c) = Some p \<Longrightarrow> exit_switch c p s = Inr (ena, t) \<Longrightarrow>
    sched_step s (scheduler_back c t)"
| wakes: "sched_step s (wakeup ch s)"
| kills: "kill k s = (r, t) \<Longrightarrow> sched_step s t"
| allocs: "nextpid s \<noteq> - 1 \<Longrightarrow> allocproc s = (r, t) \<Longrightarrow> sched_step s t"
| forked: "p < NPROC \<Longrightarrow> pstate (ptable s p) = EMBRYO \<Longrightarrow> sched_step s (set_state p RUNNABLE s)"
| waits: "c < ncpu s \<Longrightarrow> cproc (cpus s c) = Some p \<Longrightarrow> wait_pass p s = Inr (r, t) \<Longrightarrow> sched_step s t"

inductive sched_steps :: "ptable_state \<Rightarrow> ptable_state \<Rightarrow> bool" where
  steps_refl: "sched_steps s s"
| steps_next: "sched_steps s t \<Longrightarrow> sched_step t u \<Longrightarrow> sched_steps s u"

text \<open>
  A process is running exactly while some CPU has it as its current process, and then only one
  has; process numbers in use are distinct and have been handed out.
\<close>

definition run_inv :: "'a ptable_state_scheme \<Rightarrow> bool" where
  "run_inv s \<longleftrightarrow>
     (\<forall>c < ncpu s. \<forall>p. cproc (cpus s c) = Some p \<longrightarrow> p < NPROC \<and> pstate (ptable s p) = RUNNING)
     \<and> (\<forall>c < ncpu s. \<forall>d < ncpu s. cproc (cpus s c) \<noteq> None \<longrightarrow> cproc (cpus s c) = cproc (cpus s d) \<longrightarrow> c = d)
     \<and> (\<forall>p < NPROC. pstate (ptable s p) = RUNNING \<longrightarrow> (\<exists>c < ncpu s. cproc (cpus s c) = Some p))"

lemma run_inv_cpu:
  "run_inv s \<Longrightarrow> c < ncpu s \<Longrightarrow> cproc (cpus s c) = Some p \<Longrightarrow> p < NPROC \<and> pstate (ptable s p) = RUNNING"
  unfolding run_inv_def by blast

lemma run_inv_one:
  "run_inv s \<Longrightarrow> c < ncpu s \<Longrightarrow> d < ncpu s \<Longrightarrow> cproc (cpus s c) = Some p \<Longrightarrow> cproc (cpus s d) = Some p \<Longrightarrow> c = d"
  unfolding run_inv_def by (metis option.distinct(1))

lemma run_inv_on:
  "run_inv s \<Longrightarrow> p < NPROC \<Longrightarrow> pstate (ptable s p) = RUNNING \<Longrightarrow> \<exists>c < ncpu s. cproc (cpus s c) = Some p"
  unfolding run_inv_def by blast

definition pid_inv :: "'a ptable_state_scheme \<Rightarrow> bool" where
  "pid_inv s \<longleftrightarrow>
     (\<forall>p < NPROC. pstate (ptable s p) \<noteq> UNUSED \<longrightarrow> pid (ptable s p) < nextpid s)
     \<and> (\<forall>p < NPROC. \<forall>q < NPROC. pstate (ptable s p) \<noteq> UNUSED \<longrightarrow> pstate (ptable s q) \<noteq> UNUSED \<longrightarrow>
          pid (ptable s p) = pid (ptable s q) \<longrightarrow> p = q)"


lemma keeps_ptable:
  "keeps s s' \<Longrightarrow> ptable s' = ptable s \<and> cpus s' = cpus s \<and> ncpu s' = ncpu s \<and> initproc s' = initproc s
    \<and> nextpid s' = nextpid s \<and> hw_if s' = hw_if s \<and> lapic s' = lapic s \<and> ptable_lock s' = ptable_lock s
    \<and> ticks s' = ticks s \<and> forkret_sym s' = forkret_sym s \<and> trapret_sym s' = trapret_sym s"
  by (cases s; cases s') (simp add: keeps_def)

text \<open>
  A step that starts and stops no process on a CPU, and one that takes processes from \<^verbatim>\<open>ZOMBIE\<close> to
  \<^verbatim>\<open>UNUSED\<close> at most.
\<close>

definition quiet :: "'a ptable_state_scheme \<Rightarrow> 'a ptable_state_scheme \<Rightarrow> bool" where
  "quiet s t \<longleftrightarrow> ncpu t = ncpu s \<and> (\<forall>c. cproc (cpus t c) = cproc (cpus s c))
     \<and> (\<forall>p. pstate (ptable t p) = RUNNING \<longleftrightarrow> pstate (ptable s p) = RUNNING)"

definition pids_kept :: "'a ptable_state_scheme \<Rightarrow> 'a ptable_state_scheme \<Rightarrow> bool" where
  "pids_kept s t \<longleftrightarrow> nextpid t = nextpid s
     \<and> (\<forall>p. pstate (ptable t p) \<noteq> UNUSED \<longrightarrow> pstate (ptable s p) \<noteq> UNUSED \<and> pid (ptable t p) = pid (ptable s p))"

lemma quiet_refl [simp]: "quiet s s" "pids_kept s s"
  by (simp_all add: quiet_def pids_kept_def)

lemma quiet_trans: "quiet s t \<Longrightarrow> quiet t u \<Longrightarrow> quiet s u" "pids_kept s t \<Longrightarrow> pids_kept t u \<Longrightarrow> pids_kept s u"
  by (simp_all add: quiet_def pids_kept_def)

lemma tab_frame_quiet: "tab_frame s t \<Longrightarrow> quiet s t" "tab_frame s t \<Longrightarrow> pids_kept s t"
  by (simp_all add: quiet_def pids_kept_def tab_frame_def)

lemma keeps_quiet: "keeps s t \<Longrightarrow> quiet s t" "keeps s t \<Longrightarrow> pids_kept s t"
  using keeps_ptable [of s t] by (simp_all add: quiet_def pids_kept_def)

lemma quiet_run_inv: "quiet s t \<Longrightarrow> run_inv s \<Longrightarrow> run_inv t"
  by (simp add: quiet_def run_inv_def) blast

lemma pids_kept_pid_inv: "pids_kept s t \<Longrightarrow> pid_inv s \<Longrightarrow> pid_inv t"
  unfolding pids_kept_def pid_inv_def by metis

lemma wakeup1_quiet: "quiet s (wakeup1 ch s)" "pids_kept s (wakeup1 ch s)"
  by (auto simp: quiet_def pids_kept_def wakeup1_ptable)

lemma upd_quiet:
  "(pstate (f (ptable s p)) = RUNNING \<longleftrightarrow> pstate (ptable s p) = RUNNING) \<Longrightarrow> quiet s (upd_proc p f s)"
  by (simp add: quiet_def)

lemma upd_pids_kept:
  "pstate (f (ptable s p)) = UNUSED \<or> pstate (ptable s p) \<noteq> UNUSED \<and> pid (f (ptable s p)) = pid (ptable s p) \<Longrightarrow>
   pids_kept s (upd_proc p f s)"
  by (auto simp: pids_kept_def)

lemma fold_inv: "P s \<Longrightarrow> (\<And>x s. x \<in> set xs \<Longrightarrow> P s \<Longrightarrow> P (f x s)) \<Longrightarrow> P (fold f xs s)"
  by (induction xs arbitrary: s) auto

text \<open>CPU \<open>c\<close> gives up its process \<open>p\<close>.\<close>

definition gives_up :: "nat \<Rightarrow> nat \<Rightarrow> 'a ptable_state_scheme \<Rightarrow> 'a ptable_state_scheme \<Rightarrow> bool" where
  "gives_up c p s t \<longleftrightarrow> ncpu t = ncpu s \<and> (\<forall>d. cproc (cpus t d) = (if d = c then None else cproc (cpus s d)))
     \<and> (\<forall>q. pstate (ptable t q) = RUNNING \<longleftrightarrow> q \<noteq> p \<and> pstate (ptable s q) = RUNNING)"

lemma gives_up_run_inv:
  assumes inv: "run_inv s" and c: "c < ncpu s" "cproc (cpus s c) = Some p" and g: "gives_up c p s t"
  shows "run_inv t"
proof -
  have only: "d = c" if "d < ncpu s" "cproc (cpus s d) = Some p" for d
    using inv c that unfolding run_inv_def by (metis option.distinct(1))
  have cp: "cproc (cpus t d) = Some q \<longleftrightarrow> d \<noteq> c \<and> cproc (cpus s d) = Some q" for d q
    using g by (simp add: gives_up_def)
  have run: "pstate (ptable t q) = RUNNING \<longleftrightarrow> q \<noteq> p \<and> pstate (ptable s q) = RUNNING" and n: "ncpu t = ncpu s" for q
    using g by (simp_all add: gives_up_def)
  show ?thesis
    unfolding run_inv_def
  proof (intro conjI allI impI)
    fix d q
    assume d: "d < ncpu t" "cproc (cpus t d) = Some q"
    show "q < NPROC"
      using d inv cp n unfolding run_inv_def by metis
    show "pstate (ptable t q) = RUNNING"
      using d inv cp [of d q] run [of q] n only [of d] unfolding run_inv_def by metis
  next
    fix d e
    assume de: "d < ncpu t" "e < ncpu t" "cproc (cpus t d) \<noteq> None" "cproc (cpus t d) = cproc (cpus t e)"
    then obtain q where "cproc (cpus t d) = Some q" "cproc (cpus t e) = Some q"
      by auto
    then show "d = e"
      using inv cp n de(1,2) unfolding run_inv_def by (metis option.distinct(1))
  next
    fix q
    assume "q < NPROC" "pstate (ptable t q) = RUNNING"
    then show "\<exists>d<ncpu t. cproc (cpus t d) = Some q"
      using inv cp run n c unfolding run_inv_def by (metis option.inject)
  qed
qed

lemma scheduler_back_gives_up:
  assumes "quiet s1 t" and "\<forall>d. cproc (cpus s1 d) = cproc (cpus s d)" and "ncpu s1 = ncpu s"
    and "\<And>q. pstate (ptable s1 q) = RUNNING \<longleftrightarrow> q \<noteq> p \<and> pstate (ptable s q) = RUNNING"
  shows "gives_up c p s (scheduler_back c t)"
  using assms by (simp add: gives_up_def scheduler_back_def quiet_def upd_cpu_def switchkvm_def lcr3_def)

lemma scheduler_back_pids: "pids_kept s t \<Longrightarrow> pids_kept s (scheduler_back c t)"
  by (simp add: pids_kept_def scheduler_back_def upd_cpu_def switchkvm_def lcr3_def)

lemma yield_quiet:
  assumes "yield c p s = Inr (ena, t)"
  shows "\<exists>s1. quiet s s1 \<and> pids_kept s s1 \<and> tab_frame (set_state p RUNNABLE s1) t \<and> tab_frame s s1"
proof -
  obtain s1 where "lock_ptable c s = Inr s1" "sched c p (set_state p RUNNABLE s1) = Inr (ena, t)"
    using assms by (auto simp: yield_def andthen_eq_Inr)
  then show ?thesis
    using lock_ptable_frame sched_frame tab_frame_quiet by blast
qed

lemma exit_reparent_quiet:
  assumes "quiet s t \<and> pids_kept s t"
  shows "quiet s (exit_reparent me p t) \<and> pids_kept s (exit_reparent me p t)"
proof -
  have "quiet s (upd_proc p (\<lambda>q. q\<lparr>pparent := initproc t\<rparr>) t)"
    "pids_kept s (upd_proc p (\<lambda>q. q\<lparr>pparent := initproc t\<rparr>) t)"
    using assms by (auto simp: quiet_def pids_kept_def)
  then show ?thesis
    using assms wakeup1_quiet quiet_trans unfolding exit_reparent_def Let_def by (simp del: ptable_upd) blast
qed

lemma exit_tail_quiet:
  "\<exists>s1. quiet s s1 \<and> pids_kept s s1 \<and> exit_tail me s = set_state me ZOMBIE s1"
proof -
  let ?w = "wakeup1 (map_option ChProc (pparent (ptable s me))) s"
  have "quiet s (fold (exit_reparent me) [0..<NPROC] ?w) \<and> pids_kept s (fold (exit_reparent me) [0..<NPROC] ?w)"
    by (rule fold_inv) (simp_all add: wakeup1_quiet exit_reparent_quiet)
  then show ?thesis
    by (auto simp: exit_tail_def Let_def)
qed


lemma find_first:
  assumes "find P [k..<n] = Some p"
  shows "k \<le> p \<and> p < n \<and> P p \<and> (\<forall>q. k \<le> q \<and> q < p \<longrightarrow> \<not> P q)"
proof -
  obtain i where i: "i < n - k" "P (k + i)" "p = k + i" "\<forall>j < i. \<not> P (k + j)"
    using assms by (auto simp: find_Some_iff)
  then have "\<not> P q" if "k \<le> q" "q < p" for q
    using that i(4) [rule_format, of "q - k"] by simp
  with i show ?thesis
    by auto
qed

lemma find_none: "find P [k..<n] = None \<Longrightarrow> k \<le> q \<Longrightarrow> q < n \<Longrightarrow> \<not> P q"
  by (auto simp: find_None_iff)

lemma allocproc_effect:
  assumes "allocproc s = (r, t)"
  shows "cpus t = cpus s \<and> ncpu t = ncpu s \<and> initproc t = initproc s \<and>
    (r = None \<and> t = s \<or>
     (\<exists>p < NPROC. pstate (ptable s p) = UNUSED \<and> nextpid t = nextpid s + 1 \<and> pid (ptable t p) = nextpid s
       \<and> pstate (ptable t p) = (if r = None then UNUSED else EMBRYO) \<and> (r = None \<or> r = Some p)
       \<and> (\<forall>q. q \<noteq> p \<longrightarrow> ptable t q = ptable s q)))"
proof (cases "find (\<lambda>p. pstate (ptable s p) = UNUSED) [0..<NPROC]")
  case None
  then show ?thesis
    using assms by (simp add: allocproc_def)
next
  case (Some p)
  then have p: "p < NPROC" "pstate (ptable s p) = UNUSED"
    using find_first by blast+
  let ?s = "upd_proc p (\<lambda>q. q\<lparr>pstate := EMBRYO, pid := nextpid s\<rparr>) s\<lparr>nextpid := nextpid s + 1\<rparr>"
  obtain v s1 where k: "kalloc ?s = (v, s1)"
    by (cases "kalloc ?s")
  have s1: "ptable s1 = ptable ?s" "cpus s1 = cpus s" "ncpu s1 = ncpu s" "initproc s1 = initproc s"
    "nextpid s1 = nextpid s + 1"
    using keeps_ptable [OF kalloc_keeps [OF k]] by simp_all
  show ?thesis
  proof (cases "v = 0")
    case True
    then have "r = None" "t = set_state p UNUSED (upd_proc p (\<lambda>q. q\<lparr>pkstack := v\<rparr>) s1)"
      using assms Some k by (auto simp: allocproc_def Let_def)
    then show ?thesis
      using p s1 by auto
  next
    case False
    then have "r = Some p \<and> cpus t = cpus s1 \<and> ncpu t = ncpu s1 \<and> initproc t = initproc s1 \<and> nextpid t = nextpid s1
      \<and> pid (ptable t p) = pid (ptable s1 p) \<and> pstate (ptable t p) = pstate (ptable s1 p)
      \<and> (\<forall>q. q \<noteq> p \<longrightarrow> ptable t q = ptable s1 q)"
      using assms Some k by (auto simp: allocproc_def Let_def)
    then show ?thesis
      using p s1 by auto
  qed
qed

lemma allocproc_quiet: "allocproc s = (r, t) \<Longrightarrow> quiet s t"
  by (drule allocproc_effect) (auto simp: quiet_def split: if_splits, (metis procstate.distinct)+)

lemma allocproc_pid_inv:
  assumes a: "allocproc s = (r, t)" and n: "nextpid s \<noteq> - 1" and inv: "pid_inv s"
  shows "pid_inv t"
proof (cases "t = s")
  case False
  obtain p where p: "p < NPROC" "nextpid t = nextpid s + 1" "pid (ptable t p) = nextpid s"
    "\<forall>q. q \<noteq> p \<longrightarrow> ptable t q = ptable s q"
    using allocproc_effect [OF a] False by blast
  have lt: "x < nextpid s + 1 \<longleftrightarrow> x \<le> nextpid s" for x
  proof -
    have "1 + nextpid s \<noteq> 0"
      using n by (metis add.commute eq_neg_iff_add_eq_0)
    from unatSuc [OF this] show ?thesis
      by (simp add: word_less_nat_alt word_le_nat_alt less_Suc_eq_le add.commute)
  qed
  show ?thesis
    unfolding pid_inv_def
  proof (intro conjI allI impI)
    fix q
    assume "q < NPROC" "pstate (ptable t q) \<noteq> UNUSED"
    then show "pid (ptable t q) < nextpid t"
      using inv p lt unfolding pid_inv_def by (cases "q = p") (auto simp: word_le_less_eq)
  next
    fix q q'
    assume "q < NPROC" "q' < NPROC" "pstate (ptable t q) \<noteq> UNUSED" "pstate (ptable t q') \<noteq> UNUSED"
      "pid (ptable t q) = pid (ptable t q')"
    then show "q = q'"
      using inv p unfolding pid_inv_def by (metis order_less_irrefl)
  qed
qed (use inv in simp)

lemma wait_pass_quiet:
  assumes "wait_pass me s = Inr (r, t)"
  shows "quiet s t \<and> pids_kept s t"
proof -
  obtain fl where loop: "for_each (wait_body me) [0..<NPROC] (False, s) = Inr fl"
    and fin: "(case fl of Leave k (_, s) \<Rightarrow> Inr (Done k, s)
       | Next (havekids, s) \<Rightarrow>
           if \<not> havekids \<or> pkilled (ptable s me) then Inr (Done (- 1), s)
           else Inr (Block (ChProc me), s)) = (Inr (r, t) :: _ result)"
    using assms by (auto simp: wait_pass_def andthen_eq_Inr)
  have "quiet s (snd (flow_state fl)) \<and> pids_kept s (snd (flow_state fl))"
    using loop
  proof (rule for_each_inv [where P = "\<lambda>(_, t). quiet s t \<and> pids_kept s t", unfolded case_prod_unfold])
    fix p x f
    assume "quiet s (snd x) \<and> pids_kept s (snd x)" and b: "wait_body me p x = Inr f"
    moreover obtain h t where x: "x = (h, t)"
      by (cases x)
    ultimately have t: "quiet s t" "pids_kept s t"
      by simp_all
    show "quiet s (snd (flow_state f)) \<and> pids_kept s (snd (flow_state f))"
    proof (cases "pparent (ptable t p) = Some me \<and> pstate (ptable t p) = ZOMBIE")
      case True
      then obtain t1 t2 where t1: "kfree (pkstack (ptable t p)) t = Inr t1"
        and t2: "freevm (ppgdir (ptable t1 p)) (upd_proc p (\<lambda>q. q\<lparr>pkstack := 0\<rparr>) t1) = Inr t2"
        and f: "f = Leave (pid (ptable t p)) (True, upd_proc p (\<lambda>q. q\<lparr>pid := 0, pparent := None, pname := [],
                   pkilled := False, pstate := UNUSED\<rparr>) t2)"
        using b x by (auto simp: wait_body_def andthen_eq_Inr)
      have "quiet s t2" "pids_kept s t2" "ptable t2 p = (ptable t p)\<lparr>pkstack := 0\<rparr>"
        using t keeps_ptable [OF kfree_keeps [OF t1]] keeps_ptable [OF freevm_keeps [OF t2]]
        by (auto simp: quiet_def pids_kept_def)
      moreover from this(3) have "pstate (ptable t2 p) \<noteq> RUNNING"
        using True by simp
      moreover from this calculation(1) have "pstate (ptable s p) \<noteq> RUNNING"
        unfolding quiet_def by blast
      ultimately show ?thesis
        using f by (auto simp: quiet_def pids_kept_def)
    qed (use b x t in \<open>auto simp: wait_body_def split: if_splits\<close>)
  qed simp
  then show ?thesis
    using fin by (cases fl) (auto split: if_splits)
qed


lemma scheduler_run_inv:
  assumes r: "scheduler_run c k s = Inr (r, t)" and c: "c < ncpu s" "cproc (cpus s c) = None"
    and inv: "run_inv s"
  shows "run_inv t \<and> pids_kept s t"
proof (cases "find (\<lambda>p. pstate (ptable s p) = RUNNABLE) [k..<NPROC]")
  case None
  then have "unlock_ptable c s = Inr t"
    using r by (auto simp: scheduler_run_def andthen_eq_Inr)
  then show ?thesis
    using inv unlock_ptable_frame tab_frame_quiet quiet_run_inv by blast
next
  case (Some p)
  then have p: "p < NPROC" "pstate (ptable s p) = RUNNABLE"
    using find_first by blast+
  obtain t1 where t1: "switchuvm c (ptable s p) (upd_cpu c (\<lambda>i. i\<lparr>cproc := Some p\<rparr>) s) = Inr t1"
    and t: "t = set_state p RUNNING t1"
    using r Some by (auto simp: scheduler_run_def Let_def andthen_eq_Inr upd_cpu_def)
  have frame: "tab_frame (upd_cpu c (\<lambda>i. i\<lparr>cproc := Some p\<rparr>) s) t1"
    using cpu_tab_frame switchuvm_frame t1 by blast
  have tab: "ptable t = (ptable s)(p := (ptable s p)\<lparr>pstate := RUNNING\<rparr>)" "ncpu t = ncpu s" "nextpid t = nextpid s"
    and cp: "cproc (cpus t d) = (if d = c then Some p else cproc (cpus s d))" for d
    using frame t by (auto simp: tab_frame_def upd_cpu_def)
  have no: "cproc (cpus s d) \<noteq> Some p" if "d < ncpu s" for d
    using run_inv_cpu [OF inv that, of p] p(2) by auto
  have "run_inv t"
    unfolding run_inv_def tab
  proof (intro conjI allI impI)
    fix d q
    assume dq: "d < ncpu s" "cproc (cpus t d) = Some q"
    show "q < NPROC"
      using dq p cp [of d] run_inv_cpu [OF inv, of d q] by (cases "d = c") auto
    show "pstate (((ptable s)(p := (ptable s p)\<lparr>pstate := RUNNING\<rparr>)) q) = RUNNING"
      using dq cp [of d] run_inv_cpu [OF inv, of d q] by (cases "d = c") auto
  next
    fix d e
    assume "d < ncpu s" "e < ncpu s" "cproc (cpus t d) \<noteq> None" "cproc (cpus t d) = cproc (cpus t e)"
    then show "d = e"
      using no [of d] no [of e] cp [of d] cp [of e] run_inv_one [OF inv, of d e]
      by (cases "d = c"; cases "e = c") auto
  next
    fix q
    assume q: "q < NPROC" "pstate (((ptable s)(p := (ptable s p)\<lparr>pstate := RUNNING\<rparr>)) q) = RUNNING"
    show "\<exists>d<ncpu s. cproc (cpus t d) = Some q"
    proof (cases "q = p")
      case True
      then show ?thesis
        using c cp [of c] by auto
    next
      case False
      then obtain d where "d < ncpu s" "cproc (cpus s d) = Some q"
        using q run_inv_on [OF inv, of q] by auto
      then show ?thesis
        using c cp [of d] by (intro exI [of _ d]) auto
    qed
  qed
  then show ?thesis
    using p tab by (simp add: pids_kept_def)
qed

lemma leaving_inv:
  assumes inv: "run_inv s" and c: "c < ncpu s" "cproc (cpus s c) = Some p"
    and s1: "quiet s s1" "pids_kept s s1" and t: "tab_frame (upd_proc p f s1) t"
    and f: "\<And>q. pstate (f q) \<noteq> RUNNING \<and> pid (f q) = pid q"
  shows "run_inv (scheduler_back c t) \<and> pids_kept s (scheduler_back c t)"
proof
  have "pstate (ptable s p) = RUNNING"
    using run_inv_cpu [OF inv c] by blast
  then have live: "pstate (ptable s1 p) = RUNNING"
    using s1(1) by (simp add: quiet_def)
  have "gives_up c p s (scheduler_back c t)"
    by (rule scheduler_back_gives_up [OF tab_frame_quiet(1) [OF t]]) (use s1(1) f in \<open>auto simp: quiet_def\<close>)
  then show "run_inv (scheduler_back c t)"
    by (rule gives_up_run_inv [OF inv c])
  have "pids_kept s1 (upd_proc p f s1)"
    using live f by (intro upd_pids_kept) simp
  then show "pids_kept s (scheduler_back c t)"
    using s1(2) tab_frame_quiet(2) [OF t] by (blast intro: scheduler_back_pids quiet_trans)
qed

lemma sched_step_inv:
  assumes "sched_step s t" and "run_inv s" and "pid_inv s"
  shows "run_inv t \<and> pid_inv t"
  using assms
proof (induction rule: sched_step.induct)
  case (run c s k r t)
  then show ?case
    using scheduler_run_inv pids_kept_pid_inv by blast
next
  case (yields c s p ena t)
  obtain s1 where "quiet s s1" "pids_kept s s1" "tab_frame (upd_proc p (\<lambda>q. q\<lparr>pstate := RUNNABLE\<rparr>) s1) t"
    using yield_quiet [OF yields(3)] by (auto simp: set_state_def)
  then have "run_inv (scheduler_back c t) \<and> pids_kept s (scheduler_back c t)"
    using yields by (intro leaving_inv) auto
  then show ?case
    using yields pids_kept_pid_inv by blast
next
  case (sleeps c s p ch l ena l' t)
  obtain s1 s2 where "lock_ptable c s = Inr s1" "release c l s1 = Inr (l', s2)"
    "sched c p (upd_proc p (\<lambda>q. q\<lparr>pchan := Some ch, pstate := SLEEPING\<rparr>) s2) = Inr (ena, t)"
    using sleeps(3) by (auto simp: sleep_def andthen_eq_Inr)
  then have "tab_frame s s2" "tab_frame (upd_proc p (\<lambda>q. q\<lparr>pchan := Some ch, pstate := SLEEPING\<rparr>) s2) t"
    using lock_ptable_frame release_frame cpu_tab_frame tab_frame_trans sched_frame by blast+
  then have "run_inv (scheduler_back c t) \<and> pids_kept s (scheduler_back c t)"
    using sleeps tab_frame_quiet by (intro leaving_inv) auto
  then show ?case
    using sleeps pids_kept_pid_inv by blast
next
  case (exits c s p ena t)
  obtain s1 where s1: "lock_ptable c s = Inr s1" "sched c p (exit_tail p s1) = Inr (ena, t)"
    using exits(3) by (auto simp: exit_switch_def andthen_eq_Inr)
  obtain s2 where s2: "quiet s1 s2" "pids_kept s1 s2" "exit_tail p s1 = upd_proc p (\<lambda>q. q\<lparr>pstate := ZOMBIE\<rparr>) s2"
    using exit_tail_quiet [of s1 p] by (auto simp: set_state_def)
  have "quiet s s2" "pids_kept s s2" "tab_frame (upd_proc p (\<lambda>q. q\<lparr>pstate := ZOMBIE\<rparr>) s2) t"
    using s1 s2 lock_ptable_frame tab_frame_quiet quiet_trans sched_frame by metis+
  then have "run_inv (scheduler_back c t) \<and> pids_kept s (scheduler_back c t)"
    using exits by (intro leaving_inv) auto
  then show ?case
    using exits pids_kept_pid_inv by blast
next
  case (wakes s ch)
  then show ?case
    using wakeup1_quiet quiet_run_inv pids_kept_pid_inv unfolding wakeup_def by blast
next
  case (kills k s r t)
  then have "quiet s t \<and> pids_kept s t"
    by (auto simp: kill_def Let_def quiet_def pids_kept_def split: option.splits if_splits)
  then show ?case
    using kills quiet_run_inv pids_kept_pid_inv by blast
next
  case (allocs s r t)
  then show ?case
    using allocproc_quiet quiet_run_inv allocproc_pid_inv by blast
next
  case (forked p s)
  then have "quiet s (set_state p RUNNABLE s) \<and> pids_kept s (set_state p RUNNABLE s)"
    by (auto simp: quiet_def pids_kept_def)
  then show ?case
    using forked quiet_run_inv pids_kept_pid_inv by blast
next
  case (waits c s p r t)
  then show ?case
    using wait_pass_quiet quiet_run_inv pids_kept_pid_inv by blast
qed

lemma sched_steps_inv: "sched_steps s t \<Longrightarrow> run_inv s \<Longrightarrow> pid_inv s \<Longrightarrow> run_inv t \<and> pid_inv t"
  by (induction rule: sched_steps.induct) (auto dest: sched_step_inv)


section \<open>Exit\<close>

lemma exit_reparent_ptable:
  "pparent (ptable (exit_reparent me x s) p) =
     (if p = x \<and> pparent (ptable s p) = Some me then initproc s else pparent (ptable s p))"
  "pstate (ptable (exit_reparent me x s) p) =
     (if p < NPROC \<and> pstate (ptable s p) = SLEEPING \<and> pchan (ptable s p) = map_option ChProc (initproc s)
         \<and> pparent (ptable s x) = Some me \<and> pstate (ptable s x) = ZOMBIE
      then RUNNABLE else pstate (ptable s p))"
  "pchan (ptable (exit_reparent me x s) p) = pchan (ptable s p)"
  "initproc (exit_reparent me x s) = initproc s"
  by (auto simp: exit_reparent_def Let_def wakeup1_ptable)

definition zombie_child :: "nat \<Rightarrow> 'a ptable_state_scheme \<Rightarrow> nat \<Rightarrow> bool" where
  "zombie_child me s z \<longleftrightarrow> pparent (ptable s z) = Some me \<and> pstate (ptable s z) = ZOMBIE"

lemma exit_reparent_zombie:
  "(\<exists>z \<in> set (x # ps). zombie_child me s z) \<longleftrightarrow>
   zombie_child me s x \<or> (\<exists>z \<in> set ps. zombie_child me (exit_reparent me x s) z)"
proof -
  have "zombie_child me (exit_reparent me x s) z \<longleftrightarrow> zombie_child me s z" if "z \<noteq> x" for z
    using that by (simp add: zombie_child_def exit_reparent_ptable)
  moreover have "zombie_child me (exit_reparent me x s) x \<Longrightarrow> zombie_child me s x"
    by (auto simp: zombie_child_def exit_reparent_ptable split: if_splits)
  ultimately show ?thesis
    by (simp, metis)
qed

lemma exit_reparent_fold:
  "pparent (ptable (fold (exit_reparent me) ps s) p) =
     (if p \<in> set ps \<and> pparent (ptable s p) = Some me then initproc s else pparent (ptable s p))"
  "pstate (ptable (fold (exit_reparent me) ps s) p) =
     (if p < NPROC \<and> pstate (ptable s p) = SLEEPING \<and> pchan (ptable s p) = map_option ChProc (initproc s)
         \<and> (\<exists>z \<in> set ps. zombie_child me s z)
      then RUNNABLE else pstate (ptable s p))"
  "pchan (ptable (fold (exit_reparent me) ps s) p) = pchan (ptable s p)"
proof (induction ps arbitrary: s)
  case (Cons x ps)
  case 1
  show ?case
    unfolding fold_simps Cons.IH(1) by (cases "p = x"; cases "p \<in> set ps") (simp_all add: exit_reparent_ptable)
next
  case (Cons x ps)
  case 2
  show ?case
    unfolding exit_reparent_zombie fold_simps Cons.IH(2)
    by (simp add: exit_reparent_ptable zombie_child_def [of me s x])
next
  case (Cons x ps)
  case 3
  show ?case
    unfolding fold_simps Cons.IH(3) by (simp add: exit_reparent_ptable)
qed simp_all

lemma wait_body_next:
  assumes "\<not> zombie_child me s p"
  shows "wait_body me p (h, s) = Inr (Next (h \<or> pparent (ptable s p) = Some me, s))"
  using assms by (auto simp: wait_body_def zombie_child_def)

lemma wait_loop_none:
  "\<forall>p \<in> set ps. \<not> zombie_child me s p \<Longrightarrow>
   for_each (wait_body me) (ps @ qs) (h, s) =
     for_each (wait_body me) qs (h \<or> (\<exists>p \<in> set ps. pparent (ptable s p) = Some me), s)"
  by (induction ps arbitrary: h) (auto simp: wait_body_next)

lemma wait_pass_closed:
  "wait_pass me s =
     (case find (zombie_child me s) [0..<NPROC] of
        Some p \<Rightarrow>
          andthen (kfree (pkstack (ptable s p)) s) (\<lambda>s1.
          andthen (freevm (ppgdir (ptable s p)) (upd_proc p (\<lambda>q. q\<lparr>pkstack := 0\<rparr>) s1)) (\<lambda>s2.
            Inr (Done (pid (ptable s p)), upd_proc p (\<lambda>q. q\<lparr>pid := 0, pparent := None, pname := [],
                pkilled := False, pstate := UNUSED\<rparr>) s2)))
      | None \<Rightarrow>
          Inr (if (\<exists>p < NPROC. pparent (ptable s p) = Some me) \<and> \<not> pkilled (ptable s me)
               then Block (ChProc me) else Done (- 1), s))"
proof (cases "find (zombie_child me s) [0..<NPROC]")
  case None
  then have "\<forall>p \<in> set [0..<NPROC]. \<not> zombie_child me s p"
    by (simp only: find_None_iff) blast
  from wait_loop_none [OF this, of "[]" False] show ?thesis
    using None by (auto simp: wait_pass_def)
next
  case (Some p)
  then have p: "p < NPROC" "zombie_child me s p" "\<forall>q \<in> set [0..<p]. \<not> zombie_child me s q"
    using find_first [OF Some] by auto
  have split: "[0..<NPROC] = [0..<p] @ p # [Suc p..<NPROC]"
    using p(1) upt_add_eq_append [of 0 p "NPROC - p"] upt_conv_Cons [of p NPROC] by simp
  have same: "ppgdir (ptable (upd_proc p (\<lambda>q. q\<lparr>pkstack := 0\<rparr>) s1) p) = ppgdir (ptable s p)"
    if "kfree (pkstack (ptable s p)) s = Inr s1" for s1
    using keeps_ptable [OF kfree_keeps [OF that]] by simp
  show ?thesis
    using p(2) Some same
    unfolding wait_pass_def split wait_loop_none [OF p(3), of "p # [Suc p..<NPROC]" False]
    by (cases "kfree (pkstack (ptable s p)) s")
      (auto simp: wait_body_def zombie_child_def andthen_def split: sum.splits)
qed

section \<open>Rounds of the scheduler\<close>

text \<open>
  One pass of CPU \<open>c\<close> over the table, from index \<open>k\<close> on, and the processes it runs. Between two
  picks the rest of the system may change the state in any way, except that process \<open>j\<close> stays
  runnable until the pass has come by.
\<close>

inductive sched_pass :: "nat \<Rightarrow> nat \<Rightarrow> nat \<Rightarrow> 'a ptable_state_scheme \<Rightarrow> nat list \<Rightarrow> bool" for c j where
  pass_over: "(k \<le> j \<Longrightarrow> pstate (ptable s j) = RUNNABLE) \<Longrightarrow> scheduler_run c k s = Inr (None, t) \<Longrightarrow>
    sched_pass c j k s []"
| pass_pick: "(k \<le> j \<Longrightarrow> pstate (ptable s j) = RUNNABLE) \<Longrightarrow> scheduler_run c k s = Inr (Some i, t) \<Longrightarrow>
    sched_pass c j (Suc i) u is \<Longrightarrow> sched_pass c j k s (i # is)"

lemma scheduler_run_pick:
  assumes "scheduler_run c k s = Inr (r, t)"
  shows "find (\<lambda>p. pstate (ptable s p) = RUNNABLE) [k..<NPROC] = r"
  using assms by (auto simp: scheduler_run_def Let_def andthen_eq_Inr split: option.splits)

lemma sched_pass_order:
  "sched_pass c j k s is \<Longrightarrow> sorted_wrt (<) is \<and> (\<forall>i \<in> set is. k \<le> i \<and> i < NPROC)"
proof (induction rule: sched_pass.induct)
  case (pass_pick k s i t u "is")
  then have "k \<le> i" "i < NPROC"
    using find_first scheduler_run_pick by blast+
  then show ?case
    using pass_pick.IH by force
qed simp

lemma sched_pass_runs:
  "sched_pass c j k s is \<Longrightarrow> k \<le> j \<Longrightarrow> j < NPROC \<Longrightarrow> j \<in> set is"
proof (induction rule: sched_pass.induct)
  case (pass_over k s t)
  then show ?case
    using find_none [OF scheduler_run_pick] by blast
next
  case (pass_pick k s i t u "is")
  have "i \<le> j"
    using find_first [OF scheduler_run_pick [OF pass_pick.hyps(2)]] pass_pick by (meson not_le)
  then show ?case
    using pass_pick by (cases "i = j") auto
qed


section \<open>Properties\<close>

text \<open>A machine with one CPU and an empty process table, for the witnesses.\<close>

definition free_proc :: proc where
  "free_proc = \<lparr>psz = 0, ppgdir = 0, pkstack = 0, pstate = UNUSED, pid = 0, pparent = None, ptf = 0, pcontext = 0,
     pchan = None, pkilled = False, pofile = (\<lambda>_. None), pcwd = None, pname = [],
     pmmap = (\<lambda>_. \<lparr>r_addr = 0, r_length = 0, r_flags = 0, r_used = False, r_fd = 0, r_loaded = 0\<rparr>),
     pwmap = \<lparr>wi_total = 0, wi_addr = (\<lambda>_. 0), wi_length = (\<lambda>_. 0), wi_loaded = (\<lambda>_. 0)\<rparr>, ptotal_mmaps = 0\<rparr>"

definition idle_cpu :: cpu where
  "idle_cpu = \<lparr>apicid = 0, ncli = 0, intena = False, cproc = None, gdt = (\<lambda>_. SEG 0 0 0 0),
     ts_ss0 = 0, ts_esp0 = 0, ts_iomb = 0, ts_addr = 0, task_reg = 0\<rparr>"

definition empty_state :: ptable_state where
  "empty_state = \<lparr>mem = (\<lambda>_. 0), use_lock = True, freelist = 0x80400000, ref_counts = (\<lambda>_. 0),
     kern_end = 0x80115000, cr3 = 0, kpgdir = 0x803ff000, kdata = 0x80108000, cpus = (\<lambda>_. idle_cpu), ncpu = 1,
     hw_if = (\<lambda>_. True), lapic = (\<lambda>_. 0), ptable = (\<lambda>_. free_proc), ptable_lock = initlock, initproc = None,
     nextpid = 1, ticks = 0, forkret_sym = 0x80103e00, trapret_sym = 0x80105d00\<rparr>"

lemma empty_cpus_ok: "cpus_ok empty_state"
  by (auto simp: cpus_ok_def empty_state_def idle_cpu_def inj_on_def)


definition one_ready :: ptable_state where
  "one_ready = set_state 0 RUNNABLE (snd (allocproc empty_state))"



definition ready_state :: ptable_state where
  "ready_state = empty_state\<lparr>ptable := (\<lambda>_. free_proc)(3 := free_proc\<lparr>pstate := RUNNABLE, pkstack := 0x80401000,
       ppgdir := 0x80402000\<rparr>), ptable_lock := \<lparr>locked = 1, lk_cpu = Some 0\<rparr>,
     cpus := (\<lambda>_. idle_cpu\<lparr>ncli := 1\<rparr>), hw_if := (\<lambda>_. False)\<rparr>"



text \<open>
  C16. \<^verbatim>\<open>sleep\<close> from a process that holds its lock and no other never panics and reaches the switch
  with the lock free, \<^verbatim>\<open>ptable.lock\<close> held, the process asleep on the channel and the interrupt flag
  saved; a \<^verbatim>\<open>wakeup\<close> of the channel makes exactly the sleepers on it runnable; and when some CPU
  \<open>d\<close>, perhaps another one, switches to the process again, it comes back with its lock held,
  \<^verbatim>\<open>ptable.lock\<close> free, no channel, and the interrupt state it had.
\<close>

theorem sleep_wakeup_resume:
  assumes "cli_state c s 1 ena" and "locked (ptable_lock s) = 0" and "locked l \<noteq> 0" and "lk_cpu l = Some c"
    and "p < NPROC" and "at_switch d e u" and "locked l' = 0"
  shows "\<exists>t v. sleep c p ch l s = Inr (ena, initlock, t) \<and> at_switch c ena t
      \<and> pstate (ptable t p) = SLEEPING \<and> pchan (ptable t p) = Some ch
      \<and> pstate (ptable (wakeup ch t) p) = RUNNABLE
      \<and> (\<forall>q. q \<noteq> p \<longrightarrow> ptable (wakeup ch t) q =
            (if q < NPROC \<and> pstate (ptable s q) = SLEEPING \<and> pchan (ptable s q) = Some ch
             then (ptable s q)\<lparr>pstate := RUNNABLE\<rparr> else ptable s q))
      \<and> sleep_resume d p ena l' u = Inr (Some \<lparr>locked = 1, lk_cpu = Some d\<rparr>, v) \<and> cli_state d v 1 ena
      \<and> locked (ptable_lock v) = 0 \<and> ptable v = (ptable u)(p := (ptable u p)\<lparr>pchan := None\<rparr>)"
proof -
  obtain t where t: "sleep c p ch l s = Inr (ena, initlock, t)" "at_switch c ena t"
    "ptable t = (ptable s)(p := (ptable s p)\<lparr>pchan := Some ch, pstate := SLEEPING\<rparr>)"
    using sleep_at_switch [OF assms(1-4), of p ch] by (auto simp: initlock_def tab_frame_def)
  moreover obtain v where "sleep_resume d p ena l' u = Inr (Some \<lparr>locked = 1, lk_cpu = Some d\<rparr>, v)"
    "cli_state d v 1 ena" "locked (ptable_lock v) = 0" "ptable v = (ptable u)(p := (ptable u p)\<lparr>pchan := None\<rparr>)"
    using sleep_resume_at_switch [OF assms(6,7), of p ena] by (auto simp: tab_frame_def)
  ultimately show ?thesis
    using assms(5) by (intro exI [of _ t] exI [of _ v]) (simp add: wakeup_def wakeup1_ptable)
qed

theorem sleep_wakeup_resume_witness:
  "\<exists>t. sleep 0 0 ChTicks \<lparr>locked = 1, lk_cpu = Some 0\<rparr> (ready_state\<lparr>ptable_lock := initlock\<rparr>)
      = Inr (False, initlock, t) \<and> pstate (ptable (wakeup ChTicks t) 0) = RUNNABLE"
proof -
  have at: "cli_state 0 ready_state 1 False"
    by (auto simp: cli_state_def ready_state_def empty_state_def idle_cpu_def cpus_ok_def inj_on_def)
  then have "cli_state 0 (ready_state\<lparr>ptable_lock := initlock\<rparr>) 1 False" "at_switch 0 False ready_state"
    by (simp, simp add: at_switch_def) (simp add: ready_state_def)
  from sleep_wakeup_resume [OF this(1) _ _ _ _ this(2), of "\<lparr>locked = 1, lk_cpu = Some 0\<rparr>" 0 initlock ChTicks]
  show ?thesis
    by (auto simp: initlock_def)
qed

text \<open>
  C17. \<^verbatim>\<open>wait\<close>, on every branch: with a dead child it frees the stack and the address space of the first
  one, clears its slot and returns its number; without one it returns \<open>-1\<close> at once if there is no
  child at all or the caller has been killed, and otherwise sleeps, having changed nothing.
\<close>

theorem wait_outcome:
  "wait_pass me s =
     (case find (zombie_child me s) [0..<NPROC] of
        Some p \<Rightarrow>
          andthen (kfree (pkstack (ptable s p)) s) (\<lambda>s1.
          andthen (freevm (ppgdir (ptable s p)) (upd_proc p (\<lambda>q. q\<lparr>pkstack := 0\<rparr>) s1)) (\<lambda>s2.
            Inr (Done (pid (ptable s p)), upd_proc p (\<lambda>q. q\<lparr>pid := 0, pparent := None, pname := [],
                pkilled := False, pstate := UNUSED\<rparr>) s2)))
      | None \<Rightarrow>
          Inr (if (\<exists>p < NPROC. pparent (ptable s p) = Some me) \<and> \<not> pkilled (ptable s me)
               then Block (ChProc me) else Done (- 1), s))"
  by (rule wait_pass_closed)

text \<open>
  C18. \<^verbatim>\<open>exit\<close> and \<^verbatim>\<open>wait\<close> meet: after the end of \<^verbatim>\<open>exit\<close> in a process whose parent sleeps in \<^verbatim>\<open>wait\<close>, the
  process is a zombie, the parent is runnable and its next pass of \<^verbatim>\<open>wait\<close> does not block; the
  children of the process belong to \<^verbatim>\<open>init\<close>, which is awake if one of them is a zombie; no other
  process has changed its state.
\<close>

theorem exit_wakes_parent:
  assumes "me < NPROC" and "q < NPROC" and "q \<noteq> me" and "pparent (ptable s me) = Some q"
    and "pstate (ptable s q) = SLEEPING" and "pchan (ptable s q) = Some (ChProc q)" and "initproc s \<noteq> Some me"
    and t_def: "t = exit_tail me s"
  shows "pstate (ptable t me) = ZOMBIE \<and> pstate (ptable t q) = RUNNABLE
    \<and> (\<forall>r u. wait_pass q t = Inr (r, u) \<longrightarrow> r \<noteq> Block (ChProc q))
    \<and> (\<forall>p < NPROC. pparent (ptable t p) = (if pparent (ptable s p) = Some me then initproc s else pparent (ptable s p)))
    \<and> (\<forall>i < NPROC. \<forall>z < NPROC. initproc s = Some i \<and> zombie_child me s z \<and> pstate (ptable s i) = SLEEPING
          \<and> pchan (ptable s i) = Some (ChProc i) \<longrightarrow> pstate (ptable t i) = RUNNABLE)
    \<and> (\<forall>p. p \<noteq> me \<and> (pstate (ptable s p) \<noteq> SLEEPING \<or>
          pchan (ptable s p) \<notin> {Some (ChProc q), map_option ChProc (initproc s)})
          \<longrightarrow> pstate (ptable t p) = pstate (ptable s p))"
proof -
  let ?w = "wakeup1 (Some (ChProc q)) s"
  have t: "t = set_state me ZOMBIE (fold (exit_reparent me) [0..<NPROC] ?w)"
    using assms(4) by (simp add: t_def exit_tail_def Let_def)
  have zc: "zombie_child me ?w z \<longleftrightarrow> zombie_child me s z" for z
    by (auto simp: zombie_child_def wakeup1_ptable)
  have par: "pparent (ptable t p) = (if pparent (ptable s p) = Some me then initproc s else pparent (ptable s p))"
    if "p < NPROC" for p
    using that by (simp add: t exit_reparent_fold wakeup1_ptable)
  have st: "pstate (ptable t p) =
     (if p < NPROC \<and> pstate (ptable ?w p) = SLEEPING \<and> pchan (ptable ?w p) = map_option ChProc (initproc s)
         \<and> (\<exists>z \<in> set [0..<NPROC]. zombie_child me s z)
      then RUNNABLE else pstate (ptable ?w p))" if "p \<noteq> me" for p
    using that by (simp add: t exit_reparent_fold zc)
  have z: "pstate (ptable t me) = ZOMBIE"
    by (simp add: t)
  moreover have "pstate (ptable t q) = RUNNABLE"
    using st [OF assms(3)] assms(2,5,6) by (simp add: wakeup1_ptable)
  moreover have "r \<noteq> Block (ChProc q)" if r: "wait_pass q t = Inr (r, u)" for r u
  proof -
    have "zombie_child q t me"
      using z par [OF assms(1)] assms(3,4) by (simp add: zombie_child_def)
    then have "find (zombie_child q t) [0..<NPROC] \<noteq> None"
      using assms(1) by (auto simp: find_None_iff)
    then show ?thesis
      using r [unfolded wait_pass_closed] by (auto simp: andthen_eq_Inr split: option.splits)
  qed
  moreover have "pstate (ptable t i) = RUNNABLE"
    if "i < NPROC" "z < NPROC" "initproc s = Some i" "zombie_child me s z" "pstate (ptable s i) = SLEEPING"
      "pchan (ptable s i) = Some (ChProc i)" for i z
    using that st [of i] assms(7) by (auto simp: wakeup1_ptable)
  moreover have "pstate (ptable t p) = pstate (ptable s p)"
    if "p \<noteq> me" "pstate (ptable s p) \<noteq> SLEEPING \<or>
          pchan (ptable s p) \<notin> {Some (ChProc q), map_option ChProc (initproc s)}" for p
    using that st [of p] by (auto simp: wakeup1_ptable)
  ultimately show ?thesis
    using par by blast
qed


definition family_state :: ptable_state where
  "family_state = empty_state\<lparr>initproc := Some 0, ptable := (\<lambda>_. free_proc)(
     0 := free_proc\<lparr>pstate := SLEEPING, pid := 1, pchan := Some (ChProc 0)\<rparr>,
     1 := free_proc\<lparr>pstate := SLEEPING, pid := 2, pparent := Some 0, pchan := Some (ChProc 1)\<rparr>,
     2 := free_proc\<lparr>pstate := RUNNING, pid := 3, pparent := Some 1\<rparr>,
     3 := free_proc\<lparr>pstate := ZOMBIE, pid := 4, pparent := Some 2\<rparr>)\<rparr>"

theorem exit_wakes_parent_witness:
  "\<exists>t. t = exit_tail 2 family_state \<and> pstate (ptable t 2) = ZOMBIE \<and> pstate (ptable t 1) = RUNNABLE
    \<and> pparent (ptable t 3) = Some 0 \<and> pstate (ptable t 0) = RUNNABLE"
proof -
  let ?t = "exit_tail 2 family_state"
  have sel: "initproc family_state = Some 0" "pparent (ptable family_state 2) = Some 1"
    "pstate (ptable family_state 1) = SLEEPING" "pchan (ptable family_state 1) = Some (ChProc 1)"
    "pstate (ptable family_state 0) = SLEEPING" "pchan (ptable family_state 0) = Some (ChProc 0)"
    "pparent (ptable family_state 3) = Some 2" "zombie_child 2 family_state 3"
    by (simp_all add: family_state_def zombie_child_def)
  note ex = exit_wakes_parent [of 2 1 family_state ?t, OF _ _ _ sel(2-4) _ refl, unfolded sel(1)]
  have "pstate (ptable ?t 2) = ZOMBIE \<and> pstate (ptable ?t 1) = RUNNABLE"
    using ex by simp
  moreover have "pparent (ptable ?t 3) = Some 0"
    using ex sel(7) by simp
  moreover have "pstate (ptable ?t 0) = RUNNABLE"
    using ex sel(5,6,8) by (metis numeral_less_iff semiring_norm(76,77,78,81) zero_less_numeral option.inject zero_neq_numeral one_less_numeral_iff one_eq_numeral_iff semiring_norm(83))
  ultimately show ?thesis
    by blast
qed

text \<open>
  C19. \<^verbatim>\<open>kill(0)\<close>: free slots have process number 0, so it succeeds on the first of them and marks it; the
  mark survives \<^verbatim>\<open>allocproc\<close>, and the next process created in the slot starts out killed.
\<close>

theorem kill_zero_marks_next_process:
  assumes "find (\<lambda>p. pstate (ptable s p) = UNUSED) [0..<NPROC] = Some p"
    and "\<forall>q < NPROC. pid (ptable s q) = 0 \<longleftrightarrow> pstate (ptable s q) = UNUSED"
    and "freelist s \<noteq> 0"
  shows "\<exists>t u. kill 0 s = (0, t) \<and> allocproc t = (Some p, u) \<and> pkilled (ptable u p)"
proof -
  have "find (\<lambda>p. pid (ptable s p) = 0) [0..<NPROC] = find (\<lambda>p. pstate (ptable s p) = UNUSED) [0..<NPROC]"
    using assms(2) by (intro find_cong) auto
  then have k: "kill 0 s = (0, upd_proc p (\<lambda>q. q\<lparr>pkilled := True\<rparr>) s)"
    using assms(1) find_first [OF assms(1)] by (simp add: kill_def)
  let ?t = "upd_proc p (\<lambda>q. q\<lparr>pkilled := True\<rparr>) s"
  let ?s = "upd_proc p (\<lambda>q. q\<lparr>pstate := EMBRYO, pid := nextpid ?t\<rparr>) ?t\<lparr>nextpid := nextpid ?t + 1\<rparr>"
  have t: "find (\<lambda>p. pstate (ptable ?t p) = UNUSED) [0..<NPROC] = Some p"
  proof -
    have "find (\<lambda>p. pstate (ptable ?t p) = UNUSED) [0..<NPROC] = find (\<lambda>p. pstate (ptable s p) = UNUSED) [0..<NPROC]"
      by (intro find_cong) auto
    then show ?thesis
      using assms(1) by simp
  qed
  obtain v s1 where a: "kalloc ?s = (v, s1)"
    by (cases "kalloc ?s")
  have "v \<noteq> 0"
    using a assms(3) by (auto simp: kalloc_def Let_def upd_proc_def)
  moreover have "pkilled (ptable s1 p)"
    using keeps_ptable [OF kalloc_keeps [OF a]] by simp
  ultimately have "fst (allocproc ?t) = Some p \<and> pkilled (ptable (snd (allocproc ?t)) p)"
    using t a by (simp add: allocproc_def Let_def)
  then show ?thesis
    using k by (metis prod.collapse)
qed

theorem kill_zero_marks_next_process_witness:
  "\<exists>t u. kill 0 empty_state = (0, t) \<and> allocproc t = (Some 0, u) \<and> pkilled (ptable u 0)"
  by (rule kill_zero_marks_next_process) (simp_all add: empty_state_def free_proc_def upt_conv_Cons)

end
