(* ===== verification/SleepWakeup.thy ===== *)
theory SleepWakeup
  imports Sched
begin

text \<open>
  Sleeping and waking as interleaved steps, for the question whether a wakeup can be lost. A
  sleeper waits, under a lock \<open>lk\<close>, for a condition that wakers establish under the same lock; one
  step is one acquisition, release or access to shared data of \<^verbatim>\<open>sleep\<close> and \<^verbatim>\<open>wakeup\<close>.
\<close>

datatype agent = Sleeper | Waker nat

text \<open>
  The sleeper runs \<open>acquire(lk); while (!cond) sleep(chan, lk); cond = 0; release(lk)\<close>. Inside
  \<^verbatim>\<open>sleep\<close>: \<open>GetPt\<close> acquires \<^verbatim>\<open>ptable.lock\<close>, \<open>RelLk\<close> releases \<open>lk\<close>, \<open>SetState\<close> writes the channel and the
  state, \<open>Switch\<close> is \<^verbatim>\<open>sched\<close> (the scheduler gives up \<^verbatim>\<open>ptable.lock\<close>), \<open>Off\<close> is not running, \<open>Back\<close>
  tidies up with \<^verbatim>\<open>ptable.lock\<close> held and \<open>Reacquire\<close> takes \<open>lk\<close> again.
\<close>

datatype sleeper_pc = Start | Test | GetPt | RelLk | SetState | Switch | Off | Back | Reacquire | Leave_lk

text \<open>A waker runs \<open>acquire(lk); cond = 1; wakeup(chan); release(lk)\<close>.\<close>

datatype waker_pc = WStart | WSet | WGetPt | WWake | WRelPt | WRelLk

record sw_sys =
  lk_holder :: "agent option"
  pt_holder :: "agent option"
  cond :: bool
  asleep :: bool
  spc :: sleeper_pc
  wpc :: "nat \<Rightarrow> waker_pc"

inductive sw_step :: "sw_sys \<Rightarrow> sw_sys \<Rightarrow> bool" where
  s_acquire: "spc s \<in> {Start, Reacquire} \<Longrightarrow> lk_holder s = None \<Longrightarrow>
    sw_step s (s\<lparr>lk_holder := Some Sleeper, spc := Test\<rparr>)"
| s_true: "spc s = Test \<Longrightarrow> cond s \<Longrightarrow> sw_step s (s\<lparr>cond := False, spc := Leave_lk\<rparr>)"
| s_release: "spc s = Leave_lk \<Longrightarrow> sw_step s (s\<lparr>lk_holder := None, spc := Start\<rparr>)"
| s_false: "spc s = Test \<Longrightarrow> \<not> cond s \<Longrightarrow> sw_step s (s\<lparr>spc := GetPt\<rparr>)"
| s_getpt: "spc s = GetPt \<Longrightarrow> pt_holder s = None \<Longrightarrow> sw_step s (s\<lparr>pt_holder := Some Sleeper, spc := RelLk\<rparr>)"
| s_rellk: "spc s = RelLk \<Longrightarrow> sw_step s (s\<lparr>lk_holder := None, spc := SetState\<rparr>)"
| s_sleep: "spc s = SetState \<Longrightarrow> sw_step s (s\<lparr>asleep := True, spc := Switch\<rparr>)"
| s_switch: "spc s = Switch \<Longrightarrow> sw_step s (s\<lparr>pt_holder := None, spc := Off\<rparr>)"
| s_resume: "spc s = Off \<Longrightarrow> \<not> asleep s \<Longrightarrow> pt_holder s = None \<Longrightarrow>
    sw_step s (s\<lparr>pt_holder := Some Sleeper, spc := Back\<rparr>)"
| s_back: "spc s = Back \<Longrightarrow> sw_step s (s\<lparr>pt_holder := None, spc := Reacquire\<rparr>)"
| w_acquire: "wpc s n = WStart \<Longrightarrow> lk_holder s = None \<Longrightarrow>
    sw_step s (s\<lparr>lk_holder := Some (Waker n), wpc := (wpc s)(n := WSet)\<rparr>)"
| w_set: "wpc s n = WSet \<Longrightarrow> sw_step s (s\<lparr>cond := True, wpc := (wpc s)(n := WGetPt)\<rparr>)"
| w_getpt: "wpc s n = WGetPt \<Longrightarrow> pt_holder s = None \<Longrightarrow>
    sw_step s (s\<lparr>pt_holder := Some (Waker n), wpc := (wpc s)(n := WWake)\<rparr>)"
| w_wake: "wpc s n = WWake \<Longrightarrow> sw_step s (s\<lparr>asleep := False, wpc := (wpc s)(n := WRelPt)\<rparr>)"
| w_relpt: "wpc s n = WRelPt \<Longrightarrow> sw_step s (s\<lparr>pt_holder := None, wpc := (wpc s)(n := WRelLk)\<rparr>)"
| w_rellk: "wpc s n = WRelLk \<Longrightarrow> sw_step s (s\<lparr>lk_holder := None, wpc := (wpc s)(n := WStart)\<rparr>)"

definition sw_init :: sw_sys where
  "sw_init = \<lparr>lk_holder = None, pt_holder = None, cond = False, asleep = False, spc = Start, wpc = (\<lambda>_. WStart)\<rparr>"

inductive sw_reachable :: "sw_sys \<Rightarrow> bool" where
  sw_start: "sw_reachable sw_init"
| sw_next: "sw_reachable s \<Longrightarrow> sw_step s t \<Longrightarrow> sw_reachable t"

text \<open>
  Who holds which lock, and what is known of the condition at each point: once the sleeper is
  marked asleep with the condition true, some waker has still to call \<^verbatim>\<open>wakeup1\<close>.
\<close>

definition lk_ok :: "sw_sys \<Rightarrow> bool" where
  "lk_ok s \<longleftrightarrow> (lk_holder s = Some Sleeper \<longleftrightarrow> spc s \<in> {Test, GetPt, RelLk, Leave_lk})
     \<and> (\<forall>n. lk_holder s = Some (Waker n) \<longleftrightarrow> wpc s n \<noteq> WStart)"

definition pt_ok :: "sw_sys \<Rightarrow> bool" where
  "pt_ok s \<longleftrightarrow> (pt_holder s = Some Sleeper \<longleftrightarrow> spc s \<in> {RelLk, SetState, Switch, Back})
     \<and> (\<forall>n. pt_holder s = Some (Waker n) \<longleftrightarrow> wpc s n \<in> {WWake, WRelPt})"

definition wake_ok :: "sw_sys \<Rightarrow> bool" where
  "wake_ok s \<longleftrightarrow> (spc s \<in> {GetPt, RelLk} \<longrightarrow> \<not> cond s)
     \<and> (spc s \<in> {SetState, Switch, Off} \<and> (spc s = SetState \<or> asleep s) \<and> cond s \<longrightarrow> (\<exists>n. wpc s n \<in> {WGetPt, WWake}))
     \<and> (asleep s \<longrightarrow> spc s \<in> {Switch, Off})"

lemma lk_ok_step: "sw_step s t \<Longrightarrow> lk_ok s \<Longrightarrow> lk_ok t"
proof (induction rule: sw_step.induct)
  case (w_rellk s n)
  then have "lk_holder s = Some (Waker n)"
    by (simp add: lk_ok_def)
  then have "wpc s m = WStart" if "m \<noteq> n" for m
    using w_rellk(2) that unfolding lk_ok_def by (metis agent.inject option.inject)
  then show ?case
    using w_rellk by (auto simp: lk_ok_def)
qed (auto simp: lk_ok_def)

lemma pt_ok_step: "sw_step s t \<Longrightarrow> pt_ok s \<Longrightarrow> pt_ok t"
proof (induction rule: sw_step.induct)
  case (w_relpt s n)
  then have "pt_holder s = Some (Waker n)"
    by (simp add: pt_ok_def)
  then have "wpc s m \<notin> {WWake, WRelPt}" if "m \<noteq> n" for m
    using w_relpt(2) that unfolding pt_ok_def by (metis agent.inject option.inject)
  then show ?case
    using w_relpt by (auto simp: pt_ok_def)
qed (auto simp: pt_ok_def)

lemma wake_ok_step: "sw_step s t \<Longrightarrow> lk_ok s \<Longrightarrow> pt_ok s \<Longrightarrow> wake_ok s \<Longrightarrow> wake_ok t"
proof (induction rule: sw_step.induct)
  case (w_set s n)
  then have "lk_holder s = Some (Waker n)"
    by (simp add: lk_ok_def)
  then have "spc s \<notin> {GetPt, RelLk}"
    using w_set by (simp add: lk_ok_def)
  then show ?case
    using w_set by (auto simp: wake_ok_def)
next
  case (w_wake s n)
  then have "pt_holder s = Some (Waker n)"
    by (simp add: pt_ok_def)
  then have "spc s \<notin> {RelLk, SetState, Switch}"
    using w_wake by (simp add: pt_ok_def)
  then show ?case
    using w_wake by (auto simp: wake_ok_def)
next
  case (w_getpt s n)
  then show ?case
    unfolding wake_ok_def by (auto split: if_splits)
qed (auto simp: wake_ok_def; metis waker_pc.distinct)+

lemma sw_reachable_inv: "sw_reachable s \<Longrightarrow> lk_ok s \<and> pt_ok s \<and> wake_ok s"
proof (induction rule: sw_reachable.induct)
  case sw_start
  show ?case
    by (simp add: lk_ok_def pt_ok_def wake_ok_def sw_init_def)
next
  case (sw_next s t)
  then show ?case
    using lk_ok_step pt_ok_step wake_ok_step by blast
qed

section \<open>Properties\<close>

text \<open>
  C15. No wakeup is lost: because \<^verbatim>\<open>sleep\<close> takes \<^verbatim>\<open>ptable.lock\<close> before it releases the caller's lock,
  whenever the sleeper is asleep although its condition holds, some waker is still on its way to
  \<^verbatim>\<open>wakeup1\<close>; so once no waker is between its assignment and its \<^verbatim>\<open>wakeup\<close>, the sleeper is awake.
\<close>

theorem no_lost_wakeup:
  assumes "sw_reachable s" and "cond s" and "\<forall>n. wpc s n \<notin> {WGetPt, WWake}"
  shows "\<not> asleep s \<and> spc s \<notin> {GetPt, RelLk, SetState}"
  using sw_reachable_inv [OF assms(1)] assms(2,3) unfolding wake_ok_def by blast

definition sw_at :: "agent option \<Rightarrow> agent option \<Rightarrow> bool \<Rightarrow> bool \<Rightarrow> sleeper_pc \<Rightarrow> waker_pc \<Rightarrow> sw_sys" where
  "sw_at l p co a sp w = \<lparr>lk_holder = l, pt_holder = p, cond = co, asleep = a, spc = sp, wpc = (\<lambda>_. WStart)(0 := w)\<rparr>"

theorem no_lost_wakeup_witness:
  "sw_reachable (sw_at (Some (Waker 0)) None True False Off WRelLk) \<and>
   \<not> asleep (sw_at (Some (Waker 0)) None True False Off WRelLk)"
proof -
  have "sw_init = sw_at None None False False Start WStart"
    by (simp add: sw_init_def sw_at_def fun_eq_iff)
  then have "sw_reachable (sw_at None None False False Start WStart)"
    using sw_start by simp
  then have "sw_reachable (sw_at (Some Sleeper) None False False Test WStart)"
    by (rule sw_next) (use s_acquire [of "sw_at None None False False Start WStart"] in \<open>simp add: sw_at_def\<close>)
  then have "sw_reachable (sw_at (Some Sleeper) None False False GetPt WStart)"
    by (rule sw_next) (use s_false [of "sw_at (Some Sleeper) None False False Test WStart"] in \<open>simp add: sw_at_def\<close>)
  then have "sw_reachable (sw_at (Some Sleeper) (Some Sleeper) False False RelLk WStart)"
    by (rule sw_next) (use s_getpt [of "sw_at (Some Sleeper) None False False GetPt WStart"] in \<open>simp add: sw_at_def\<close>)
  then have "sw_reachable (sw_at None (Some Sleeper) False False SetState WStart)"
    by (rule sw_next)
      (use s_rellk [of "sw_at (Some Sleeper) (Some Sleeper) False False RelLk WStart"] in \<open>simp add: sw_at_def\<close>)
  then have "sw_reachable (sw_at (Some (Waker 0)) (Some Sleeper) False False SetState WSet)"
    by (rule sw_next)
      (use w_acquire [of "sw_at None (Some Sleeper) False False SetState WStart" 0] in \<open>simp add: sw_at_def\<close>)
  then have "sw_reachable (sw_at (Some (Waker 0)) (Some Sleeper) True False SetState WGetPt)"
    by (rule sw_next)
      (use w_set [of "sw_at (Some (Waker 0)) (Some Sleeper) False False SetState WSet" 0] in \<open>simp add: sw_at_def\<close>)
  then have "sw_reachable (sw_at (Some (Waker 0)) (Some Sleeper) True True Switch WGetPt)"
    by (rule sw_next)
      (use s_sleep [of "sw_at (Some (Waker 0)) (Some Sleeper) True False SetState WGetPt"] in \<open>simp add: sw_at_def\<close>)
  then have "sw_reachable (sw_at (Some (Waker 0)) None True True Off WGetPt)"
    by (rule sw_next)
      (use s_switch [of "sw_at (Some (Waker 0)) (Some Sleeper) True True Switch WGetPt"] in \<open>simp add: sw_at_def\<close>)
  then have "sw_reachable (sw_at (Some (Waker 0)) (Some (Waker 0)) True True Off WWake)"
    by (rule sw_next)
      (use w_getpt [of "sw_at (Some (Waker 0)) None True True Off WGetPt" 0] in \<open>simp add: sw_at_def\<close>)
  then have "sw_reachable (sw_at (Some (Waker 0)) (Some (Waker 0)) True False Off WRelPt)"
    by (rule sw_next)
      (use w_wake [of "sw_at (Some (Waker 0)) (Some (Waker 0)) True True Off WWake" 0] in \<open>simp add: sw_at_def\<close>)
  then have r: "sw_reachable (sw_at (Some (Waker 0)) None True False Off WRelLk)"
    by (rule sw_next)
      (use w_relpt [of "sw_at (Some (Waker 0)) (Some (Waker 0)) True False Off WRelPt" 0] in \<open>simp add: sw_at_def\<close>)
  from no_lost_wakeup [OF this] r show ?thesis
    by (simp add: sw_at_def)
qed

end
