(* ===== verification/Bio.thy ===== *)
theory Bio
  imports Sched
begin

text \<open>
  Sleep-locks, the memory disk and the buffer cache: \<^verbatim>\<open>sleeplock.c\<close>, \<^verbatim>\<open>memide.c\<close> and \<^verbatim>\<open>bio.c\<close>. A pointer
  to a buffer is its index in \<^verbatim>\<open>bcache.buf\<close>; index 30 is \<^verbatim>\<open>bcache.head\<close>. A block is addressed by
  byte offset; only the offsets below \<^verbatim>\<open>BSIZE\<close> are part of it, and a \<^verbatim>\<open>memmove\<close> of all of it is an
  assignment. \<open>me\<close> is the calling process.
\<close>

section \<open>Sleep-locks\<close>

record sleeplock =
  sl_locked :: bool
  sl_pid :: u32

definition initsleeplock :: sleeplock where
  "initsleeplock = \<lparr>sl_locked = False, sl_pid = 0\<rparr>"

definition acquiresleep :: "chan \<Rightarrow> nat \<Rightarrow> sleeplock \<Rightarrow> 'a ptable_state_scheme \<Rightarrow> sleeplock result" where
  "acquiresleep ch me l s =
     (if sl_locked l then Inl (Sleep ch)
      else Inr (l\<lparr>sl_locked := True, sl_pid := pid (ptable s me)\<rparr>))"

definition releasesleep ::
  "chan \<Rightarrow> sleeplock \<Rightarrow> 'a ptable_state_scheme \<Rightarrow> sleeplock \<times> 'a ptable_state_scheme" where
  "releasesleep ch l s = (l\<lparr>sl_locked := False, sl_pid := 0\<rparr>, wakeup ch s)"

definition holdingsleep :: "nat \<Rightarrow> sleeplock \<Rightarrow> 'a ptable_state_scheme \<Rightarrow> bool" where
  "holdingsleep me l s \<longleftrightarrow> sl_locked l \<and> sl_pid l = pid (ptable s me)"

section \<open>Buffers and the disk\<close>

type_synonym block = memory

record buf =
  bflags :: u32
  bdev :: u32
  bblockno :: u32
  block_lock :: sleeplock
  brefcnt :: u32
  bprev :: nat
  bnext :: nat
  bdata :: block

text \<open>
  \<open>disk_writes\<close> is not in the program: it records the blocks written to the disk, in order, for the
  reasoning about crashes.
\<close>

record bio_state = ptable_state +
  bbuf :: "nat \<Rightarrow> buf"
  disk :: "u32 \<Rightarrow> block"
  disksize :: u32
  disk_writes :: "(u32 \<times> block) list"

abbreviation (input) NBUF :: nat where "NBUF \<equiv> 30"
abbreviation (input) HEAD :: nat where "HEAD \<equiv> 30"
abbreviation (input) BSIZE :: u32 where "BSIZE \<equiv> 512"
abbreviation (input) B_VALID :: u32 where "B_VALID \<equiv> 2"
abbreviation (input) B_DIRTY :: u32 where "B_DIRTY \<equiv> 4"

definition upd_buf :: "nat \<Rightarrow> (buf \<Rightarrow> buf) \<Rightarrow> 'a bio_state_scheme \<Rightarrow> 'a bio_state_scheme" where
  "upd_buf b f s = s\<lparr>bbuf := (bbuf s)(b := f (bbuf s b))\<rparr>"

definition set_data :: "nat \<Rightarrow> block \<Rightarrow> 'a bio_state_scheme \<Rightarrow> 'a bio_state_scheme" where
  "set_data b d = upd_buf b (\<lambda>k. k\<lparr>bdata := d\<rparr>)"

definition iderw :: "nat \<Rightarrow> nat \<Rightarrow> 'a bio_state_scheme \<Rightarrow> 'a bio_state_scheme result" where
  "iderw me b s =
     (let k = bbuf s b
      in if \<not> holdingsleep me (block_lock k) s then Inl (Panic ''iderw: buf not locked'')
         else if bflags k AND (B_VALID OR B_DIRTY) = B_VALID then Inl (Panic ''iderw: nothing to do'')
         else if bdev k \<noteq> 1 then Inl (Panic ''iderw: request not for disk 1'')
         else if bblockno k \<ge> disksize s then Inl (Panic ''iderw: block out of range'')
         else
           let s = (if bflags k AND B_DIRTY \<noteq> 0 then
                      let s = upd_buf b (\<lambda>k. k\<lparr>bflags := bflags k AND NOT B_DIRTY\<rparr>) s
                      in s\<lparr>disk := (disk s)(bblockno k := bdata k),
                           disk_writes := disk_writes s @ [(bblockno k, bdata k)]\<rparr>
                    else set_data b (disk s (bblockno k)) s)
           in Inr (upd_buf b (\<lambda>k. k\<lparr>bflags := bflags k OR B_VALID\<rparr>) s))"

section \<open>The buffer cache\<close>

definition link_buf :: "nat \<Rightarrow> 'a bio_state_scheme \<Rightarrow> 'a bio_state_scheme" where
  "link_buf b s =
     (let s = upd_buf b (\<lambda>k. k\<lparr>bnext := bnext (bbuf s HEAD)\<rparr>) s;
          s = upd_buf b (\<lambda>k. k\<lparr>bprev := HEAD\<rparr>) s;
          s = upd_buf (bnext (bbuf s HEAD)) (\<lambda>k. k\<lparr>bprev := b\<rparr>) s
      in upd_buf HEAD (\<lambda>k. k\<lparr>bnext := b\<rparr>) s)"

definition binit :: "'a bio_state_scheme \<Rightarrow> 'a bio_state_scheme" where
  "binit s =
     (let s = upd_buf HEAD (\<lambda>k. k\<lparr>bprev := HEAD, bnext := HEAD\<rparr>) s
      in fold (\<lambda>b s. link_buf b (upd_buf b (\<lambda>k. k\<lparr>block_lock := initsleeplock\<rparr>) s)) [0..<NBUF] s)"

text \<open>The walk \<open>for (b = head.next; b != &head; b = b->next)\<close>, and the same along \<^verbatim>\<open>prev\<close>.\<close>

primrec find_buf ::
  "nat \<Rightarrow> (buf \<Rightarrow> nat) \<Rightarrow> (buf \<Rightarrow> bool) \<Rightarrow> (nat \<Rightarrow> buf) \<Rightarrow> nat \<Rightarrow> nat option result" where
  "find_buf 0 nxt P bs b = Inl Diverges"
| "find_buf (Suc n) nxt P bs b =
     (if b = HEAD then Inr None
      else if P (bs b) then Inr (Some b)
      else find_buf n nxt P bs (nxt (bs b)))"

definition lock_buf :: "nat \<Rightarrow> nat \<Rightarrow> 'a bio_state_scheme \<Rightarrow> (nat \<times> 'a bio_state_scheme) result" where
  "lock_buf me b s =
     andthen (acquiresleep (ChBuf b) me (block_lock (bbuf s b)) s) (\<lambda>l.
       Inr (b, upd_buf b (\<lambda>k. k\<lparr>block_lock := l\<rparr>) s))"

definition bget :: "nat \<Rightarrow> u32 \<Rightarrow> u32 \<Rightarrow> 'a bio_state_scheme \<Rightarrow> (nat \<times> 'a bio_state_scheme) result" where
  "bget me dev blockno s =
     andthen (find_buf (Suc NBUF) bnext (\<lambda>k. bdev k = dev \<and> bblockno k = blockno) (bbuf s)
                (bnext (bbuf s HEAD))) (\<lambda>r.
       case r of
         Some b \<Rightarrow> lock_buf me b (upd_buf b (\<lambda>k. k\<lparr>brefcnt := brefcnt k + 1\<rparr>) s)
       | None \<Rightarrow>
           andthen (find_buf (Suc NBUF) bprev (\<lambda>k. brefcnt k = 0 \<and> bflags k AND B_DIRTY = 0) (bbuf s)
                      (bprev (bbuf s HEAD))) (\<lambda>r.
             case r of
               Some b \<Rightarrow> lock_buf me b (upd_buf b (\<lambda>k. k\<lparr>bdev := dev, bblockno := blockno,
                                          bflags := 0, brefcnt := 1\<rparr>) s)
             | None \<Rightarrow> Inl (Panic ''bget: no buffers'')))"

definition bread :: "nat \<Rightarrow> u32 \<Rightarrow> u32 \<Rightarrow> 'a bio_state_scheme \<Rightarrow> (nat \<times> 'a bio_state_scheme) result" where
  "bread me dev blockno s =
     andthen (bget me dev blockno s) (\<lambda>(b, s).
       if bflags (bbuf s b) AND B_VALID = 0
       then andthen (iderw me b s) (\<lambda>s. Inr (b, s))
       else Inr (b, s))"

definition bwrite :: "nat \<Rightarrow> nat \<Rightarrow> 'a bio_state_scheme \<Rightarrow> 'a bio_state_scheme result" where
  "bwrite me b s =
     (if \<not> holdingsleep me (block_lock (bbuf s b)) s then Inl (Panic ''bwrite'')
      else iderw me b (upd_buf b (\<lambda>k. k\<lparr>bflags := bflags k OR B_DIRTY\<rparr>) s))"

definition brelse :: "nat \<Rightarrow> nat \<Rightarrow> 'a bio_state_scheme \<Rightarrow> 'a bio_state_scheme result" where
  "brelse me b s =
     (if \<not> holdingsleep me (block_lock (bbuf s b)) s then Inl (Panic ''brelse'')
      else
        let (l, s) = releasesleep (ChBuf b) (block_lock (bbuf s b)) s;
            s = upd_buf b (\<lambda>k. k\<lparr>block_lock := l\<rparr>) s;
            s = upd_buf b (\<lambda>k. k\<lparr>brefcnt := brefcnt k - 1\<rparr>) s
        in if brefcnt (bbuf s b) = 0 then
             let s = upd_buf (bnext (bbuf s b)) (\<lambda>k. k\<lparr>bprev := bprev (bbuf s b)\<rparr>) s;
                 s = upd_buf (bprev (bbuf s b)) (\<lambda>k. k\<lparr>bnext := bnext (bbuf s b)\<rparr>) s
             in Inr (link_buf b s)
           else Inr s)"

end
