(* ===== verification/Log.thy ===== *)
theory Log
  imports Bio
begin

text \<open>
  The redo log, \<^verbatim>\<open>log.c\<close>. \<open>lh_block\<close> is the array \<^verbatim>\<open>log.lh.block\<close> of \<^verbatim>\<open>LOGSIZE\<close> = 30 entries; an index
  outside it is a bad access. \<^verbatim>\<open>begin_op\<close> has no effect until it can go on, so waiting is the outcome
  \<^term>\<open>Sleep ChLog\<close>.
\<close>

section \<open>State and operations\<close>

record log_state = bio_state +
  log_start :: u32
  log_size :: u32
  log_outstanding :: u32
  log_committing :: bool
  log_dev :: u32
  lh_n :: u32
  lh_block :: "nat \<Rightarrow> u32"

abbreviation (input) LOGSIZE :: nat where "LOGSIZE \<equiv> 30"
abbreviation (input) MAXOPBLOCKS :: u32 where "MAXOPBLOCKS \<equiv> 10"

text \<open>The indices \<open>0, ..., n - 1\<close> of a loop up to the \<^verbatim>\<open>int\<close> \<open>n\<close>.\<close>

definition below :: "u32 \<Rightarrow> nat list" where
  "below n = [0..<nat (sint n)]"

definition install_step :: "nat \<Rightarrow> nat \<Rightarrow> 'a log_state_scheme \<Rightarrow> 'a log_state_scheme result" where
  "install_step me tail s =
     (if tail \<ge> LOGSIZE then Inl (BadAccess (of_nat tail))
      else
        andthen (bread me (log_dev s) (log_start s + of_nat tail + 1) s) (\<lambda>(lbuf, s).
        andthen (bread me (log_dev s) (lh_block s tail) s) (\<lambda>(dbuf, s).
        andthen (bwrite me dbuf (set_data dbuf (bdata (bbuf s lbuf)) s)) (\<lambda>s.
        andthen (brelse me lbuf s) (\<lambda>s.
          brelse me dbuf s)))))"

primrec iterate :: "(nat \<Rightarrow> 's \<Rightarrow> 's result) \<Rightarrow> nat list \<Rightarrow> 's \<Rightarrow> 's result" where
  "iterate f [] s = Inr s"
| "iterate f (i # is) s = andthen (f i s) (iterate f is)"

definition install_trans :: "nat \<Rightarrow> 'a log_state_scheme \<Rightarrow> 'a log_state_scheme result" where
  "install_trans me s = iterate (install_step me) (below (lh_n s)) s"

definition read_head :: "nat \<Rightarrow> 'a log_state_scheme \<Rightarrow> 'a log_state_scheme result" where
  "read_head me s =
     andthen (bread me (log_dev s) (log_start s) s) (\<lambda>(b, s).
       let s = s\<lparr>lh_n := load32 (bdata (bbuf s b)) 0\<rparr>
       in andthen (iterate (\<lambda>i s.
              if i \<ge> LOGSIZE then Inl (BadAccess (of_nat i))
              else Inr (s\<lparr>lh_block := (lh_block s)(i := load32 (bdata (bbuf s b)) (4 + 4 * of_nat i))\<rparr>))
            (below (lh_n s)) s) (\<lambda>s.
          brelse me b s))"

definition write_head :: "nat \<Rightarrow> 'a log_state_scheme \<Rightarrow> 'a log_state_scheme result" where
  "write_head me s =
     andthen (bread me (log_dev s) (log_start s) s) (\<lambda>(b, s).
       let s = set_data b (store32 0 (lh_n s) (bdata (bbuf s b))) s
       in andthen (iterate (\<lambda>i s.
              if i \<ge> LOGSIZE then Inl (BadAccess (of_nat i))
              else Inr (set_data b (store32 (4 + 4 * of_nat i) (lh_block s i) (bdata (bbuf s b))) s))
            (below (lh_n s)) s) (\<lambda>s.
          andthen (bwrite me b s) (brelse me b)))"

definition recover_from_log :: "nat \<Rightarrow> 'a log_state_scheme \<Rightarrow> 'a log_state_scheme result" where
  "recover_from_log me s =
     andthen (read_head me s) (\<lambda>s.
     andthen (install_trans me s) (\<lambda>s.
       write_head me (s\<lparr>lh_n := 0\<rparr>)))"

definition begin_op :: "'a log_state_scheme \<Rightarrow> 'a log_state_scheme result" where
  "begin_op s =
     (if log_committing s then Inl (Sleep ChLog)
      else if of_nat LOGSIZE <s lh_n s + (log_outstanding s + 1) * MAXOPBLOCKS then Inl (Sleep ChLog)
      else Inr (s\<lparr>log_outstanding := log_outstanding s + 1\<rparr>))"

definition write_log_step :: "nat \<Rightarrow> nat \<Rightarrow> 'a log_state_scheme \<Rightarrow> 'a log_state_scheme result" where
  "write_log_step me tail s =
     (if tail \<ge> LOGSIZE then Inl (BadAccess (of_nat tail))
      else
        andthen (bread me (log_dev s) (log_start s + of_nat tail + 1) s) (\<lambda>(to, s).
        andthen (bread me (log_dev s) (lh_block s tail) s) (\<lambda>(from_b, s).
        andthen (bwrite me to (set_data to (bdata (bbuf s from_b)) s)) (\<lambda>s.
        andthen (brelse me from_b s) (\<lambda>s.
          brelse me to s)))))"

definition write_log :: "nat \<Rightarrow> 'a log_state_scheme \<Rightarrow> 'a log_state_scheme result" where
  "write_log me s = iterate (write_log_step me) (below (lh_n s)) s"

definition commit :: "nat \<Rightarrow> 'a log_state_scheme \<Rightarrow> 'a log_state_scheme result" where
  "commit me s =
     (if 0 <s lh_n s then
        andthen (write_log me s) (\<lambda>s.
        andthen (write_head me s) (\<lambda>s.
        andthen (install_trans me s) (\<lambda>s.
          write_head me (s\<lparr>lh_n := 0\<rparr>))))
      else Inr s)"

definition end_op :: "nat \<Rightarrow> 'a log_state_scheme \<Rightarrow> 'a log_state_scheme result" where
  "end_op me s =
     (let s = s\<lparr>log_outstanding := log_outstanding s - 1\<rparr>
      in if log_committing s then Inl (Panic ''log.committing'')
         else if log_outstanding s = 0 then
           andthen (commit me (s\<lparr>log_committing := True\<rparr>)) (\<lambda>s.
             Inr (wakeup ChLog (s\<lparr>log_committing := False\<rparr>)))
         else Inr (wakeup ChLog s))"

text \<open>The loop of \<^verbatim>\<open>log_write\<close> stops at the first entry with the block number, or at \<open>n\<close>.\<close>

definition log_write :: "nat \<Rightarrow> 'a log_state_scheme \<Rightarrow> 'a log_state_scheme result" where
  "log_write b s =
     (if of_nat LOGSIZE \<le>s lh_n s \<or> log_size s - 1 \<le>s lh_n s then Inl (Panic ''too big a transaction'')
      else if log_outstanding s <s 1 then Inl (Panic ''log_write outside of trans'')
      else
        let i = (case find (\<lambda>i. lh_block s i = bblockno (bbuf s b)) (below (lh_n s)) of
                   Some i \<Rightarrow> i | None \<Rightarrow> nat (sint (lh_n s)));
            s = s\<lparr>lh_block := (lh_block s)(i := bblockno (bbuf s b))\<rparr>;
            s = (if of_nat i = lh_n s then s\<lparr>lh_n := lh_n s + 1\<rparr> else s)
        in Inr (upd_buf b (\<lambda>k. k\<lparr>bflags := bflags k OR B_DIRTY\<rparr>) s))"

text \<open>\<^verbatim>\<open>readsb\<close> of \<^verbatim>\<open>fs.c\<close>, which \<^verbatim>\<open>initlog\<close> calls.\<close>

record superblock =
  sb_size :: u32
  sb_nblocks :: u32
  sb_ninodes :: u32
  sb_nlog :: u32
  sb_logstart :: u32
  sb_inodestart :: u32
  sb_bmapstart :: u32

definition readsb :: "nat \<Rightarrow> u32 \<Rightarrow> 'a bio_state_scheme \<Rightarrow> (superblock \<times> 'a bio_state_scheme) result" where
  "readsb me dev s =
     andthen (bread me dev 1 s) (\<lambda>(b, s).
       let d = bdata (bbuf s b)
       in andthen (brelse me b s) (\<lambda>s.
          Inr (\<lparr>sb_size = load32 d 0, sb_nblocks = load32 d 4, sb_ninodes = load32 d 8, sb_nlog = load32 d 12,
                sb_logstart = load32 d 16, sb_inodestart = load32 d 20, sb_bmapstart = load32 d 24\<rparr>, s)))"

definition initlog :: "nat \<Rightarrow> u32 \<Rightarrow> 'a log_state_scheme \<Rightarrow> 'a log_state_scheme result" where
  "initlog me dev s =
     andthen (readsb me dev s) (\<lambda>(sb, s).
       recover_from_log me (s\<lparr>log_start := sb_logstart sb, log_size := sb_nlog sb, log_dev := dev\<rparr>))"

end
