(* ===== verification/Fs.thy ===== *)
theory Fs
  imports Log
begin

text \<open>
  The lower half of \<^verbatim>\<open>fs.c\<close>: the block bitmap, the inode cache, and the mapping of a file's blocks. A
  pointer to an inode is its index in \<^verbatim>\<open>icache.inode\<close>; a structure on the disk is read and written
  at its byte offset in the block.
\<close>

section \<open>State\<close>

record inode =
  idev :: u32
  inum :: u32
  iref :: u32
  inode_lock :: sleeplock
  ivalid :: bool
  itype :: u16
  imajor :: u16
  iminor :: u16
  inlink :: u16
  isize :: u32
  iaddrs :: "nat \<Rightarrow> u32"

record fs_state = log_state +
  sb :: superblock
  icache :: "nat \<Rightarrow> inode"

abbreviation (input) NINODE :: nat where "NINODE \<equiv> 50"
abbreviation (input) NDIRECT :: u32 where "NDIRECT \<equiv> 12"
abbreviation (input) NINDIRECT :: u32 where "NINDIRECT \<equiv> 128"
abbreviation (input) MAXFILE :: u32 where "MAXFILE \<equiv> 140"
abbreviation (input) IPB :: u32 where "IPB \<equiv> 8"
abbreviation (input) BPB :: nat where "BPB \<equiv> 4096"
abbreviation (input) T_DIR :: u16 where "T_DIR \<equiv> 1"
abbreviation (input) T_FILE :: u16 where "T_FILE \<equiv> 2"
abbreviation (input) T_DEV :: u16 where "T_DEV \<equiv> 3"

definition upd_inode :: "nat \<Rightarrow> (inode \<Rightarrow> inode) \<Rightarrow> 'a fs_state_scheme \<Rightarrow> 'a fs_state_scheme" where
  "upd_inode i f s = s\<lparr>icache := (icache s)(i := f (icache s i))\<rparr>"

text \<open>16-bit fields of a structure.\<close>

definition load16 :: "memory \<Rightarrow> addr \<Rightarrow> u16" where
  "load16 m a = ucast (m a) OR push_bit 8 (ucast (m (a + 1)))"

definition store16 :: "addr \<Rightarrow> u16 \<Rightarrow> memory \<Rightarrow> memory" where
  "store16 a v m = m(a := ucast v, a + 1 := ucast (drop_bit 8 v))"

section \<open>Blocks\<close>

definition bzero :: "nat \<Rightarrow> u32 \<Rightarrow> u32 \<Rightarrow> 'a log_state_scheme \<Rightarrow> 'a log_state_scheme result" where
  "bzero me dev bno s =
     andthen (bread me dev bno s) (\<lambda>(bp, s).
     andthen (log_write bp (set_data bp (memset 0 0 BSIZE (bdata (bbuf s bp))) s)) (brelse me bp))"

definition BBLOCK :: "u32 \<Rightarrow> superblock \<Rightarrow> u32" where
  "BBLOCK b sbk = b div 4096 + sb_bmapstart sbk"

definition bit_mask :: "nat \<Rightarrow> u8" where
  "bit_mask bi = push_bit (bi mod 8) 1"

definition bit_clear :: "block \<Rightarrow> nat \<Rightarrow> bool" where
  "bit_clear d bi \<longleftrightarrow> d (of_nat (bi div 8)) AND bit_mask bi = 0"

text \<open>
  The outer loop of \<^verbatim>\<open>balloc\<close> runs over the blocks of the bitmap (\<open>b = k * BPB\<close>); the inner one finds
  the first clear bit below \<^verbatim>\<open>sb.size\<close>.
\<close>

definition balloc_body ::
  "nat \<Rightarrow> u32 \<Rightarrow> nat \<Rightarrow> 'a fs_state_scheme \<Rightarrow> (u32, 'a fs_state_scheme) flow result" where
  "balloc_body me dev k s =
     (let b = k * BPB
      in andthen (bread me dev (BBLOCK (of_nat b) (sb s)) s) (\<lambda>(bp, s).
           let d = bdata (bbuf s bp)
           in case find (bit_clear d) [0..<min BPB (unat (sb_size (sb s)) - b)] of
                Some bi \<Rightarrow>
                  let s = set_data bp (d(of_nat (bi div 8) := d (of_nat (bi div 8)) OR bit_mask bi)) s
                  in andthen (log_write bp s) (\<lambda>s.
                     andthen (brelse me bp s) (\<lambda>s.
                     andthen (bzero me dev (of_nat (b + bi)) s) (\<lambda>s.
                       Inr (Leave (of_nat (b + bi)) s))))
              | None \<Rightarrow> andthen (brelse me bp s) (\<lambda>s. Inr (Next s))))"

definition balloc :: "nat \<Rightarrow> u32 \<Rightarrow> 'a fs_state_scheme \<Rightarrow> (u32 \<times> 'a fs_state_scheme) result" where
  "balloc me dev s =
     andthen (for_each (balloc_body me dev) [0..<(unat (sb_size (sb s)) + BPB - 1) div BPB] s) (\<lambda>fl.
       case fl of
         Leave r s \<Rightarrow> Inr (r, s)
       | Next _ \<Rightarrow> Inl (Panic ''balloc: out of blocks''))"

definition bfree :: "nat \<Rightarrow> u32 \<Rightarrow> u32 \<Rightarrow> 'a fs_state_scheme \<Rightarrow> 'a fs_state_scheme result" where
  "bfree me dev b s =
     andthen (bread me dev (BBLOCK b (sb s)) s) (\<lambda>(bp, s).
       let bi = unat b mod BPB;
           d = bdata (bbuf s bp)
       in if bit_clear d bi then Inl (Panic ''freeing free block'')
          else
            andthen (log_write bp (set_data bp
                (d(of_nat (bi div 8) := d (of_nat (bi div 8)) AND NOT (bit_mask bi))) s)) (brelse me bp))"

section \<open>Inodes\<close>

definition iinit :: "nat \<Rightarrow> u32 \<Rightarrow> 'a fs_state_scheme \<Rightarrow> 'a fs_state_scheme result" where
  "iinit me dev s =
     (let s = s\<lparr>icache := (\<lambda>i. if i < NINODE then (icache s i)\<lparr>inode_lock := initsleeplock\<rparr> else icache s i)\<rparr>
      in andthen (readsb me dev s) (\<lambda>(sbk, s). Inr (s\<lparr>sb := sbk\<rparr>)))"

definition IBLOCK :: "u32 \<Rightarrow> superblock \<Rightarrow> u32" where
  "IBLOCK i sbk = i div IPB + sb_inodestart sbk"

text \<open>
  The fields of a \<^verbatim>\<open>struct dinode\<close> at offset \<open>a\<close>: type, major, minor and nlink of two bytes each, the
  size, and thirteen block numbers.
\<close>

definition dip_off :: "u32 \<Rightarrow> addr" where
  "dip_off i = 64 * (i mod IPB)"

definition dip_write :: "addr \<Rightarrow> inode \<Rightarrow> block \<Rightarrow> block" where
  "dip_write a ip d =
     fold (\<lambda>k. store32 (a + 12 + 4 * of_nat k) (iaddrs ip k)) [0..<13]
       (store32 (a + 8) (isize ip)
         (store16 (a + 6) (inlink ip)
           (store16 (a + 4) (iminor ip)
             (store16 (a + 2) (imajor ip)
               (store16 a (itype ip) d)))))"

definition dip_read :: "addr \<Rightarrow> block \<Rightarrow> inode \<Rightarrow> inode" where
  "dip_read a d ip =
     ip\<lparr>itype := load16 d a, imajor := load16 d (a + 2), iminor := load16 d (a + 4), inlink := load16 d (a + 6),
        isize := load32 d (a + 8), iaddrs := (\<lambda>k. if k < 13 then load32 d (a + 12 + 4 * of_nat k) else iaddrs ip k)\<rparr>"

definition iget :: "u32 \<Rightarrow> u32 \<Rightarrow> 'a fs_state_scheme \<Rightarrow> (nat \<times> 'a fs_state_scheme) result" where
  "iget dev i s =
     (case find (\<lambda>p. 0 <s iref (icache s p) \<and> idev (icache s p) = dev \<and> inum (icache s p) = i) [0..<NINODE] of
        Some p \<Rightarrow> Inr (p, upd_inode p (\<lambda>ip. ip\<lparr>iref := iref ip + 1\<rparr>) s)
      | None \<Rightarrow>
          (case find (\<lambda>p. iref (icache s p) = 0) [0..<NINODE] of
             None \<Rightarrow> Inl (Panic ''iget: no inodes'')
           | Some p \<Rightarrow> Inr (p, upd_inode p (\<lambda>ip. ip\<lparr>idev := dev, inum := i, iref := 1, ivalid := False\<rparr>) s)))"

definition ialloc_body ::
  "nat \<Rightarrow> u32 \<Rightarrow> u16 \<Rightarrow> nat \<Rightarrow> 'a fs_state_scheme \<Rightarrow> (nat, 'a fs_state_scheme) flow result" where
  "ialloc_body me dev ty i s =
     andthen (bread me dev (IBLOCK (of_nat i) (sb s)) s) (\<lambda>(bp, s).
       let d = bdata (bbuf s bp);
           a = dip_off (of_nat i)
       in if load16 d a = 0 then
            andthen (log_write bp (set_data bp (store16 a ty (memset a 0 64 d)) s)) (\<lambda>s.
            andthen (brelse me bp s) (\<lambda>s.
            andthen (iget dev (of_nat i) s) (\<lambda>(ip, s).
              Inr (Leave ip s))))
          else andthen (brelse me bp s) (\<lambda>s. Inr (Next s)))"

definition ialloc :: "nat \<Rightarrow> u32 \<Rightarrow> u16 \<Rightarrow> 'a fs_state_scheme \<Rightarrow> (nat \<times> 'a fs_state_scheme) result" where
  "ialloc me dev ty s =
     andthen (for_each (ialloc_body me dev ty) [1..<unat (sb_ninodes (sb s))] s) (\<lambda>fl.
       case fl of
         Leave ip s \<Rightarrow> Inr (ip, s)
       | Next _ \<Rightarrow> Inl (Panic ''ialloc: no inodes''))"

definition iupdate :: "nat \<Rightarrow> nat \<Rightarrow> 'a fs_state_scheme \<Rightarrow> 'a fs_state_scheme result" where
  "iupdate me p s =
     andthen (bread me (idev (icache s p)) (IBLOCK (inum (icache s p)) (sb s)) s) (\<lambda>(bp, s).
       let d = dip_write (dip_off (inum (icache s p))) (icache s p) (bdata (bbuf s bp))
       in andthen (log_write bp (set_data bp d s)) (brelse me bp))"

definition idup :: "nat \<Rightarrow> 'a fs_state_scheme \<Rightarrow> nat \<times> 'a fs_state_scheme" where
  "idup p s = (p, upd_inode p (\<lambda>ip. ip\<lparr>iref := iref ip + 1\<rparr>) s)"

definition ilock :: "nat \<Rightarrow> nat \<Rightarrow> 'a fs_state_scheme \<Rightarrow> 'a fs_state_scheme result" where
  "ilock me p s =
     (if iref (icache s p) <s 1 then Inl (Panic ''ilock'')
      else
        andthen (acquiresleep (ChInode p) me (inode_lock (icache s p)) s) (\<lambda>l.
          let s = upd_inode p (\<lambda>ip. ip\<lparr>inode_lock := l\<rparr>) s
          in if \<not> ivalid (icache s p) then
               andthen (bread me (idev (icache s p)) (IBLOCK (inum (icache s p)) (sb s)) s) (\<lambda>(bp, s).
                 let s = upd_inode p (dip_read (dip_off (inum (icache s p))) (bdata (bbuf s bp))) s
                 in andthen (brelse me bp s) (\<lambda>s.
                      let s = upd_inode p (\<lambda>ip. ip\<lparr>ivalid := True\<rparr>) s
                      in if itype (icache s p) = 0 then Inl (Panic ''ilock: no type'') else Inr s))
             else Inr s))"

definition iunlock :: "nat \<Rightarrow> nat \<Rightarrow> 'a fs_state_scheme \<Rightarrow> 'a fs_state_scheme result" where
  "iunlock me p s =
     (if \<not> holdingsleep me (inode_lock (icache s p)) s \<or> iref (icache s p) <s 1 then Inl (Panic ''iunlock'')
      else
        let (l, s) = releasesleep (ChInode p) (inode_lock (icache s p)) s
        in Inr (upd_inode p (\<lambda>ip. ip\<lparr>inode_lock := l\<rparr>) s))"

section \<open>The blocks of a file\<close>

definition bmap :: "nat \<Rightarrow> nat \<Rightarrow> u32 \<Rightarrow> 'a fs_state_scheme \<Rightarrow> (u32 \<times> 'a fs_state_scheme) result" where
  "bmap me p bn s =
     (let dev = idev (icache s p)
      in if bn < NDIRECT then
           let a = iaddrs (icache s p) (unat bn)
           in if a = 0 then
                andthen (balloc me dev s) (\<lambda>(a, s).
                  Inr (a, upd_inode p (\<lambda>ip. ip\<lparr>iaddrs := (iaddrs ip)(unat bn := a)\<rparr>) s))
              else Inr (a, s)
         else
           let bn = bn - NDIRECT
           in if bn < NINDIRECT then
                let a = iaddrs (icache s p) 12
                in andthen (if a = 0 then
                       andthen (balloc me dev s) (\<lambda>(a, s).
                         Inr (a, upd_inode p (\<lambda>ip. ip\<lparr>iaddrs := (iaddrs ip)(12 := a)\<rparr>) s))
                     else Inr (a, s)) (\<lambda>(a, s).
                   andthen (bread me dev a s) (\<lambda>(bp, s).
                     let a = load32 (bdata (bbuf s bp)) (4 * bn)
                     in andthen (if a = 0 then
                            andthen (balloc me dev s) (\<lambda>(a, s).
                            andthen (log_write bp (set_data bp (store32 (4 * bn) a (bdata (bbuf s bp))) s)) (\<lambda>s.
                              Inr (a, s)))
                          else Inr (a, s)) (\<lambda>(a, s).
                        andthen (brelse me bp s) (\<lambda>s. Inr (a, s)))))
              else Inl (Panic ''bmap: out of range''))"

definition itrunc_direct :: "nat \<Rightarrow> nat \<Rightarrow> nat \<Rightarrow> 'a fs_state_scheme \<Rightarrow> 'a fs_state_scheme result" where
  "itrunc_direct me p i s =
     (if iaddrs (icache s p) i \<noteq> 0 then
        andthen (bfree me (idev (icache s p)) (iaddrs (icache s p) i) s) (\<lambda>s.
          Inr (upd_inode p (\<lambda>ip. ip\<lparr>iaddrs := (iaddrs ip)(i := 0)\<rparr>) s))
      else Inr s)"

definition itrunc_indirect :: "nat \<Rightarrow> nat \<Rightarrow> nat \<Rightarrow> nat \<Rightarrow> 'a fs_state_scheme \<Rightarrow> 'a fs_state_scheme result" where
  "itrunc_indirect me p bp j s =
     (let a = load32 (bdata (bbuf s bp)) (4 * of_nat j)
      in if a \<noteq> 0 then bfree me (idev (icache s p)) a s else Inr s)"

definition itrunc :: "nat \<Rightarrow> nat \<Rightarrow> 'a fs_state_scheme \<Rightarrow> 'a fs_state_scheme result" where
  "itrunc me p s =
     andthen (iterate (itrunc_direct me p) [0..<12] s) (\<lambda>s.
     andthen (if iaddrs (icache s p) 12 \<noteq> 0 then
         andthen (bread me (idev (icache s p)) (iaddrs (icache s p) 12) s) (\<lambda>(bp, s).
         andthen (iterate (itrunc_indirect me p bp) [0..<128] s) (\<lambda>s.
         andthen (brelse me bp s) (\<lambda>s.
         andthen (bfree me (idev (icache s p)) (iaddrs (icache s p) 12) s) (\<lambda>s.
           Inr (upd_inode p (\<lambda>ip. ip\<lparr>iaddrs := (iaddrs ip)(12 := 0)\<rparr>) s)))))
       else Inr s) (\<lambda>s.
     iupdate me p (upd_inode p (\<lambda>ip. ip\<lparr>isize := 0\<rparr>) s)))"

definition iput :: "nat \<Rightarrow> nat \<Rightarrow> 'a fs_state_scheme \<Rightarrow> 'a fs_state_scheme result" where
  "iput me p s =
     andthen (acquiresleep (ChInode p) me (inode_lock (icache s p)) s) (\<lambda>l.
       let s = upd_inode p (\<lambda>ip. ip\<lparr>inode_lock := l\<rparr>) s
       in andthen (if ivalid (icache s p) \<and> inlink (icache s p) = 0 \<and> iref (icache s p) = 1 then
              andthen (itrunc me p s) (\<lambda>s.
              andthen (iupdate me p (upd_inode p (\<lambda>ip. ip\<lparr>itype := 0\<rparr>) s)) (\<lambda>s.
                Inr (upd_inode p (\<lambda>ip. ip\<lparr>ivalid := False\<rparr>) s)))
            else Inr s) (\<lambda>s.
          let (l, s) = releasesleep (ChInode p) (inode_lock (icache s p)) s;
              s = upd_inode p (\<lambda>ip. ip\<lparr>inode_lock := l\<rparr>) s
          in Inr (upd_inode p (\<lambda>ip. ip\<lparr>iref := iref ip - 1\<rparr>) s)))"

definition iunlockput :: "nat \<Rightarrow> nat \<Rightarrow> 'a fs_state_scheme \<Rightarrow> 'a fs_state_scheme result" where
  "iunlockput me p s = andthen (iunlock me p s) (iput me p)"

record stat =
  st_type :: u16
  st_dev :: u32
  st_ino :: u32
  st_nlink :: u16
  st_size :: u32

definition stati :: "nat \<Rightarrow> 'a fs_state_scheme \<Rightarrow> stat" where
  "stati p s =
     \<lparr>st_type = itype (icache s p), st_dev = idev (icache s p), st_ino = inum (icache s p),
      st_nlink = inlink (icache s p), st_size = isize (icache s p)\<rparr>"

end
