(* ===== verification/Console.thy ===== *)
theory Console
  imports Fs
begin

text \<open>
  The console, \<^verbatim>\<open>console.c\<close>: formatted output, the text screen, and line-buffered input. The port
  accesses of the display controller are the field \<open>crt_pos\<close>, characters sent to the serial port
  the list \<open>uart_out\<close>, and the values a \<^verbatim>\<open>getc\<close> function returns before its \<open>-1\<close> a list.
\<close>

section \<open>State\<close>

record cons_state = fs_state +
  panicked :: bool
  crt :: "u32 \<Rightarrow> u16"
  crt_pos :: u16
  uart_out :: "u8 list"
  input_buf :: "u32 \<Rightarrow> u8"
  input_r :: u32
  input_w :: u32
  input_e :: u32

abbreviation (input) BACKSPACE :: u32 where "BACKSPACE \<equiv> 0x100"
abbreviation (input) INPUT_BUF :: u32 where "INPUT_BUF \<equiv> 128"

section \<open>Output\<close>

definition uartputc :: "u32 \<Rightarrow> 'a cons_state_scheme \<Rightarrow> 'a cons_state_scheme" where
  "uartputc c s = s\<lparr>uart_out := uart_out s @ [ucast c]\<rparr>"

definition cgaputc :: "u32 \<Rightarrow> 'a cons_state_scheme \<Rightarrow> 'a cons_state_scheme result" where
  "cgaputc c s =
     (let pos = ucast (crt_pos s) :: u32;
          (pos, s) =
            (if c = 10 then (pos + (80 - pos mod 80), s)
             else if c = BACKSPACE then (if 0 <s pos then pos - 1 else pos, s)
             else (pos + 1, s\<lparr>crt := (crt s)(pos := ucast (c AND 0xff) OR 0x0700)\<rparr>))
      in if pos <s 0 \<or> 25 * 80 <s pos then Inl (Panic ''pos under/overflow'')
         else
           let (pos, s) =
                 (if pos div 80 \<ge> 24 then
                    let s = s\<lparr>crt := (\<lambda>i. if i < 23 * 80 then crt s (i + 80) else crt s i)\<rparr>;
                        pos = pos - 80
                    in (pos, s\<lparr>crt := (\<lambda>i. if i \<ge> pos \<and> i < 24 * 80 then 0 else crt s i)\<rparr>)
                  else (pos, s));
               s = s\<lparr>crt_pos := ucast pos\<rparr>
           in Inr (s\<lparr>crt := (crt s)(pos := 0x20 OR 0x0700)\<rparr>))"

definition consputc :: "u32 \<Rightarrow> 'a cons_state_scheme \<Rightarrow> 'a cons_state_scheme result" where
  "consputc c s =
     (if panicked s then Inl Spinning
      else
        let s = (if c = BACKSPACE then uartputc 8 (uartputc 0x20 (uartputc 8 s)) else uartputc c s)
        in cgaputc c s)"

primrec consputs :: "u8 list \<Rightarrow> 'a cons_state_scheme \<Rightarrow> 'a cons_state_scheme result" where
  "consputs [] s = Inr s"
| "consputs (c # cs) s = andthen (consputc (ucast c) s) (consputs cs)"

text \<open>The characters \<^verbatim>\<open>printint\<close> prints; the digits come out of the division loop in reverse.\<close>

definition digit :: "u32 \<Rightarrow> u8" where
  "digit d = (if d < 10 then 0x30 + ucast d else 0x61 + ucast (d - 10))"

function digits_rev :: "u32 \<Rightarrow> u32 \<Rightarrow> u8 list" where
  "digits_rev base x =
     digit (x mod base) # (if base < 2 \<or> x div base = 0 then [] else digits_rev base (x div base))"
  by pat_completeness auto
termination
proof (relation "measure (\<lambda>(base, x). unat x)", goal_cases)
  case (2 base x)
  then have "x \<noteq> 0" "1 < unat base"
    by (auto simp: word_less_nat_alt)
  then have "unat x div unat base < unat x"
    by (intro div_less_dividend) (auto simp: unat_gt_0)
  then show ?case
    by (simp add: unat_div)
qed simp

declare digits_rev.simps [simp del]

definition printint_chars :: "u32 \<Rightarrow> u32 \<Rightarrow> bool \<Rightarrow> u8 list" where
  "printint_chars xx base sg =
     (let neg = (sg \<and> xx <s 0);
          x = (if neg then - xx else xx)
      in rev (digits_rev base x @ (if neg then [0x2d] else [])))"

definition printint :: "u32 \<Rightarrow> u32 \<Rightarrow> bool \<Rightarrow> 'a cons_state_scheme \<Rightarrow> 'a cons_state_scheme result" where
  "printint xx base sg s = consputs (printint_chars xx base sg) s"

text \<open>
  \<^verbatim>\<open>cprintf\<close> with the list of its further arguments; an argument that is missing, or a string that
  has no end, is a bad access.
\<close>

definition string_at :: "memory \<Rightarrow> addr \<Rightarrow> u8 list result" where
  "string_at m a =
     (case strlen m a of
        None \<Rightarrow> Inl (BadAccess a)
      | Some n \<Rightarrow> Inr (map (\<lambda>i. m (a + of_nat i)) [0..<n]))"

fun cprintf_chars :: "memory \<Rightarrow> u8 list \<Rightarrow> u32 list \<Rightarrow> u8 list result" where
  "cprintf_chars m [] args = Inr []"
| "cprintf_chars m (c # fmt) args =
     (if c \<noteq> 0x25 then andthen (cprintf_chars m fmt args) (\<lambda>r. Inr (c # r))
      else case fmt of
        [] \<Rightarrow> Inr []
      | c # fmt \<Rightarrow>
          if c = 0x64 then
            (case args of
               [] \<Rightarrow> Inl (BadAccess 0)
             | x # args \<Rightarrow> andthen (cprintf_chars m fmt args) (\<lambda>r. Inr (printint_chars x 10 True @ r)))
          else if c = 0x78 \<or> c = 0x70 then
            (case args of
               [] \<Rightarrow> Inl (BadAccess 0)
             | x # args \<Rightarrow> andthen (cprintf_chars m fmt args) (\<lambda>r. Inr (printint_chars x 16 False @ r)))
          else if c = 0x73 then
            (case args of
               [] \<Rightarrow> Inl (BadAccess 0)
             | x # args \<Rightarrow>
                 andthen (if x = 0 then Inr [0x28, 0x6e, 0x75, 0x6c, 0x6c, 0x29] else string_at m x) (\<lambda>str.
                 andthen (cprintf_chars m fmt args) (\<lambda>r. Inr (str @ r))))
          else if c = 0x25 then andthen (cprintf_chars m fmt args) (\<lambda>r. Inr (0x25 # r))
          else andthen (cprintf_chars m fmt args) (\<lambda>r. Inr (0x25 # c # r)))"

definition cprintf :: "u8 list \<Rightarrow> u32 list \<Rightarrow> 'a cons_state_scheme \<Rightarrow> 'a cons_state_scheme result" where
  "cprintf fmt args s = andthen (cprintf_chars (mem s) fmt args) (\<lambda>cs. consputs cs s)"

section \<open>Input\<close>

text \<open>Every pass of the loop of \<^verbatim>\<open>C('U')\<close> takes one from \<open>e - w\<close>, so that many passes are enough.\<close>

primrec kill_line_loop :: "nat \<Rightarrow> 'a cons_state_scheme \<Rightarrow> 'a cons_state_scheme result" where
  "kill_line_loop 0 s = Inr s"
| "kill_line_loop (Suc n) s =
     (if input_e s \<noteq> input_w s \<and> input_buf s ((input_e s - 1) mod INPUT_BUF) \<noteq> 10
      then andthen (consputc BACKSPACE (s\<lparr>input_e := input_e s - 1\<rparr>)) (kill_line_loop n)
      else Inr s)"

definition kill_line :: "'a cons_state_scheme \<Rightarrow> 'a cons_state_scheme result" where
  "kill_line s = kill_line_loop (unat (input_e s - input_w s)) s"

definition console_char :: "u32 \<Rightarrow> bool \<times> 'a cons_state_scheme \<Rightarrow> (bool \<times> 'a cons_state_scheme) result" where
  "console_char c = (\<lambda>(dump, s).
     if c = 0x10 then Inr (True, s)
     else if c = 0x15 then andthen (kill_line s) (\<lambda>s. Inr (dump, s))
     else if c = 8 \<or> c = 0x7f then
       (if input_e s \<noteq> input_w s
        then andthen (consputc BACKSPACE (s\<lparr>input_e := input_e s - 1\<rparr>)) (\<lambda>s. Inr (dump, s))
        else Inr (dump, s))
     else if c \<noteq> 0 \<and> input_e s - input_r s < INPUT_BUF then
       let c = (if c = 13 then 10 else c);
           s = s\<lparr>input_buf := (input_buf s)(input_e s mod INPUT_BUF := ucast c), input_e := input_e s + 1\<rparr>
       in andthen (consputc c s) (\<lambda>s.
          Inr (dump, if c = 10 \<or> c = 4 \<or> input_e s = input_r s + INPUT_BUF
                     then wakeup ChConsole (s\<lparr>input_w := input_e s\<rparr>) else s))
     else Inr (dump, s))"

text \<open>The flag of the result asks for \<^verbatim>\<open>procdump\<close>, which prints the process table.\<close>

primrec consoleintr_loop ::
  "u32 list \<Rightarrow> bool \<times> 'a cons_state_scheme \<Rightarrow> (bool \<times> 'a cons_state_scheme) result" where
  "consoleintr_loop [] x = Inr x"
| "consoleintr_loop (c # cs) x = andthen (console_char c x) (consoleintr_loop cs)"

definition consoleintr :: "u32 list \<Rightarrow> 'a cons_state_scheme \<Rightarrow> (bool \<times> 'a cons_state_scheme) result" where
  "consoleintr cs s = consoleintr_loop cs (False, s)"

text \<open>
  \<^verbatim>\<open>consoleread\<close> delivers the bytes; \<open>None\<close> is the return of a killed process. It is a step once it
  need not sleep any more.
\<close>

primrec consoleread_loop ::
  "nat \<Rightarrow> nat \<Rightarrow> u8 list \<Rightarrow> 'a cons_state_scheme \<Rightarrow> (u8 list option \<times> 'a cons_state_scheme) result" where
  "consoleread_loop me 0 got s = Inr (Some got, s)"
| "consoleread_loop me (Suc n) got s =
     (if input_r s = input_w s then
        (if pkilled (ptable s me) then Inr (None, s) else Inl (Sleep ChConsole))
      else
        let c = input_buf s (input_r s mod INPUT_BUF);
            s = s\<lparr>input_r := input_r s + 1\<rparr>
        in if c = 4 then
             Inr (Some got, if got \<noteq> [] then s\<lparr>input_r := input_r s - 1\<rparr> else s)
           else if c = 10 then Inr (Some (got @ [c]), s)
           else consoleread_loop me n (got @ [c]) s)"

definition consoleread ::
  "nat \<Rightarrow> nat \<Rightarrow> u32 \<Rightarrow> 'a cons_state_scheme \<Rightarrow> (u32 \<times> u8 list \<times> 'a cons_state_scheme) result" where
  "consoleread me ip n s =
     andthen (iunlock me ip s) (\<lambda>s.
     andthen (consoleread_loop me (nat (sint n)) [] s) (\<lambda>(r, s).
     andthen (ilock me ip s) (\<lambda>s.
       case r of
         None \<Rightarrow> Inr (- 1, [], s)
       | Some got \<Rightarrow> Inr (of_nat (length got), got, s))))"

definition consolewrite ::
  "nat \<Rightarrow> nat \<Rightarrow> u8 list \<Rightarrow> u32 \<Rightarrow> 'a cons_state_scheme \<Rightarrow> (u32 \<times> 'a cons_state_scheme) result" where
  "consolewrite me ip bytes n s =
     andthen (iunlock me ip s) (\<lambda>s.
     andthen (consputs (take (nat (sint n)) bytes) s) (\<lambda>s.
     andthen (ilock me ip s) (\<lambda>s.
       Inr (n, s))))"

end
