(* ===== verification/Dir.thy ===== *)
theory Dir
  imports Console
begin

text \<open>
  The upper half of \<^verbatim>\<open>fs.c\<close>: reading and writing inodes, directories and path names. \<^verbatim>\<open>readi\<close> delivers
  the bytes that C stores through \<^verbatim>\<open>dst\<close> and \<^verbatim>\<open>writei\<close> takes those it finds at \<^verbatim>\<open>src\<close>. A path is the
  list of its characters without the final NUL.
\<close>

section \<open>Contents of an inode\<close>

text \<open>\<open>m = min(n - tot, BSIZE - off%BSIZE)\<close>, the bytes one pass of the loops moves.\<close>

definition io_chunk :: "u32 \<Rightarrow> u32 \<Rightarrow> u32" where
  "io_chunk left off = (let k = BSIZE - off mod BSIZE in if left < k then left else k)"

lemma io_chunk_bounds: "0 < left \<Longrightarrow> 0 < io_chunk left off \<and> io_chunk left off \<le> left"
proof -
  assume "0 < left"
  have "unat (off mod 512) < 512"
    by (simp add: unat_mod)
  then have "0 < 512 - off mod 512"
    by (simp add: word_less_nat_alt unat_sub word_le_nat_alt)
  with \<open>0 < left\<close> show ?thesis
    by (simp add: io_chunk_def Let_def linorder_not_less)
qed

lemma io_chunk_decreases:
  assumes "0 < left"
  shows "unat (left - io_chunk left off) < unat left"
  using io_chunk_bounds [OF assms, of off] by (simp add: unat_sub word_less_nat_alt word_le_nat_alt)

text \<open>The loops count \<open>n - tot\<close> down instead of \<open>tot\<close> up.\<close>

function readi_loop ::
  "nat \<Rightarrow> nat \<Rightarrow> u32 \<Rightarrow> u32 \<Rightarrow> 'a fs_state_scheme \<Rightarrow> (u8 list \<times> 'a fs_state_scheme) result" where
  "readi_loop me p off left s =
     (if 0 < left then
        andthen (bmap me p (off div BSIZE) s) (\<lambda>(a, s).
        andthen (bread me (idev (icache s p)) a s) (\<lambda>(bp, s).
          let m = io_chunk left off;
              bytes = get_bytes (bdata (bbuf s bp)) (off mod BSIZE) (unat m)
          in andthen (brelse me bp s) (\<lambda>s.
             andthen (readi_loop me p (off + m) (left - m) s) (\<lambda>(more_bytes, s).
               Inr (bytes @ more_bytes, s)))))
      else Inr ([], s))"
  by pat_completeness auto
termination
  by (relation "measure (\<lambda>(me, p, off, left, s). unat left)") (simp_all add: io_chunk_decreases)

declare readi_loop.simps [simp del]

definition no_device :: "u16 \<Rightarrow> bool" where
  "no_device major \<longleftrightarrow> major <s 0 \<or> 10 \<le>s major \<or> major \<noteq> 1"

definition readi ::
  "nat \<Rightarrow> nat \<Rightarrow> u32 \<Rightarrow> u32 \<Rightarrow> 'a cons_state_scheme \<Rightarrow> (u32 \<times> u8 list \<times> 'a cons_state_scheme) result" where
  "readi me p off n s =
     (let ip = icache s p
      in if itype ip = T_DEV then
           (if no_device (imajor ip) then Inr (- 1, [], s) else consoleread me p n s)
         else if off > isize ip \<or> off + n < off then Inr (- 1, [], s)
         else
           let n = (if off + n > isize ip then isize ip - off else n)
           in andthen (readi_loop me p off n s) (\<lambda>(bytes, s). Inr (n, bytes, s)))"

function writei_loop ::
  "nat \<Rightarrow> nat \<Rightarrow> u8 list \<Rightarrow> u32 \<Rightarrow> u32 \<Rightarrow> 'a fs_state_scheme \<Rightarrow> 'a fs_state_scheme result" where
  "writei_loop me p src off left s =
     (if 0 < left then
        andthen (bmap me p (off div BSIZE) s) (\<lambda>(a, s).
        andthen (bread me (idev (icache s p)) a s) (\<lambda>(bp, s).
          let m = io_chunk left off;
              d = put_bytes (off mod BSIZE) (take (unat m) src) (bdata (bbuf s bp))
          in andthen (log_write bp (set_data bp d s)) (\<lambda>s.
             andthen (brelse me bp s) (\<lambda>s.
               writei_loop me p (drop (unat m) src) (off + m) (left - m) s))))
      else Inr s)"
  by pat_completeness auto
termination
  by (relation "measure (\<lambda>(me, p, src, off, left, s). unat left)") (simp_all add: io_chunk_decreases)

declare writei_loop.simps [simp del]

definition writei ::
  "nat \<Rightarrow> nat \<Rightarrow> u8 list \<Rightarrow> u32 \<Rightarrow> u32 \<Rightarrow> 'a cons_state_scheme \<Rightarrow> (u32 \<times> 'a cons_state_scheme) result" where
  "writei me p src off n s =
     (let ip = icache s p
      in if itype ip = T_DEV then
           (if no_device (imajor ip) then Inr (- 1, s) else consolewrite me p src n s)
         else if off > isize ip \<or> off + n < off then Inr (- 1, s)
         else if off + n > MAXFILE * BSIZE then Inr (- 1, s)
         else
           andthen (writei_loop me p src off n s) (\<lambda>s.
             let off = off + n
             in if n > 0 \<and> off > isize (icache s p) then
                  andthen (iupdate me p (upd_inode p (\<lambda>ip. ip\<lparr>isize := off\<rparr>) s)) (\<lambda>s. Inr (n, s))
                else Inr (n, s)))"

section \<open>Directories\<close>

abbreviation (input) DIRSIZ :: nat where "DIRSIZ \<equiv> 14"

text \<open>\<^verbatim>\<open>strncmp\<close> on two strings given as lists, the end of a list standing for the NUL byte.\<close>

definition char_at :: "u8 list \<Rightarrow> nat \<Rightarrow> u8" where
  "char_at s i = (if i < length s then s ! i else 0)"

primrec strncmp_list :: "nat \<Rightarrow> u8 list \<Rightarrow> u8 list \<Rightarrow> u32" where
  "strncmp_list 0 s t = 0"
| "strncmp_list (Suc n) s t =
     (if char_at s 0 \<noteq> 0 \<and> char_at s 0 = char_at t 0 then strncmp_list n (drop 1 s) (drop 1 t)
      else ucast (char_at s 0) - ucast (char_at t 0))"

definition namecmp :: "u8 list \<Rightarrow> u8 list \<Rightarrow> u32" where
  "namecmp s t = strncmp_list DIRSIZ s t"

text \<open>A \<^verbatim>\<open>struct dirent\<close>: the two bytes of the inode number, then the name padded with NULs.\<close>

definition de_inum :: "u8 list \<Rightarrow> u16" where
  "de_inum de = ucast (de ! 0) OR push_bit 8 (ucast (de ! 1))"

definition de_name :: "u8 list \<Rightarrow> u8 list" where
  "de_name de = take DIRSIZ (drop 2 de)"

definition de_make :: "u8 list \<Rightarrow> u16 \<Rightarrow> u8 list" where
  "de_make name i =
     [ucast i, ucast (drop_bit 8 i)] @ take DIRSIZ (takeWhile (\<lambda>c. c \<noteq> 0) name @ replicate DIRSIZ 0)"

lemma step16_no_wrap:
  fixes off :: u32
  assumes "\<not> off + 16 < off"
  shows "unat (off + 16) = unat off + 16"
proof -
  have "unat off + unat (16 :: u32) < 2 ^ 32"
    using assms no_olen_add_nat [of off "16 :: u32"] by (simp add: not_less)
  then show ?thesis
    by (simp add: unat_word_ariths)
qed

text \<open>
  The loops of \<^verbatim>\<open>dirlookup\<close> and \<^verbatim>\<open>dirlink\<close> step through the directory in units of 16 bytes.
\<close>

function dir_scan ::
  "string \<Rightarrow> (u8 list \<Rightarrow> bool) \<Rightarrow> nat \<Rightarrow> nat \<Rightarrow> u32 \<Rightarrow> u32 \<Rightarrow> 'a cons_state_scheme
    \<Rightarrow> (u32 \<times> u8 list option \<times> 'a cons_state_scheme) result" where
  "dir_scan msg hit me dp off sz s =
     (if off < sz then
        andthen (readi me dp off 16 s) (\<lambda>(r, de, s).
          if r \<noteq> 16 then Inl (Panic msg)
          else if hit de then Inr (off, Some de, s)
          else if off + 16 < off then Inl AddrWrap
          else dir_scan msg hit me dp (off + 16) sz s)
      else Inr (off, None, s))"
  by pat_completeness auto
termination
proof (relation "measure (\<lambda>(msg, hit, me, dp, off, sz, s). unat sz - unat off)", goal_cases)
  case (2 msg hit me dp off sz s)
  then have "unat (off + 16) = unat off + 16"
    by (intro step16_no_wrap)
  then show ?case
    using 2(1) by (simp add: word_less_nat_alt)
qed simp

declare dir_scan.simps [simp del]

definition dirlookup ::
  "nat \<Rightarrow> nat \<Rightarrow> u8 list \<Rightarrow> 'a cons_state_scheme \<Rightarrow> ((nat \<times> u32) option \<times> 'a cons_state_scheme) result" where
  "dirlookup me dp name s =
     (if itype (icache s dp) \<noteq> T_DIR then Inl (Panic ''dirlookup not DIR'')
      else
        andthen (dir_scan ''dirlookup read'' (\<lambda>de. de_inum de \<noteq> 0 \<and> namecmp name (de_name de) = 0)
                   me dp 0 (isize (icache s dp)) s) (\<lambda>(off, r, s).
          case r of
            None \<Rightarrow> Inr (None, s)
          | Some de \<Rightarrow>
              andthen (iget (idev (icache s dp)) (ucast (de_inum de)) s) (\<lambda>(ip, s).
                Inr (Some (ip, off), s))))"

definition dirlink ::
  "nat \<Rightarrow> nat \<Rightarrow> u8 list \<Rightarrow> u32 \<Rightarrow> 'a cons_state_scheme \<Rightarrow> (u32 \<times> 'a cons_state_scheme) result" where
  "dirlink me dp name i s =
     andthen (dirlookup me dp name s) (\<lambda>(r, s).
       case r of
         Some (ip, _) \<Rightarrow> andthen (iput me ip s) (\<lambda>s. Inr (- 1, s))
       | None \<Rightarrow>
           andthen (dir_scan ''dirlink read'' (\<lambda>de. de_inum de = 0) me dp 0 (isize (icache s dp)) s) (\<lambda>(off, _, s).
           andthen (writei me dp (de_make name (ucast i)) off 16 s) (\<lambda>(n, s).
             if n \<noteq> 16 then Inl (Panic ''dirlink'') else Inr (0, s))))"

section \<open>Paths\<close>

definition skipelem :: "u8 list \<Rightarrow> (u8 list \<times> u8 list) option" where
  "skipelem path =
     (let path = dropWhile (\<lambda>c. c = 0x2f) path
      in if path = [] then None
         else
           let elem = takeWhile (\<lambda>c. c \<noteq> 0x2f) path;
               path = dropWhile (\<lambda>c. c \<noteq> 0x2f) path
           in Some (dropWhile (\<lambda>c. c = 0x2f) path, take DIRSIZ elem))"

lemma skipelem_shorter: "skipelem path = Some (rest, name) \<Longrightarrow> length rest < length path"
proof -
  assume "skipelem path = Some (rest, name)"
  then have d: "dropWhile (\<lambda>c. c = 0x2f) path \<noteq> []"
    and r: "rest = dropWhile (\<lambda>c. c = 0x2f) (dropWhile (\<lambda>c. c \<noteq> 0x2f) (dropWhile (\<lambda>c. c = 0x2f) path))"
    by (auto simp: skipelem_def Let_def split: if_splits)
  obtain x xs where x: "dropWhile (\<lambda>c. c = 0x2f) path = x # xs" "x \<noteq> 0x2f"
    using d hd_dropWhile [OF d] by (metis list.collapse)
  have "length rest \<le> length (dropWhile (\<lambda>c. c \<noteq> 0x2f) xs)"
    using r x length_dropWhile_le [of "\<lambda>c. c = 0x2f" "dropWhile (\<lambda>c. c \<noteq> 0x2f) xs"] by simp
  also have "\<dots> < length (x # xs)"
    using length_dropWhile_le [of "\<lambda>c. c \<noteq> 0x2f" xs] by simp
  also have "\<dots> \<le> length path"
    using x(1) length_dropWhile_le [of "\<lambda>c. c = 0x2f" path] by simp
  finally show ?thesis .
qed

text \<open>\<^verbatim>\<open>namex\<close> returns the inode, or none, and the last name it took from the path.\<close>

function namex_loop ::
  "nat \<Rightarrow> bool \<Rightarrow> nat \<Rightarrow> u8 list \<Rightarrow> u8 list \<Rightarrow> 'a cons_state_scheme
    \<Rightarrow> (nat option \<times> u8 list \<times> 'a cons_state_scheme) result" where
  "namex_loop me parent ip path name s =
     (case skipelem path of
        None \<Rightarrow>
          if parent then andthen (iput me ip s) (\<lambda>s. Inr (None, name, s))
          else Inr (Some ip, name, s)
      | Some (path, name) \<Rightarrow>
          andthen (ilock me ip s) (\<lambda>s.
            if itype (icache s ip) \<noteq> T_DIR then
              andthen (iunlockput me ip s) (\<lambda>s. Inr (None, name, s))
            else if parent \<and> path = [] then
              andthen (iunlock me ip s) (\<lambda>s. Inr (Some ip, name, s))
            else
              andthen (dirlookup me ip name s) (\<lambda>(r, s).
                case r of
                  None \<Rightarrow> andthen (iunlockput me ip s) (\<lambda>s. Inr (None, name, s))
                | Some (next_ip, _) \<Rightarrow>
                    andthen (iunlockput me ip s) (\<lambda>s. namex_loop me parent next_ip path name s))))"
  by pat_completeness auto
termination
  by (relation "measure (\<lambda>(me, parent, ip, path, name, s). length path)") (auto dest: skipelem_shorter)

declare namex_loop.simps [simp del]

definition namex ::
  "nat \<Rightarrow> u8 list \<Rightarrow> bool \<Rightarrow> 'a cons_state_scheme \<Rightarrow> (nat option \<times> u8 list \<times> 'a cons_state_scheme) result" where
  "namex me path parent s =
     (if path \<noteq> [] \<and> hd path = 0x2f then
        andthen (iget 1 1 s) (\<lambda>(ip, s). namex_loop me parent ip path [] s)
      else
        (case pcwd (ptable s me) of
           None \<Rightarrow> Inl (BadAccess 0)
         | Some cwd \<Rightarrow> let (ip, s) = idup cwd s in namex_loop me parent ip path [] s))"

definition namei :: "nat \<Rightarrow> u8 list \<Rightarrow> 'a cons_state_scheme \<Rightarrow> (nat option \<times> 'a cons_state_scheme) result" where
  "namei me path s = andthen (namex me path False s) (\<lambda>(ip, _, s). Inr (ip, s))"

definition nameiparent ::
  "nat \<Rightarrow> u8 list \<Rightarrow> 'a cons_state_scheme \<Rightarrow> (nat option \<times> u8 list \<times> 'a cons_state_scheme) result" where
  "nameiparent me path s = namex me path True s"

end
