(* ===== verification/File.thy ===== *)
theory File
  imports Dir
begin

text \<open>
  Open files and pipes: \<^verbatim>\<open>file.c\<close> and \<^verbatim>\<open>pipe.c\<close>. A pointer to a file is its index in \<^verbatim>\<open>ftable.file\<close>; a
  pipe is named by the address of the page that holds it, and \<open>pipes\<close> gives its fields. A call that
  transfers data delivers or takes the bytes; a call on a pipe that has to sleep stops as
  \<^term>\<open>Block ch\<close> and is continued by calling it again.
\<close>

section \<open>State\<close>

datatype ftype = FD_NONE | FD_PIPE | FD_INODE

record ofile =
  ftyp :: ftype
  fref :: u32
  freadable :: bool
  fwritable :: bool
  fpipe :: addr
  fip :: nat
  foff :: u32

record pipe =
  pdata :: "u32 \<Rightarrow> u8"
  nread :: u32
  nwrite :: u32
  readopen :: bool
  writeopen :: bool

record file_state = cons_state +
  ftable :: "nat \<Rightarrow> ofile"
  pipes :: "addr \<Rightarrow> pipe"

abbreviation (input) NFILE :: nat where "NFILE \<equiv> 100"
abbreviation (input) PIPESIZE :: u32 where "PIPESIZE \<equiv> 512"

definition upd_file :: "nat \<Rightarrow> (ofile \<Rightarrow> ofile) \<Rightarrow> 'a file_state_scheme \<Rightarrow> 'a file_state_scheme" where
  "upd_file f g s = s\<lparr>ftable := (ftable s)(f := g (ftable s f))\<rparr>"

definition upd_pipe :: "addr \<Rightarrow> (pipe \<Rightarrow> pipe) \<Rightarrow> 'a file_state_scheme \<Rightarrow> 'a file_state_scheme" where
  "upd_pipe p g s = s\<lparr>pipes := (pipes s)(p := g (pipes s p))\<rparr>"

section \<open>File references\<close>

definition filealloc :: "'a file_state_scheme \<Rightarrow> nat option \<times> 'a file_state_scheme" where
  "filealloc s =
     (case find (\<lambda>f. fref (ftable s f) = 0) [0..<NFILE] of
        Some f \<Rightarrow> (Some f, upd_file f (\<lambda>x. x\<lparr>fref := 1\<rparr>) s)
      | None \<Rightarrow> (None, s))"

definition filedup :: "nat \<Rightarrow> 'a file_state_scheme \<Rightarrow> 'a file_state_scheme result" where
  "filedup f s =
     (if fref (ftable s f) <s 1 then Inl (Panic ''filedup'')
      else Inr (upd_file f (\<lambda>x. x\<lparr>fref := fref x + 1\<rparr>) s))"

section \<open>Pipes\<close>

definition pipeclose :: "addr \<Rightarrow> bool \<Rightarrow> 'a file_state_scheme \<Rightarrow> 'a file_state_scheme result" where
  "pipeclose p writable s =
     (let s = (if writable then wakeup (ChPipeRead p) (upd_pipe p (\<lambda>x. x\<lparr>writeopen := False\<rparr>) s)
               else wakeup (ChPipeWrite p) (upd_pipe p (\<lambda>x. x\<lparr>readopen := False\<rparr>) s))
      in if \<not> readopen (pipes s p) \<and> \<not> writeopen (pipes s p) then kfree p s else Inr s)"

text \<open>
  \<open>pipewrite\<close> writes the bytes that are still to be written, of the \<open>n\<close> of the call, and returns
  what is left when it has to sleep.
\<close>

primrec pipewrite ::
  "nat \<Rightarrow> addr \<Rightarrow> u32 \<Rightarrow> u8 list \<Rightarrow> 'a file_state_scheme \<Rightarrow> u32 waiting \<times> u8 list \<times> 'a file_state_scheme" where
  "pipewrite me p n [] s = (Done n, [], wakeup (ChPipeRead p) s)"
| "pipewrite me p n (c # cs) s =
     (let x = pipes s p
      in if nwrite x = nread x + PIPESIZE then
           (if \<not> readopen x \<or> pkilled (ptable s me) then (Done (- 1), c # cs, s)
            else (Block (ChPipeWrite p), c # cs, wakeup (ChPipeRead p) s))
         else
           pipewrite me p n cs
             (upd_pipe p (\<lambda>x. x\<lparr>pdata := (pdata x)(nwrite x mod PIPESIZE := c), nwrite := nwrite x + 1\<rparr>) s))"

primrec piperead_loop :: "addr \<Rightarrow> nat \<Rightarrow> 'a file_state_scheme \<Rightarrow> u8 list \<times> 'a file_state_scheme" where
  "piperead_loop p 0 s = ([], s)"
| "piperead_loop p (Suc n) s =
     (let x = pipes s p
      in if nread x = nwrite x then ([], s)
         else
           let (cs, s) = piperead_loop p n (upd_pipe p (\<lambda>x. x\<lparr>nread := nread x + 1\<rparr>) s)
           in (pdata x (nread x mod PIPESIZE) # cs, s))"

definition piperead ::
  "nat \<Rightarrow> addr \<Rightarrow> u32 \<Rightarrow> 'a file_state_scheme \<Rightarrow> u32 waiting \<times> u8 list \<times> 'a file_state_scheme" where
  "piperead me p n s =
     (let x = pipes s p
      in if nread x = nwrite x \<and> writeopen x then
           (if pkilled (ptable s me) then (Done (- 1), [], s) else (Block (ChPipeRead p), [], s))
         else
           let (cs, s) = piperead_loop p (nat (sint n)) s
           in (Done (of_nat (length cs)), cs, wakeup (ChPipeWrite p) s))"

section \<open>File operations\<close>

definition fileclose :: "nat \<Rightarrow> nat \<Rightarrow> 'a file_state_scheme \<Rightarrow> 'a file_state_scheme result" where
  "fileclose me f s =
     (if fref (ftable s f) <s 1 then Inl (Panic ''fileclose'')
      else
        let s = upd_file f (\<lambda>x. x\<lparr>fref := fref x - 1\<rparr>) s
        in if 0 <s fref (ftable s f) then Inr s
           else
             let ff = ftable s f;
                 s = upd_file f (\<lambda>x. x\<lparr>fref := 0, ftyp := FD_NONE\<rparr>) s
             in case ftyp ff of
                  FD_PIPE \<Rightarrow> pipeclose (fpipe ff) (fwritable ff) s
                | FD_INODE \<Rightarrow>
                    andthen (begin_op s) (\<lambda>s.
                    andthen (iput me (fip ff) s) (\<lambda>s.
                      end_op me s))
                | FD_NONE \<Rightarrow> Inr s)"

definition filestat :: "nat \<Rightarrow> nat \<Rightarrow> 'a file_state_scheme \<Rightarrow> (u32 \<times> stat option \<times> 'a file_state_scheme) result" where
  "filestat me f s =
     (if ftyp (ftable s f) = FD_INODE then
        let ip = fip (ftable s f)
        in andthen (ilock me ip s) (\<lambda>s.
             let st = stati ip s
             in andthen (iunlock me ip s) (\<lambda>s. Inr (0, Some st, s)))
      else Inr (- 1, None, s))"

definition fileread ::
  "nat \<Rightarrow> nat \<Rightarrow> u32 \<Rightarrow> 'a file_state_scheme \<Rightarrow> (u32 waiting \<times> u8 list \<times> 'a file_state_scheme) result" where
  "fileread me f n s =
     (let x = ftable s f
      in if \<not> freadable x then Inr (Done (- 1), [], s)
         else case ftyp x of
           FD_PIPE \<Rightarrow> Inr (piperead me (fpipe x) n s)
         | FD_INODE \<Rightarrow>
             andthen (ilock me (fip x) s) (\<lambda>s.
             andthen (readi me (fip x) (foff (ftable s f)) n s) (\<lambda>(r, bytes, s).
               let s = (if 0 <s r then upd_file f (\<lambda>x. x\<lparr>foff := foff x + r\<rparr>) s else s)
               in andthen (iunlock me (fip x) s) (\<lambda>s. Inr (Done r, bytes, s))))
         | FD_NONE \<Rightarrow> Inl (Panic ''fileread''))"

text \<open>
  The loop of \<^verbatim>\<open>filewrite\<close> moves at most \<open>((10 - 1 - 1 - 2) / 2) * 512\<close> bytes per transaction. It runs
  as long as \<open>i < n\<close>; \<open>k\<close> bounds its passes, and the lemma \<open>filewrite_enough\<close> shows that \<open>n\<close> of them
  are enough.
\<close>

abbreviation (input) WRITE_MAX :: u32 where "WRITE_MAX \<equiv> ((10 - 1 - 1 - 2) div 2) * 512"

primrec filewrite_loop ::
  "nat \<Rightarrow> nat \<Rightarrow> nat \<Rightarrow> u8 list \<Rightarrow> u32 \<Rightarrow> u32 \<Rightarrow> 'a file_state_scheme \<Rightarrow> (u32 \<times> 'a file_state_scheme) result" where
  "filewrite_loop 0 me f bytes n i s = (if i <s n then Inl Diverges else Inr (i, s))"
| "filewrite_loop (Suc k) me f bytes n i s =
     (if i <s n then
        let n1 = (if WRITE_MAX <s n - i then WRITE_MAX else n - i);
            ip = fip (ftable s f)
        in andthen (begin_op s) (\<lambda>s.
           andthen (ilock me ip s) (\<lambda>s.
           andthen (writei me ip (drop (unat i) bytes) (foff (ftable s f)) n1 s) (\<lambda>(r, s).
             let s = (if 0 <s r then upd_file f (\<lambda>x. x\<lparr>foff := foff x + r\<rparr>) s else s)
             in andthen (iunlock me ip s) (\<lambda>s.
                andthen (end_op me s) (\<lambda>s.
                  if r <s 0 then Inr (i, s)
                  else if r \<noteq> n1 then Inl (Panic ''short filewrite'')
                  else filewrite_loop k me f bytes n (i + r) s)))))
      else Inr (i, s))"

definition filewrite ::
  "nat \<Rightarrow> nat \<Rightarrow> u8 list \<Rightarrow> u32 \<Rightarrow> 'a file_state_scheme \<Rightarrow> (u32 waiting \<times> u8 list \<times> 'a file_state_scheme) result" where
  "filewrite me f bytes n s =
     (let x = ftable s f
      in if \<not> fwritable x then Inr (Done (- 1), [], s)
         else case ftyp x of
           FD_PIPE \<Rightarrow> Inr (pipewrite me (fpipe x) n bytes s)
         | FD_INODE \<Rightarrow>
             andthen (filewrite_loop (nat (sint n)) me f bytes n 0 s) (\<lambda>(i, s).
               Inr (Done (if i = n then n else - 1), [], s))
         | FD_NONE \<Rightarrow> Inl (Panic ''filewrite''))"

text \<open>\<open>pipealloc_bad\<close> is what follows the label \<^verbatim>\<open>bad\<close>; \<^verbatim>\<open>p\<close> is null whenever it is reached.\<close>

definition pipealloc_bad ::
  "nat \<Rightarrow> nat option \<Rightarrow> nat option \<Rightarrow> 'a file_state_scheme
    \<Rightarrow> ((nat \<times> nat) option \<times> 'a file_state_scheme) result" where
  "pipealloc_bad me f0 f1 s =
     andthen (case f0 of None \<Rightarrow> Inr s | Some f \<Rightarrow> fileclose me f s) (\<lambda>s.
     andthen (case f1 of None \<Rightarrow> Inr s | Some f \<Rightarrow> fileclose me f s) (\<lambda>s.
       Inr (None, s)))"

definition pipealloc ::
  "nat \<Rightarrow> 'a file_state_scheme \<Rightarrow> ((nat \<times> nat) option \<times> 'a file_state_scheme) result" where
  "pipealloc me s =
     (let (f0, s) = filealloc s
      in case f0 of
           None \<Rightarrow> pipealloc_bad me None None s
         | Some r \<Rightarrow>
             let (f1, s) = filealloc s
             in case f1 of
                  None \<Rightarrow> pipealloc_bad me f0 None s
                | Some w \<Rightarrow>
                    let (p, s) = kalloc s
                    in if p = 0 then pipealloc_bad me f0 f1 s
                       else
                         let s = upd_pipe p (\<lambda>x. x\<lparr>readopen := True, writeopen := True, nwrite := 0, nread := 0\<rparr>) s;
                             s = upd_file r (\<lambda>x. x\<lparr>ftyp := FD_PIPE, freadable := True, fwritable := False, fpipe := p\<rparr>) s;
                             s = upd_file w (\<lambda>x. x\<lparr>ftyp := FD_PIPE, freadable := False, fwritable := True, fpipe := p\<rparr>) s
                         in Inr (Some (r, w), s))"

end
