(* ===== verification/Args.thy ===== *)
theory Args
  imports File
begin

text \<open>
  The kernel's access to user memory and to system call arguments: the first half of \<^verbatim>\<open>syscall.c\<close>, and
  the fields of the trap frame. An access through the current page table that the hardware refuses
  (page not present, or read-only on a write; the kernel runs with \<^verbatim>\<open>CR0_WP\<close> set) is a page fault,
  \<^term>\<open>BadAccess va\<close>, which the trap handler may repair.
\<close>

section \<open>User memory\<close>

definition user_byte :: "addr \<Rightarrow> addr \<Rightarrow> 'a kmem_state_scheme \<Rightarrow> u8 result" where
  "user_byte pgdir va s =
     (let pte = pte_of s pgdir va
      in if pte AND PTE_P = 0 then Inl (BadAccess va)
         else Inr (mem s (P2V (PTE_ADDR pte) + va mod PGSIZE)))"

primrec user_bytes :: "addr \<Rightarrow> addr \<Rightarrow> nat \<Rightarrow> 'a kmem_state_scheme \<Rightarrow> u8 list result" where
  "user_bytes pgdir va 0 s = Inr []"
| "user_bytes pgdir va (Suc n) s =
     andthen (user_byte pgdir va s) (\<lambda>c.
     andthen (user_bytes pgdir (va + 1) n s) (\<lambda>cs. Inr (c # cs)))"

primrec user_store :: "addr \<Rightarrow> addr \<Rightarrow> u8 list \<Rightarrow> 'a kmem_state_scheme \<Rightarrow> 'a kmem_state_scheme result" where
  "user_store pgdir va [] s = Inr s"
| "user_store pgdir va (c # cs) s =
     (let pte = pte_of s pgdir va
      in if pte AND PTE_P = 0 \<or> pte AND PTE_W = 0 then Inl (BadAccess va)
         else user_store pgdir (va + 1) cs
                (s\<lparr>mem := (mem s)(P2V (PTE_ADDR pte) + va mod PGSIZE := c)\<rparr>))"

definition word_bytes :: "u32 \<Rightarrow> u8 list" where
  "word_bytes w = [ucast w, ucast (drop_bit 8 w), ucast (drop_bit 16 w), ucast (drop_bit 24 w)]"

definition bytes_word :: "u8 list \<Rightarrow> u32" where
  "bytes_word bs = ucast (bs ! 0) OR push_bit 8 (ucast (bs ! 1)) OR push_bit 16 (ucast (bs ! 2))
     OR push_bit 24 (ucast (bs ! 3))"

section \<open>The trap frame\<close>

definition tf_get :: "u32 \<Rightarrow> nat \<Rightarrow> 'a ptable_state_scheme \<Rightarrow> u32" where
  "tf_get off p s = load32 (mem s) (ptf (ptable s p) + off)"

definition tf_set :: "u32 \<Rightarrow> u32 \<Rightarrow> nat \<Rightarrow> 'a ptable_state_scheme \<Rightarrow> 'a ptable_state_scheme" where
  "tf_set off v p s = s\<lparr>mem := store32 (ptf (ptable s p) + off) v (mem s)\<rparr>"

abbreviation (input) TF_EAX :: u32 where "TF_EAX \<equiv> 28"
abbreviation (input) TF_ES :: u32 where "TF_ES \<equiv> 40"
abbreviation (input) TF_DS :: u32 where "TF_DS \<equiv> 44"
abbreviation (input) TF_EIP :: u32 where "TF_EIP \<equiv> 56"
abbreviation (input) TF_CS :: u32 where "TF_CS \<equiv> 60"
abbreviation (input) TF_EFLAGS :: u32 where "TF_EFLAGS \<equiv> 64"
abbreviation (input) TF_ESP :: u32 where "TF_ESP \<equiv> 68"
abbreviation (input) TF_SS :: u32 where "TF_SS \<equiv> 72"

section \<open>Arguments\<close>

definition fetchint :: "nat \<Rightarrow> addr \<Rightarrow> 'a ptable_state_scheme \<Rightarrow> u32 option result" where
  "fetchint me a s =
     (let p = ptable s me
      in if a \<ge> psz p \<or> a + 4 > psz p then Inr None
         else andthen (user_bytes (ppgdir p) a 4 s) (\<lambda>bs. Inr (Some (bytes_word bs))))"

primrec fetchstr_loop :: "addr \<Rightarrow> addr \<Rightarrow> nat \<Rightarrow> 'a kmem_state_scheme \<Rightarrow> u8 list option result" where
  "fetchstr_loop pgdir a 0 s = Inr None"
| "fetchstr_loop pgdir a (Suc n) s =
     andthen (user_byte pgdir a s) (\<lambda>c.
       if c = 0 then Inr (Some [])
       else andthen (fetchstr_loop pgdir (a + 1) n s) (\<lambda>r. Inr (map_option ((#) c) r)))"

definition fetchstr :: "nat \<Rightarrow> addr \<Rightarrow> 'a ptable_state_scheme \<Rightarrow> u8 list option result" where
  "fetchstr me a s =
     (let p = ptable s me
      in if a \<ge> psz p then Inr None
         else fetchstr_loop (ppgdir p) a (unat (psz p - a)) s)"

definition argint :: "nat \<Rightarrow> u32 \<Rightarrow> 'a ptable_state_scheme \<Rightarrow> u32 option result" where
  "argint me n s = fetchint me (tf_get TF_ESP me s + 4 + 4 * n) s"

definition argptr :: "nat \<Rightarrow> u32 \<Rightarrow> u32 \<Rightarrow> 'a ptable_state_scheme \<Rightarrow> addr option result" where
  "argptr me n sz s =
     andthen (argint me n s) (\<lambda>r.
       case r of
         None \<Rightarrow> Inr None
       | Some i \<Rightarrow>
           if sz <s 0 \<or> i \<ge> psz (ptable s me) \<or> i + sz > psz (ptable s me) then Inr None
           else Inr (Some i))"

definition argstr :: "nat \<Rightarrow> u32 \<Rightarrow> 'a ptable_state_scheme \<Rightarrow> u8 list option result" where
  "argstr me n s =
     andthen (argint me n s) (\<lambda>r.
       case r of None \<Rightarrow> Inr None | Some a \<Rightarrow> fetchstr me a s)"

text \<open>Sequencing of arguments: the call returns \<open>-1\<close> where one cannot be fetched.\<close>

definition with_arg ::
  "'b option result \<Rightarrow> 's \<Rightarrow> ('b \<Rightarrow> (u32 \<times> 's) result) \<Rightarrow> (u32 \<times> 's) result" where
  "with_arg m s f = andthen m (\<lambda>r. case r of None \<Rightarrow> Inr (- 1, s) | Some x \<Rightarrow> f x)"

end
