(* ===== verification/Wmap.thy ===== *)
theory Wmap
  imports Args
begin

text \<open>
  Memory mappings: \<^verbatim>\<open>wmap\<close>, \<^verbatim>\<open>wunmap\<close>, \<^verbatim>\<open>va2pa\<close> and \<^verbatim>\<open>getwmapinfo\<close> with their helpers, from \<^verbatim>\<open>sysproc.c\<close> and
  \<^verbatim>\<open>proc.c\<close>. \<^verbatim>\<open>FAILED\<close> is \<open>-1\<close>. Diagnostics printed with \<^verbatim>\<open>cprintf\<close> are left out.
\<close>

section \<open>Choosing an address\<close>

abbreviation (input) MAP_SHARED :: u32 where "MAP_SHARED \<equiv> 2"
abbreviation (input) MAP_ANONYMOUS :: u32 where "MAP_ANONYMOUS \<equiv> 4"
abbreviation (input) MAP_FIXED :: u32 where "MAP_FIXED \<equiv> 8"
abbreviation (input) WMAP_START :: u32 where "WMAP_START \<equiv> 0x60000000"
abbreviation (input) WMAP_LIMIT :: u32 where "WMAP_LIMIT \<equiv> 0x80000000"

definition overlaps :: "(nat \<Rightarrow> mmap_region) \<Rightarrow> addr \<Rightarrow> u32 \<Rightarrow> nat \<Rightarrow> bool" where
  "overlaps maps a len i \<longleftrightarrow>
     r_used (maps i) \<and> a < r_addr (maps i) + r_length (maps i) \<and> a + len > r_addr (maps i)"

definition check_fixed :: "proc \<Rightarrow> addr \<Rightarrow> u32 \<Rightarrow> u32" where
  "check_fixed p a len =
     (if a = 0 \<or> a mod PGSIZE \<noteq> 0 then - 1
      else if a < WMAP_START \<or> a + len > WMAP_LIMIT then - 1
      else if \<exists>i \<in> set [0..<MAX_MMAPS]. overlaps (pmmap p) a len i then - 1
      else 1)"

function find_free_mmap_loop :: "(nat \<Rightarrow> mmap_region) \<Rightarrow> u32 \<Rightarrow> addr \<Rightarrow> addr" where
  "find_free_mmap_loop maps len a =
     (if a + len \<le> WMAP_LIMIT then
        (if \<exists>i \<in> set [0..<MAX_MMAPS]. r_used (maps i) \<and>
              \<not> (a + len \<le> r_addr (maps i) \<or> a \<ge> r_addr (maps i) + r_length (maps i))
         then find_free_mmap_loop maps len (a + PGSIZE)
         else a)
      else 0)"
  by pat_completeness auto
termination
proof (relation "measure (\<lambda>(maps, len, a). 0x80001000 - unat (a + len))", goal_cases)
  case (2 maps len a)
  then have "unat (a + len) \<le> 0x80000000"
    by (simp add: word_le_nat_alt)
  moreover from this have "unat (a + len + 4096) = unat (a + len) + 4096"
    by (subst unat_add_lem [THEN iffD1]) simp_all
  moreover have "a + 4096 + len = a + len + 4096"
    by (simp add: algebra_simps)
  ultimately show ?case
    by (simp only: in_measure prod.case)
qed simp

declare find_free_mmap_loop.simps [simp del]

definition find_free_mmap_space :: "proc \<Rightarrow> u32 \<Rightarrow> addr" where
  "find_free_mmap_space p len = find_free_mmap_loop (pmmap p) len WMAP_START"

definition suggestive_address :: "proc \<Rightarrow> addr \<Rightarrow> u32 \<Rightarrow> addr" where
  "suggestive_address p a len =
     (if a mod PGSIZE \<noteq> 0 \<or> a < WMAP_START \<or> a + len > WMAP_LIMIT then find_free_mmap_space p len
      else if \<exists>i \<in> set [0..<MAX_MMAPS]. overlaps (pmmap p) a len i then find_free_mmap_space p len
      else a)"

section \<open>Mapping\<close>

definition upd_region ::
  "nat \<Rightarrow> nat \<Rightarrow> (mmap_region \<Rightarrow> mmap_region) \<Rightarrow> 'a ptable_state_scheme \<Rightarrow> 'a ptable_state_scheme" where
  "upd_region me i f s = upd_proc me (\<lambda>p. p\<lparr>pmmap := (pmmap p)(i := f (pmmap p i))\<rparr>) s"

text \<open>The descriptor is used as an index into \<^verbatim>\<open>ofile\<close> without a test of its range.\<close>

definition ofile_at :: "nat \<Rightarrow> u32 \<Rightarrow> 'a ptable_state_scheme \<Rightarrow> nat option result" where
  "ofile_at me fd s =
     (if unat fd \<ge> NOFILE then Inl (BadAccess fd) else Inr (pofile (ptable s me) (unat fd)))"

definition wmap_file ::
  "nat \<Rightarrow> nat \<Rightarrow> u32 \<Rightarrow> addr \<Rightarrow> 'a file_state_scheme \<Rightarrow> (u32 \<times> 'a file_state_scheme) result" where
  "wmap_file me i fd a s =
     andthen (ofile_at me fd s) (\<lambda>r.
       case r of
         None \<Rightarrow> Inr (- 1, s)
       | Some f \<Rightarrow>
           andthen (filedup f s) (\<lambda>s.
             case find (\<lambda>j. pofile (ptable s me) j = None) [0..<NOFILE] of
               None \<Rightarrow> Inr (- 1, s)
             | Some j \<Rightarrow>
                 andthen (filedup f s) (\<lambda>s.
                   let s = upd_proc me (\<lambda>p. p\<lparr>pofile := (pofile p)(j := Some f)\<rparr>) s
                   in Inr (a, upd_region me i (\<lambda>r. r\<lparr>r_fd := of_nat j\<rparr>) s))))"

definition wmap_insert ::
  "nat \<Rightarrow> addr \<Rightarrow> u32 \<Rightarrow> u32 \<Rightarrow> u32 \<Rightarrow> 'a file_state_scheme \<Rightarrow> (u32 \<times> 'a file_state_scheme) result" where
  "wmap_insert me a len flags fd s =
     (case find (\<lambda>i. \<not> r_used (pmmap (ptable s me) i)) [0..<MAX_MMAPS] of
        None \<Rightarrow> Inr (- 1, s)
      | Some i \<Rightarrow>
          let s = upd_region me i (\<lambda>r. r\<lparr>r_addr := a, r_length := len, r_flags := flags, r_fd := fd,
                                        r_used := True\<rparr>) s;
              s = upd_proc me (\<lambda>p. p\<lparr>ptotal_mmaps := ptotal_mmaps p + 1\<rparr>) s
          in if flags AND MAP_ANONYMOUS = 0 then wmap_file me i fd a s else Inr (a, s))"

text \<open>
  The checks of \<^verbatim>\<open>wmap\<close> after its arguments are fetched. \<^verbatim>\<open>MAP_FIXED\<close> is mandatory, so the branches for
  a free or a suggested address are not reached.
\<close>

definition wmap_checked ::
  "nat \<Rightarrow> addr \<Rightarrow> u32 \<Rightarrow> u32 \<Rightarrow> u32 \<Rightarrow> 'a file_state_scheme \<Rightarrow> (u32 \<times> 'a file_state_scheme) result" where
  "wmap_checked me a len flags fd s =
     (let p = ptable s me
      in if len \<le>s 0 \<or> a mod PGSIZE \<noteq> 0 then Inr (- 1, s)
         else if flags AND MAP_SHARED = 0 then Inr (- 1, s)
         else if flags AND MAP_FIXED = 0 then Inr (- 1, s)
         else if flags AND MAP_FIXED \<noteq> 0 then
           (if check_fixed p a len = - 1 then Inr (- 1, s) else wmap_insert me a len flags fd s)
         else if a = 0 then
           (let a = find_free_mmap_space p len
            in if a = 0 then Inr (- 1, s) else wmap_insert me a len flags fd s)
         else
           (let a = suggestive_address p a len
            in if a = 0 then Inr (- 1, s) else wmap_insert me a len flags fd s))"

definition wmap :: "nat \<Rightarrow> 'a file_state_scheme \<Rightarrow> (u32 \<times> 'a file_state_scheme) result" where
  "wmap me s =
     with_arg (argint me 0 s) s (\<lambda>a.
     with_arg (argint me 1 s) s (\<lambda>len.
     with_arg (argint me 2 s) s (\<lambda>flags.
     with_arg (argint me 3 s) s (\<lambda>fd.
       wmap_checked me a len flags fd s))))"

section \<open>Unmapping\<close>

definition wunmap_writeback ::
  "nat \<Rightarrow> mmap_region \<Rightarrow> addr \<Rightarrow> addr \<Rightarrow> 'a file_state_scheme \<Rightarrow> 'a file_state_scheme result" where
  "wunmap_writeback me r a pa s =
     (if r_flags r AND MAP_ANONYMOUS = 0 then
        andthen (ofile_at me (r_fd r) s) (\<lambda>fo.
          case fo of
            None \<Rightarrow> Inr s
          | Some f \<Rightarrow>
              let s = upd_file f (\<lambda>x. x\<lparr>foff := a - r_addr r\<rparr>) s
              in andthen (filewrite me f (get_bytes (mem s) (P2V pa) 4096) PGSIZE s) (\<lambda>(w, _, s).
                   case w of Done _ \<Rightarrow> Inr s | Block ch \<Rightarrow> Inl (Sleep ch)))
      else Inr s)"

definition wunmap_body ::
  "nat \<Rightarrow> nat \<Rightarrow> addr \<Rightarrow> 'a file_state_scheme \<Rightarrow> (unit, 'a file_state_scheme) flow result" where
  "wunmap_body me i a s =
     (let pte = fst (walkpgdir (ppgdir (ptable s me)) a False s)
      in if pte \<noteq> 0 \<and> load32 (mem s) pte AND PTE_P \<noteq> 0 then
           let pa = PTE_ADDR (load32 (mem s) pte)
           in andthen (wunmap_writeback me (pmmap (ptable s me) i) a pa s) (\<lambda>s.
              andthen (kfree (P2V pa) s) (\<lambda>s.
                Inr (Next (s\<lparr>mem := store32 pte 0 (mem s)\<rparr>))))
         else Inr (Next s))"

definition find_region :: "proc \<Rightarrow> addr \<Rightarrow> nat option" where
  "find_region p a =
     find (\<lambda>i. r_used (pmmap p i) \<and> a \<ge> r_addr (pmmap p i) \<and> a < r_addr (pmmap p i) + r_length (pmmap p i))
       [0..<MAX_MMAPS]"

definition wunmap :: "nat \<Rightarrow> addr \<Rightarrow> 'a file_state_scheme \<Rightarrow> (u32 \<times> 'a file_state_scheme) result" where
  "wunmap me a s =
     (case find_region (ptable s me) a of
        None \<Rightarrow> Inr (- 1, s)
      | Some i \<Rightarrow>
          let r = pmmap (ptable s me) i
          in andthen (page_loop (wunmap_body me i) (PGROUNDDOWN (r_addr r)) (r_addr r + r_length r) s) (\<lambda>fl.
               let s = (case fl of Next s \<Rightarrow> s | Leave _ s \<Rightarrow> s);
                   s = upd_region me i (\<lambda>r. r\<lparr>r_used := False, r_loaded := 0\<rparr>) s
               in Inr (0, upd_proc me (\<lambda>p. p\<lparr>ptotal_mmaps := ptotal_mmaps p - 1\<rparr>) s)))"

definition sys_wunmap :: "nat \<Rightarrow> 'a file_state_scheme \<Rightarrow> (u32 \<times> 'a file_state_scheme) result" where
  "sys_wunmap me s =
     with_arg (argint me 0 s) s (\<lambda>a.
       if a < WMAP_START \<or> a \<ge> WMAP_LIMIT then Inr (- 1, s) else wunmap me a s)"

section \<open>Queries\<close>

definition va2pa :: "nat \<Rightarrow> 'a ptable_state_scheme \<Rightarrow> (u32 \<times> 'a ptable_state_scheme) result" where
  "va2pa me s =
     with_arg (argint me 0 s) s (\<lambda>va.
       let page_offset = va AND 0xFFF;
           page_base = PGROUNDDOWN va;
           pte = fst (walkpgdir (ppgdir (ptable s me)) page_base False s)
       in if pte = 0 \<or> load32 (mem s) pte AND PTE_P = 0 then Inr (- 1, s)
          else Inr (PTE_ADDR (load32 (mem s) pte) + page_offset, s))"

text \<open>\<^verbatim>\<open>getwmapinfo\<close> tests room for a pointer (4 bytes) and writes a \<^verbatim>\<open>struct wmapinfo\<close> (196 bytes).\<close>

primrec getwmapinfo_loop :: "nat list \<Rightarrow> nat \<Rightarrow> addr \<Rightarrow> 'a ptable_state_scheme \<Rightarrow> 'a ptable_state_scheme result" where
  "getwmapinfo_loop [] me info s = Inr s"
| "getwmapinfo_loop (i # is) me info s =
     (let r = pmmap (ptable s me) i;
          pg = ppgdir (ptable s me)
      in if r_used r then
           andthen (user_store pg (info + 4 + 4 * of_nat i) (word_bytes (r_addr r)) s) (\<lambda>s.
           andthen (user_store pg (info + 68 + 4 * of_nat i) (word_bytes (r_length r)) s) (\<lambda>s.
           andthen (user_store pg (info + 132 + 4 * of_nat i) (word_bytes (r_loaded r)) s) (\<lambda>s.
             getwmapinfo_loop is me info s)))
         else getwmapinfo_loop is me info s)"

definition getwmapinfo :: "nat \<Rightarrow> 'a ptable_state_scheme \<Rightarrow> (u32 \<times> 'a ptable_state_scheme) result" where
  "getwmapinfo me s =
     with_arg (argptr me 0 4 s) s (\<lambda>info.
       andthen (getwmapinfo_loop [0..<16] me info s) (\<lambda>s.
       andthen (user_store (ppgdir (ptable s me)) info (word_bytes (ptotal_mmaps (ptable s me))) s) (\<lambda>s.
         Inr (0, s))))"

end
