(* ===== verification/Proc.thy ===== *)
theory Proc
  imports Wmap
begin

text \<open>
  Creating and ending processes: \<^verbatim>\<open>userinit\<close>, \<^verbatim>\<open>fork\<close>, \<^verbatim>\<open>forkret\<close> and \<^verbatim>\<open>exit\<close> of \<^verbatim>\<open>proc.c\<close>. \<open>c\<close> is the CPU the
  caller runs on and \<open>me\<close> the caller.
\<close>

section \<open>The first process\<close>

text \<open>
  \<open>initcode\<close> and \<open>initcode_size\<close> are the linker symbols of the embedded program; a failed
  \<^verbatim>\<open>allocproc\<close> is not tested for.
\<close>

definition userinit :: "addr \<Rightarrow> u32 \<Rightarrow> 'a file_state_scheme \<Rightarrow> 'a file_state_scheme result" where
  "userinit initcode initcode_size s =
     (let (np, s) = allocproc s;
          s = s\<lparr>initproc := np\<rparr>
      in case np of
           None \<Rightarrow> Inl (BadAccess 0)
         | Some p \<Rightarrow>
             andthen (setupkvm s) (\<lambda>(pg, s).
               let s = upd_proc p (\<lambda>q. q\<lparr>ppgdir := pg\<rparr>) s
               in if pg = 0 then Inl (Panic ''userinit: out of memory?'')
                  else
                    andthen (inituvm pg initcode initcode_size s) (\<lambda>s.
                      let s = upd_proc p (\<lambda>q. q\<lparr>psz := PGSIZE\<rparr>) s;
                          s = s\<lparr>mem := memset (ptf (ptable s p)) 0 76 (mem s)\<rparr>;
                          s = s\<lparr>mem := store16 (ptf (ptable s p) + TF_CS) 0x1b (mem s)\<rparr>;
                          s = s\<lparr>mem := store16 (ptf (ptable s p) + TF_DS) 0x23 (mem s)\<rparr>;
                          s = s\<lparr>mem := store16 (ptf (ptable s p) + TF_ES) 0x23 (mem s)\<rparr>;
                          s = s\<lparr>mem := store16 (ptf (ptable s p) + TF_SS) 0x23 (mem s)\<rparr>;
                          s = tf_set TF_EFLAGS 0x200 p s;
                          s = tf_set TF_ESP PGSIZE p s;
                          s = tf_set TF_EIP 0 p s;
                          s = upd_proc p (\<lambda>q. q\<lparr>pname := [0x69, 0x6e, 0x69, 0x74, 0x63, 0x6f, 0x64, 0x65]\<rparr>) s
                      in andthen (namei p [0x2f] s) (\<lambda>(ip, s).
                           let s = upd_proc p (\<lambda>q. q\<lparr>pcwd := ip\<rparr>) s
                           in Inr (set_state p RUNNABLE s)))))"

text \<open>The first run of \<^verbatim>\<open>forkret\<close> (\<open>first\<close>) reads the superblock and recovers the log.\<close>

definition forkret :: "nat \<Rightarrow> nat \<Rightarrow> bool \<Rightarrow> 'a fs_state_scheme \<Rightarrow> 'a fs_state_scheme result" where
  "forkret c me first s =
     andthen (unlock_ptable c s) (\<lambda>s.
       if first then andthen (iinit me 1 s) (initlog me 1) else Inr s)"

section \<open>Fork\<close>

definition fork_regions :: "proc \<Rightarrow> proc \<Rightarrow> proc" where
  "fork_regions parent q =
     q\<lparr>pmmap := (\<lambda>i. if i < MAX_MMAPS \<and> r_used (pmmap parent i) then pmmap parent i else pmmap q i)\<rparr>"

definition fork_file :: "nat \<Rightarrow> nat \<Rightarrow> nat \<Rightarrow> 'a file_state_scheme \<Rightarrow> 'a file_state_scheme result" where
  "fork_file me np fd s =
     (case pofile (ptable s me) fd of
        None \<Rightarrow> Inr s
      | Some f \<Rightarrow>
          andthen (filedup f s) (\<lambda>s.
            Inr (upd_proc np (\<lambda>q. q\<lparr>pofile := (pofile q)(fd := Some f)\<rparr>) s)))"

text \<open>\<^verbatim>\<open>fork\<close> reads through the result of \<^verbatim>\<open>walkpgdir\<close> without a test for the null pointer.\<close>

definition fork_share_page ::
  "nat \<Rightarrow> nat \<Rightarrow> addr \<Rightarrow> 'a file_state_scheme \<Rightarrow> (unit, 'a file_state_scheme) flow result" where
  "fork_share_page me np a s =
     (let pte = fst (walkpgdir (ppgdir (ptable s me)) a False s)
      in if pte = 0 then Inl (BadAccess 0)
         else
           let pa = PTE_ADDR (load32 (mem s) pte);
               flags = PTE_FLAGS (load32 (mem s) pte);
               flags = (if flags AND PTE_COW \<noteq> 0 then flags AND NOT PTE_COW else flags)
           in andthen (mappages (ppgdir (ptable s np)) a PGSIZE pa flags s) (\<lambda>(r, s).
                if r <s 0 then Inr (Next s)
                else andthen (incref pa s) (\<lambda>s. Inr (Next s))))"

definition fork_share :: "nat \<Rightarrow> nat \<Rightarrow> nat \<Rightarrow> 'a file_state_scheme \<Rightarrow> 'a file_state_scheme result" where
  "fork_share me np i s =
     (let r = pmmap (ptable s me) i
      in if r_flags r AND MAP_SHARED \<noteq> 0 then
           andthen (page_loop (fork_share_page me np) (r_addr r) (r_addr r + r_length r) s) (\<lambda>fl.
             Inr (flow_state fl))
         else Inr s)"

definition fork :: "nat \<Rightarrow> 'a file_state_scheme \<Rightarrow> (u32 \<times> 'a file_state_scheme) result" where
  "fork me s =
     (let (r, s) = allocproc s
      in case r of
           None \<Rightarrow> Inr (- 1, s)
         | Some np \<Rightarrow>
             andthen (copyuvm (ppgdir (ptable s me)) (psz (ptable s me)) s) (\<lambda>(pg, s).
               let s = upd_proc np (\<lambda>q. q\<lparr>ppgdir := pg\<rparr>) s
               in if pg = 0 then
                    andthen (kfree (pkstack (ptable s np)) s) (\<lambda>s.
                      Inr (- 1, upd_proc np (\<lambda>q. q\<lparr>pkstack := 0, pstate := UNUSED\<rparr>) s))
                  else
                    let s = upd_proc np (\<lambda>q. q\<lparr>psz := psz (ptable s me), pparent := Some me\<rparr>) s;
                        s = s\<lparr>mem := memmove (ptf (ptable s np)) (ptf (ptable s me)) 76 (mem s)\<rparr>;
                        s = upd_proc np (\<lambda>q. q\<lparr>ptotal_mmaps := ptotal_mmaps (ptable s me)\<rparr>) s;
                        s = upd_proc np (fork_regions (ptable s me)) s;
                        s = upd_proc np (\<lambda>q. q\<lparr>pwmap := pwmap (ptable s me)\<rparr>) s;
                        s = tf_set TF_EAX 0 np s
                    in andthen (iterate (fork_file me np) [0..<NOFILE] s) (\<lambda>s.
                       case pcwd (ptable s me) of
                         None \<Rightarrow> Inl (BadAccess 0)
                       | Some cwd \<Rightarrow>
                           let (ip, s) = idup cwd s;
                               s = upd_proc np (\<lambda>q. q\<lparr>pcwd := Some ip\<rparr>) s
                           in andthen (iterate (fork_share me np) [0..<MAX_MMAPS] s) (\<lambda>s.
                                let s = upd_proc np (\<lambda>q. q\<lparr>pname := take 15 (pname (ptable s me))\<rparr>) s;
                                    k = pid (ptable s np);
                                    s = set_state np RUNNABLE s
                                in Inr (k, lcr3 (V2P (ppgdir (ptable s np))) s)))))"

section \<open>Exit\<close>

definition exit_file :: "nat \<Rightarrow> nat \<Rightarrow> 'a file_state_scheme \<Rightarrow> 'a file_state_scheme result" where
  "exit_file me fd s =
     (case pofile (ptable s me) fd of
        None \<Rightarrow> Inr s
      | Some f \<Rightarrow>
          andthen (fileclose me f s) (\<lambda>s.
            Inr (upd_proc me (\<lambda>q. q\<lparr>pofile := (pofile q)(fd := None)\<rparr>) s)))"

definition exit_region :: "nat \<Rightarrow> nat \<Rightarrow> 'a file_state_scheme \<Rightarrow> 'a file_state_scheme result" where
  "exit_region me i s =
     (let pte = fst (walkpgdir (ppgdir (ptable s me)) (r_addr (pmmap (ptable s me) i)) False s)
      in if pte = 0 \<or> load32 (mem s) pte AND PTE_P = 0 then Inr s
         else
           let pa = PTE_ADDR (load32 (mem s) pte)
           in if load32 (mem s) pte AND PTE_COW \<noteq> 0 \<and> ref_counts s (pa div PGSIZE) \<le> 1
              then andthen (wunmap me (P2V pa) s) (\<lambda>(_, s). Inr s)
              else Inr s)"

text \<open>\<open>exit_proc\<close> runs to the switch from which the process does not come back.\<close>

definition exit_proc :: "nat \<Rightarrow> nat \<Rightarrow> 'a file_state_scheme \<Rightarrow> 'a file_state_scheme result" where
  "exit_proc c me s =
     (if initproc s = Some me then Inl (Panic ''init exiting'')
      else
        andthen (iterate (exit_file me) [0..<NOFILE] s) (\<lambda>s.
        andthen (iterate (exit_region me) [0..<MAX_MMAPS] s) (\<lambda>s.
        andthen (begin_op s) (\<lambda>s.
          case pcwd (ptable s me) of
            None \<Rightarrow> Inl (BadAccess 0)
          | Some cwd \<Rightarrow>
              andthen (iput me cwd s) (\<lambda>s.
              andthen (end_op me s) (\<lambda>s.
                let s = upd_proc me (\<lambda>q. q\<lparr>pcwd := None\<rparr>) s
                in andthen (exit_switch c me s) (\<lambda>(_, s). Inr s)))))))"

end
