(* ===== verification/Exec.thy ===== *)
theory Exec
  imports Proc
begin

text \<open>
  Running a program: \<^verbatim>\<open>exec.c\<close>, with \<^verbatim>\<open>loaduvm\<close> of \<^verbatim>\<open>vm.c\<close>. The argument strings are given by their
  contents, up to the null pointer that ends \<^verbatim>\<open>argv\<close>.
\<close>

section \<open>ELF headers\<close>

record elfhdr =
  elf_magic :: u32
  elf_entry :: u32
  elf_phoff :: u32
  elf_phnum :: u16

record proghdr =
  ph_type :: u32
  ph_off :: u32
  ph_vaddr :: u32
  ph_filesz :: u32
  ph_memsz :: u32
  ph_flags :: u32

definition word_at :: "u8 list \<Rightarrow> nat \<Rightarrow> u32" where
  "word_at bs i = bytes_word (drop i bs)"

definition elf_of :: "u8 list \<Rightarrow> elfhdr" where
  "elf_of bs = \<lparr>elf_magic = word_at bs 0, elf_entry = word_at bs 24, elf_phoff = word_at bs 28,
     elf_phnum = ucast (bs ! 44) OR push_bit 8 (ucast (bs ! 45))\<rparr>"

definition ph_of :: "u8 list \<Rightarrow> proghdr" where
  "ph_of bs = \<lparr>ph_type = word_at bs 0, ph_off = word_at bs 4, ph_vaddr = word_at bs 8,
     ph_filesz = word_at bs 16, ph_memsz = word_at bs 20, ph_flags = word_at bs 24\<rparr>"

abbreviation (input) ELF_MAGIC :: u32 where "ELF_MAGIC \<equiv> 0x464C457F"
abbreviation (input) ELF_PROG_LOAD :: u32 where "ELF_PROG_LOAD \<equiv> 1"
abbreviation (input) ELF_PROG_FLAG_WRITE :: u32 where "ELF_PROG_FLAG_WRITE \<equiv> 2"
abbreviation (input) MAXARG :: nat where "MAXARG \<equiv> 32"

section \<open>Loading\<close>

definition loaduvm_body ::
  "nat \<Rightarrow> addr \<Rightarrow> addr \<Rightarrow> nat \<Rightarrow> u32 \<Rightarrow> u32 \<Rightarrow> u32 \<Rightarrow> addr \<Rightarrow> 'a cons_state_scheme
    \<Rightarrow> (u32, 'a cons_state_scheme) flow result" where
  "loaduvm_body me pgdir a ip offset sz flags i s =
     (let pte = fst (walkpgdir pgdir (a + i) False s)
      in if pte = 0 then Inl (Panic ''loaduvm: address should exist'')
         else
           let pa = PTE_ADDR (load32 (mem s) pte);
               n = (if sz - i < PGSIZE then sz - i else PGSIZE)
           in andthen (readi me ip (offset + i) n s) (\<lambda>(r, bytes, s).
                let s = s\<lparr>mem := put_bytes (P2V pa) bytes (mem s)\<rparr>
                in if r \<noteq> n then Inr (Leave (- 1) s)
                   else
                     let old = load32 (mem s) pte;
                         v = (if flags AND ELF_PROG_FLAG_WRITE \<noteq> 0 then old OR ELF_PROG_FLAG_WRITE
                              else old AND NOT ELF_PROG_FLAG_WRITE)
                     in Inr (Next (s\<lparr>mem := store32 pte v (mem s)\<rparr>))))"

definition loaduvm ::
  "nat \<Rightarrow> addr \<Rightarrow> addr \<Rightarrow> nat \<Rightarrow> u32 \<Rightarrow> u32 \<Rightarrow> u32 \<Rightarrow> 'a cons_state_scheme
    \<Rightarrow> (u32 \<times> 'a cons_state_scheme) result" where
  "loaduvm me pgdir a ip offset sz flags s =
     (if a mod PGSIZE \<noteq> 0 then Inl (Panic ''loaduvm: addr must be page aligned'')
      else
        andthen (page_loop (loaduvm_body me pgdir a ip offset sz flags) 0 sz s) (\<lambda>fl.
          case fl of Next s \<Rightarrow> Inr (0, s) | Leave r s \<Rightarrow> Inr (r, s)))"

section \<open>Exec\<close>

definition exec_bad ::
  "nat \<Rightarrow> addr \<Rightarrow> nat option \<Rightarrow> 'a file_state_scheme \<Rightarrow> (u32 \<times> 'a file_state_scheme) result" where
  "exec_bad me pgdir ip s =
     andthen (if pgdir \<noteq> 0 then freevm pgdir s else Inr s) (\<lambda>s.
       case ip of
         None \<Rightarrow> Inr (- 1, s)
       | Some ip \<Rightarrow>
           andthen (iunlockput me ip s) (\<lambda>s.
           andthen (end_op me s) (\<lambda>s. Inr (- 1, s))))"

text \<open>One program header; \<open>Leave\<close> is the jump to \<^verbatim>\<open>bad\<close>.\<close>

definition exec_segment ::
  "nat \<Rightarrow> addr \<Rightarrow> nat \<Rightarrow> u32 \<Rightarrow> nat \<Rightarrow> u32 \<times> 'a file_state_scheme
    \<Rightarrow> (unit, u32 \<times> 'a file_state_scheme) flow result" where
  "exec_segment me pgdir ip phoff i = (\<lambda>(sz, s).
     andthen (readi me ip (phoff + 32 * of_nat i) 32 s) (\<lambda>(r, bytes, s).
       if r \<noteq> 32 then Inr (Leave () (sz, s))
       else
         let ph = ph_of bytes
         in if ph_type ph \<noteq> ELF_PROG_LOAD then Inr (Next (sz, s))
            else if ph_memsz ph < ph_filesz ph then Inr (Leave () (sz, s))
            else if ph_vaddr ph + ph_memsz ph < ph_vaddr ph then Inr (Leave () (sz, s))
            else
              andthen (allocuvm pgdir sz (ph_vaddr ph + ph_memsz ph) s) (\<lambda>(sz, s).
                if sz = 0 then Inr (Leave () (sz, s))
                else if ph_vaddr ph mod PGSIZE \<noteq> 0 then Inr (Leave () (sz, s))
                else
                  andthen (loaduvm me pgdir (ph_vaddr ph) ip (ph_off ph) (ph_filesz ph) (ph_flags ph) s) (\<lambda>(r, s).
                    if r <s 0 then Inr (Leave () (sz, s)) else Inr (Next (sz, s))))))"

text \<open>The argument strings; the result is \<open>None\<close> for the jump to \<^verbatim>\<open>bad\<close>.\<close>

fun exec_args ::
  "addr \<Rightarrow> u8 list list \<Rightarrow> nat \<Rightarrow> addr \<Rightarrow> u32 list \<Rightarrow> 'a kmem_state_scheme
    \<Rightarrow> ((addr \<times> u32 list) option \<times> 'a kmem_state_scheme) result" where
  "exec_args pgdir [] argc sp ptrs s = Inr (Some (sp, ptrs), s)"
| "exec_args pgdir (str # argv) argc sp ptrs s =
     (if argc \<ge> MAXARG then Inr (None, s)
      else
        let sp = (sp - (of_nat (length str) + 1)) AND NOT 3
        in andthen (copyout pgdir sp (str @ [0]) s) (\<lambda>(r, s).
             if r <s 0 then Inr (None, s)
             else exec_args pgdir argv (Suc argc) sp (ptrs @ [sp]) s))"

definition last_elem :: "u8 list \<Rightarrow> u8 list" where
  "last_elem path = rev (takeWhile (\<lambda>c. c \<noteq> 0x2f) (rev path))"

definition exec_commit ::
  "nat \<Rightarrow> nat \<Rightarrow> u8 list \<Rightarrow> addr \<Rightarrow> u32 \<Rightarrow> addr \<Rightarrow> addr \<Rightarrow> 'a file_state_scheme
    \<Rightarrow> (u32 \<times> 'a file_state_scheme) result" where
  "exec_commit c me path pgdir sz entry sp s =
     (let s = upd_proc me (\<lambda>q. q\<lparr>pname := take 15 (last_elem path)\<rparr>) s;
          oldpgdir = ppgdir (ptable s me);
          s = upd_proc me (\<lambda>q. q\<lparr>ppgdir := pgdir, psz := sz\<rparr>) s;
          s = tf_set TF_EIP entry me s;
          s = tf_set TF_ESP sp me s
      in andthen (switchuvm c (ptable s me) s) (\<lambda>s.
         andthen (freevm oldpgdir s) (\<lambda>s.
           Inr (0, s))))"

definition exec_stack ::
  "nat \<Rightarrow> nat \<Rightarrow> u8 list \<Rightarrow> u8 list list \<Rightarrow> addr \<Rightarrow> u32 \<Rightarrow> addr \<Rightarrow> 'a file_state_scheme
    \<Rightarrow> (u32 \<times> 'a file_state_scheme) result" where
  "exec_stack c me path argv pgdir sz entry s =
     (let sz = PGROUNDUP sz
      in andthen (allocuvm pgdir sz (sz + 2 * PGSIZE) s) (\<lambda>(sz, s).
           if sz = 0 then exec_bad me pgdir None s
           else
             andthen (clearpteu pgdir (sz - 2 * PGSIZE) s) (\<lambda>s.
             andthen (exec_args pgdir argv 0 sz [] s) (\<lambda>(r, s).
               case r of
                 None \<Rightarrow> exec_bad me pgdir None s
               | Some (sp, ptrs) \<Rightarrow>
                   let argc = of_nat (length ptrs);
                       ustack = [0xffffffff, argc, sp - (argc + 1) * 4] @ ptrs @ [0];
                       sp = sp - (3 + argc + 1) * 4
                   in andthen (copyout pgdir sp (concat (map word_bytes ustack)) s) (\<lambda>(r, s).
                        if r <s 0 then exec_bad me pgdir None s
                        else exec_commit c me path pgdir sz entry sp s)))))"

definition exec ::
  "nat \<Rightarrow> nat \<Rightarrow> u8 list \<Rightarrow> u8 list list \<Rightarrow> 'a file_state_scheme \<Rightarrow> (u32 \<times> 'a file_state_scheme) result" where
  "exec c me path argv s =
     andthen (begin_op s) (\<lambda>s.
     andthen (namei me path s) (\<lambda>(r, s).
       case r of
         None \<Rightarrow> andthen (end_op me s) (\<lambda>s. Inr (- 1, s))
       | Some ip \<Rightarrow>
           andthen (ilock me ip s) (\<lambda>s.
           andthen (readi me ip 0 52 s) (\<lambda>(r, bytes, s).
             if r \<noteq> 52 then exec_bad me 0 (Some ip) s
             else
               let elf = elf_of bytes
               in if elf_magic elf \<noteq> ELF_MAGIC then exec_bad me 0 (Some ip) s
                  else
                    andthen (setupkvm s) (\<lambda>(pgdir, s).
                      if pgdir = 0 then exec_bad me 0 (Some ip) s
                      else
                        andthen (for_each (exec_segment me pgdir ip (elf_phoff elf))
                                   [0..<unat (elf_phnum elf)] (0, s)) (\<lambda>fl.
                          case fl of
                            Leave _ (_, s) \<Rightarrow> exec_bad me pgdir (Some ip) s
                          | Next (sz, s) \<Rightarrow>
                              andthen (iunlockput me ip s) (\<lambda>s.
                              andthen (end_op me s) (\<lambda>s.
                                exec_stack c me path argv pgdir sz (elf_entry elf) s))))))))"

end
