(* ===== verification/Sysfile.thy ===== *)
theory Sysfile
  imports Exec
begin

text \<open>
  The file system calls, \<^verbatim>\<open>sysfile.c\<close>. A path argument is fetched as its characters, a buffer argument
  as its address; data moves between user memory and the file layer as lists of bytes.
\<close>

section \<open>Descriptors\<close>

definition argfd :: "nat \<Rightarrow> u32 \<Rightarrow> 'a ptable_state_scheme \<Rightarrow> (u32 \<times> nat) option result" where
  "argfd me n s =
     andthen (argint me n s) (\<lambda>r.
       case r of
         None \<Rightarrow> Inr None
       | Some fd \<Rightarrow>
           if fd <s 0 \<or> 16 \<le>s fd then Inr None
           else case pofile (ptable s me) (unat fd) of
             None \<Rightarrow> Inr None
           | Some f \<Rightarrow> Inr (Some (fd, f)))"

definition fdalloc :: "nat \<Rightarrow> nat \<Rightarrow> 'a ptable_state_scheme \<Rightarrow> nat option \<times> 'a ptable_state_scheme" where
  "fdalloc me f s =
     (case find (\<lambda>fd. pofile (ptable s me) fd = None) [0..<NOFILE] of
        None \<Rightarrow> (None, s)
      | Some fd \<Rightarrow> (Some fd, upd_proc me (\<lambda>p. p\<lparr>pofile := (pofile p)(fd := Some f)\<rparr>) s))"

definition sys_dup :: "nat \<Rightarrow> 'a file_state_scheme \<Rightarrow> (u32 \<times> 'a file_state_scheme) result" where
  "sys_dup me s =
     with_arg (argfd me 0 s) s (\<lambda>(_, f).
       let (fd, s) = fdalloc me f s
       in case fd of
            None \<Rightarrow> Inr (- 1, s)
          | Some fd \<Rightarrow> andthen (filedup f s) (\<lambda>s. Inr (of_nat fd, s)))"

text \<open>
  \<^verbatim>\<open>read\<close> and \<^verbatim>\<open>write\<close> may sleep in a pipe; the list in the result of a sleeping \<^verbatim>\<open>write\<close> is what it has
  still to write.
\<close>

definition sys_read ::
  "nat \<Rightarrow> 'a file_state_scheme \<Rightarrow> (u32 waiting \<times> u8 list \<times> 'a file_state_scheme) result" where
  "sys_read me s =
     andthen (argfd me 0 s) (\<lambda>rf.
     andthen (argint me 2 s) (\<lambda>rn.
       case (rf, rn) of
         (Some (_, f), Some n) \<Rightarrow>
           andthen (argptr me 1 n s) (\<lambda>rp.
             case rp of
               None \<Rightarrow> Inr (Done (- 1), [], s)
             | Some p \<Rightarrow>
                 andthen (fileread me f n s) (\<lambda>(r, bytes, s).
                 andthen (user_store (ppgdir (ptable s me)) p bytes s) (\<lambda>s.
                   Inr (r, [], s))))
       | _ \<Rightarrow> Inr (Done (- 1), [], s)))"

definition sys_write ::
  "nat \<Rightarrow> 'a file_state_scheme \<Rightarrow> (u32 waiting \<times> u8 list \<times> 'a file_state_scheme) result" where
  "sys_write me s =
     andthen (argfd me 0 s) (\<lambda>rf.
     andthen (argint me 2 s) (\<lambda>rn.
       case (rf, rn) of
         (Some (_, f), Some n) \<Rightarrow>
           andthen (argptr me 1 n s) (\<lambda>rp.
             case rp of
               None \<Rightarrow> Inr (Done (- 1), [], s)
             | Some p \<Rightarrow>
                 andthen (user_bytes (ppgdir (ptable s me)) p (unat n) s) (\<lambda>bytes.
                   filewrite me f bytes n s))
       | _ \<Rightarrow> Inr (Done (- 1), [], s)))"

definition sys_close :: "nat \<Rightarrow> 'a file_state_scheme \<Rightarrow> (u32 \<times> 'a file_state_scheme) result" where
  "sys_close me s =
     with_arg (argfd me 0 s) s (\<lambda>(fd, f).
       let s = upd_proc me (\<lambda>p. p\<lparr>pofile := (pofile p)(unat fd := None)\<rparr>) s
       in andthen (fileclose me f s) (\<lambda>s. Inr (0, s)))"

text \<open>A \<^verbatim>\<open>struct stat\<close> has 20 bytes, with two bytes of padding after each \<^verbatim>\<open>short\<close>.\<close>

definition short_bytes :: "u16 \<Rightarrow> u8 list" where
  "short_bytes w = [ucast w, ucast (drop_bit 8 w)]"

definition stat_store :: "addr \<Rightarrow> addr \<Rightarrow> stat \<Rightarrow> 'a kmem_state_scheme \<Rightarrow> 'a kmem_state_scheme result" where
  "stat_store pg a st s =
     andthen (user_store pg (a + 4) (word_bytes (st_dev st)) s) (\<lambda>s.
     andthen (user_store pg (a + 8) (word_bytes (st_ino st)) s) (\<lambda>s.
     andthen (user_store pg a (short_bytes (st_type st)) s) (\<lambda>s.
     andthen (user_store pg (a + 12) (short_bytes (st_nlink st)) s) (\<lambda>s.
       user_store pg (a + 16) (word_bytes (st_size st)) s))))"

definition sys_fstat :: "nat \<Rightarrow> 'a file_state_scheme \<Rightarrow> (u32 \<times> 'a file_state_scheme) result" where
  "sys_fstat me s =
     with_arg (argfd me 0 s) s (\<lambda>(_, f).
     with_arg (argptr me 1 20 s) s (\<lambda>a.
       andthen (filestat me f s) (\<lambda>(r, st, s).
         case st of
           None \<Rightarrow> Inr (r, s)
         | Some st \<Rightarrow> andthen (stat_store (ppgdir (ptable s me)) a st s) (\<lambda>s. Inr (r, s)))))"

section \<open>Links\<close>

definition fail_op :: "nat \<Rightarrow> 'a log_state_scheme \<Rightarrow> (u32 \<times> 'a log_state_scheme) result" where
  "fail_op me s = andthen (end_op me s) (\<lambda>s. Inr (- 1, s))"

definition link_bad :: "nat \<Rightarrow> nat \<Rightarrow> 'a fs_state_scheme \<Rightarrow> (u32 \<times> 'a fs_state_scheme) result" where
  "link_bad me ip s =
     andthen (ilock me ip s) (\<lambda>s.
     andthen (iupdate me ip (upd_inode ip (\<lambda>x. x\<lparr>inlink := inlink x - 1\<rparr>) s)) (\<lambda>s.
     andthen (iunlockput me ip s) (fail_op me)))"

definition sys_link :: "nat \<Rightarrow> 'a file_state_scheme \<Rightarrow> (u32 \<times> 'a file_state_scheme) result" where
  "sys_link me s =
     with_arg (argstr me 0 s) s (\<lambda>old.
     with_arg (argstr me 1 s) s (\<lambda>new.
       andthen (begin_op s) (\<lambda>s.
       andthen (namei me old s) (\<lambda>(r, s).
         case r of
           None \<Rightarrow> fail_op me s
         | Some ip \<Rightarrow>
             andthen (ilock me ip s) (\<lambda>s.
               if itype (icache s ip) = T_DIR then andthen (iunlockput me ip s) (fail_op me)
               else
                 andthen (iupdate me ip (upd_inode ip (\<lambda>x. x\<lparr>inlink := inlink x + 1\<rparr>) s)) (\<lambda>s.
                 andthen (iunlock me ip s) (\<lambda>s.
                 andthen (nameiparent me new s) (\<lambda>(r, name, s).
                   case r of
                     None \<Rightarrow> link_bad me ip s
                   | Some dp \<Rightarrow>
                       andthen (ilock me dp s) (\<lambda>s.
                         if idev (icache s dp) \<noteq> idev (icache s ip)
                         then andthen (iunlockput me dp s) (link_bad me ip)
                         else
                           andthen (dirlink me dp name (inum (icache s ip)) s) (\<lambda>(r, s).
                             if r <s 0 then andthen (iunlockput me dp s) (link_bad me ip)
                             else
                               andthen (iunlockput me dp s) (\<lambda>s.
                               andthen (iput me ip s) (\<lambda>s.
                               andthen (end_op me s) (\<lambda>s.
                                 Inr (0, s))))))))))))))"

definition isdirempty :: "nat \<Rightarrow> nat \<Rightarrow> 'a cons_state_scheme \<Rightarrow> (bool \<times> 'a cons_state_scheme) result" where
  "isdirempty me dp s =
     andthen (dir_scan ''isdirempty: readi'' (\<lambda>de. de_inum de \<noteq> 0) me dp 32 (isize (icache s dp)) s) (\<lambda>(_, r, s).
       Inr (r = None, s))"

definition unlink_bad :: "nat \<Rightarrow> nat \<Rightarrow> 'a fs_state_scheme \<Rightarrow> (u32 \<times> 'a fs_state_scheme) result" where
  "unlink_bad me dp s = andthen (iunlockput me dp s) (fail_op me)"

definition unlink_entry ::
  "nat \<Rightarrow> nat \<Rightarrow> nat \<Rightarrow> u32 \<Rightarrow> 'a file_state_scheme \<Rightarrow> (u32 \<times> 'a file_state_scheme) result" where
  "unlink_entry me dp ip off s =
     andthen (writei me dp (replicate 16 0) off 16 s) (\<lambda>(n, s).
       if n \<noteq> 16 then Inl (Panic ''unlink: writei'')
       else
         andthen (if itype (icache s ip) = T_DIR
                  then iupdate me dp (upd_inode dp (\<lambda>x. x\<lparr>inlink := inlink x - 1\<rparr>) s)
                  else Inr s) (\<lambda>s.
         andthen (iunlockput me dp s) (\<lambda>s.
         andthen (iupdate me ip (upd_inode ip (\<lambda>x. x\<lparr>inlink := inlink x - 1\<rparr>) s)) (\<lambda>s.
         andthen (iunlockput me ip s) (\<lambda>s.
         andthen (end_op me s) (\<lambda>s.
           Inr (0, s)))))))"

definition sys_unlink :: "nat \<Rightarrow> 'a file_state_scheme \<Rightarrow> (u32 \<times> 'a file_state_scheme) result" where
  "sys_unlink me s =
     with_arg (argstr me 0 s) s (\<lambda>path.
       andthen (begin_op s) (\<lambda>s.
       andthen (nameiparent me path s) (\<lambda>(r, name, s).
         case r of
           None \<Rightarrow> fail_op me s
         | Some dp \<Rightarrow>
             andthen (ilock me dp s) (\<lambda>s.
               if namecmp name [0x2e] = 0 \<or> namecmp name [0x2e, 0x2e] = 0 then unlink_bad me dp s
               else
                 andthen (dirlookup me dp name s) (\<lambda>(r, s).
                   case r of
                     None \<Rightarrow> unlink_bad me dp s
                   | Some (ip, off) \<Rightarrow>
                       andthen (ilock me ip s) (\<lambda>s.
                         if inlink (icache s ip) <s 1 then Inl (Panic ''unlink: nlink < 1'')
                         else
                           andthen (if itype (icache s ip) = T_DIR then isdirempty me ip s else Inr (True, s)) (\<lambda>(ok, s).
                             if \<not> ok then andthen (iunlockput me ip s) (unlink_bad me dp)
                             else unlink_entry me dp ip off s)))))))"

section \<open>Creating and opening\<close>

definition create_dots :: "nat \<Rightarrow> nat \<Rightarrow> nat \<Rightarrow> 'a cons_state_scheme \<Rightarrow> 'a cons_state_scheme result" where
  "create_dots me dp ip s =
     andthen (iupdate me dp (upd_inode dp (\<lambda>x. x\<lparr>inlink := inlink x + 1\<rparr>) s)) (\<lambda>s.
     andthen (dirlink me ip [0x2e] (inum (icache s ip)) s) (\<lambda>(r, s).
       if r <s 0 then Inl (Panic ''create dots'')
       else
         andthen (dirlink me ip [0x2e, 0x2e] (inum (icache s dp)) s) (\<lambda>(r, s).
           if r <s 0 then Inl (Panic ''create dots'') else Inr s)))"

definition create ::
  "nat \<Rightarrow> u8 list \<Rightarrow> u16 \<Rightarrow> u16 \<Rightarrow> u16 \<Rightarrow> 'a cons_state_scheme \<Rightarrow> (nat option \<times> 'a cons_state_scheme) result" where
  "create me path ty major minor s =
     andthen (nameiparent me path s) (\<lambda>(r, name, s).
       case r of
         None \<Rightarrow> Inr (None, s)
       | Some dp \<Rightarrow>
           andthen (ilock me dp s) (\<lambda>s.
           andthen (dirlookup me dp name s) (\<lambda>(r, s).
             case r of
               Some (ip, _) \<Rightarrow>
                 andthen (iunlockput me dp s) (\<lambda>s.
                 andthen (ilock me ip s) (\<lambda>s.
                   if ty = T_FILE \<and> itype (icache s ip) = T_FILE then Inr (Some ip, s)
                   else andthen (iunlockput me ip s) (\<lambda>s. Inr (None, s))))
             | None \<Rightarrow>
                 andthen (ialloc me (idev (icache s dp)) ty s) (\<lambda>(ip, s).
                 andthen (ilock me ip s) (\<lambda>s.
                 andthen (iupdate me ip (upd_inode ip (\<lambda>x. x\<lparr>imajor := major, iminor := minor, inlink := 1\<rparr>) s)) (\<lambda>s.
                 andthen (if ty = T_DIR then create_dots me dp ip s else Inr s) (\<lambda>s.
                 andthen (dirlink me dp name (inum (icache s ip)) s) (\<lambda>(r, s).
                   if r <s 0 then Inl (Panic ''create: dirlink'')
                   else andthen (iunlockput me dp s) (\<lambda>s. Inr (Some ip, s))))))))))"

abbreviation (input) O_RDONLY :: u32 where "O_RDONLY \<equiv> 0"
abbreviation (input) O_WRONLY :: u32 where "O_WRONLY \<equiv> 1"
abbreviation (input) O_RDWR :: u32 where "O_RDWR \<equiv> 2"
abbreviation (input) O_CREATE :: u32 where "O_CREATE \<equiv> 0x200"

definition open_inode ::
  "nat \<Rightarrow> u8 list \<Rightarrow> u32 \<Rightarrow> 'a cons_state_scheme \<Rightarrow> (nat option \<times> 'a cons_state_scheme) result" where
  "open_inode me path omode s =
     (if omode AND O_CREATE \<noteq> 0 then create me path T_FILE 0 0 s
      else
        andthen (namei me path s) (\<lambda>(r, s).
          case r of
            None \<Rightarrow> Inr (None, s)
          | Some ip \<Rightarrow>
              andthen (ilock me ip s) (\<lambda>s.
                if itype (icache s ip) = T_DIR \<and> omode \<noteq> O_RDONLY
                then andthen (iunlockput me ip s) (\<lambda>s. Inr (None, s))
                else Inr (Some ip, s))))"

definition sys_open :: "nat \<Rightarrow> 'a file_state_scheme \<Rightarrow> (u32 \<times> 'a file_state_scheme) result" where
  "sys_open me s =
     with_arg (argstr me 0 s) s (\<lambda>path.
     with_arg (argint me 1 s) s (\<lambda>omode.
       andthen (begin_op s) (\<lambda>s.
       andthen (open_inode me path omode s) (\<lambda>(r, s).
         case r of
           None \<Rightarrow> fail_op me s
         | Some ip \<Rightarrow>
             let (fo, s) = filealloc s
             in case fo of
                  None \<Rightarrow> andthen (iunlockput me ip s) (fail_op me)
                | Some f \<Rightarrow>
                    let (fdo, s) = fdalloc me f s
                    in case fdo of
                         None \<Rightarrow>
                           andthen (fileclose me f s) (\<lambda>s.
                           andthen (iunlockput me ip s) (fail_op me))
                       | Some fd \<Rightarrow>
                           andthen (iunlock me ip s) (\<lambda>s.
                           andthen (end_op me s) (\<lambda>s.
                             Inr (of_nat fd, upd_file f (\<lambda>x. x\<lparr>ftyp := FD_INODE, fip := ip, foff := 0,
                               freadable := (omode AND O_WRONLY = 0),
                               fwritable := (omode AND O_WRONLY \<noteq> 0 \<or> omode AND O_RDWR \<noteq> 0)\<rparr>) s)))))))"

definition sys_mkdir :: "nat \<Rightarrow> 'a file_state_scheme \<Rightarrow> (u32 \<times> 'a file_state_scheme) result" where
  "sys_mkdir me s =
     andthen (begin_op s) (\<lambda>s.
     andthen (argstr me 0 s) (\<lambda>r.
       case r of
         None \<Rightarrow> fail_op me s
       | Some path \<Rightarrow>
           andthen (create me path T_DIR 0 0 s) (\<lambda>(r, s).
             case r of
               None \<Rightarrow> fail_op me s
             | Some ip \<Rightarrow>
                 andthen (iunlockput me ip s) (\<lambda>s.
                 andthen (end_op me s) (\<lambda>s. Inr (0, s))))))"

definition sys_mknod :: "nat \<Rightarrow> 'a file_state_scheme \<Rightarrow> (u32 \<times> 'a file_state_scheme) result" where
  "sys_mknod me s =
     andthen (begin_op s) (\<lambda>s.
     andthen (argstr me 0 s) (\<lambda>rp.
       case rp of
         None \<Rightarrow> fail_op me s
       | Some path \<Rightarrow>
           andthen (argint me 1 s) (\<lambda>ra.
             case ra of
               None \<Rightarrow> fail_op me s
             | Some major \<Rightarrow>
                 andthen (argint me 2 s) (\<lambda>rb.
                   case rb of
                     None \<Rightarrow> fail_op me s
                   | Some minor \<Rightarrow>
                       andthen (create me path T_DEV (ucast major) (ucast minor) s) (\<lambda>(r, s).
                         case r of
                           None \<Rightarrow> fail_op me s
                         | Some ip \<Rightarrow>
                             andthen (iunlockput me ip s) (\<lambda>s.
                             andthen (end_op me s) (\<lambda>s. Inr (0, s))))))))"

definition sys_chdir :: "nat \<Rightarrow> 'a file_state_scheme \<Rightarrow> (u32 \<times> 'a file_state_scheme) result" where
  "sys_chdir me s =
     andthen (begin_op s) (\<lambda>s.
     andthen (argstr me 0 s) (\<lambda>rp.
       case rp of
         None \<Rightarrow> fail_op me s
       | Some path \<Rightarrow>
           andthen (namei me path s) (\<lambda>(r, s).
             case r of
               None \<Rightarrow> fail_op me s
             | Some ip \<Rightarrow>
                 andthen (ilock me ip s) (\<lambda>s.
                   if itype (icache s ip) \<noteq> T_DIR then andthen (iunlockput me ip s) (fail_op me)
                   else
                     andthen (iunlock me ip s) (\<lambda>s.
                       case pcwd (ptable s me) of
                         None \<Rightarrow> Inl (BadAccess 0)
                       | Some cwd \<Rightarrow>
                           andthen (iput me cwd s) (\<lambda>s.
                           andthen (end_op me s) (\<lambda>s.
                             Inr (0, upd_proc me (\<lambda>p. p\<lparr>pcwd := Some ip\<rparr>) s))))))))"

section \<open>Exec and pipe\<close>

text \<open>The loop over \<^verbatim>\<open>argv\<close>; \<open>None\<close> where the call returns \<open>-1\<close>.\<close>

primrec sys_exec_args :: "nat \<Rightarrow> nat \<Rightarrow> addr \<Rightarrow> 'a ptable_state_scheme \<Rightarrow> u8 list list option result" where
  "sys_exec_args 0 me a s = Inr None"
| "sys_exec_args (Suc n) me a s =
     andthen (fetchint me a s) (\<lambda>r.
       case r of
         None \<Rightarrow> Inr None
       | Some uarg \<Rightarrow>
           if uarg = 0 then Inr (Some [])
           else
             andthen (fetchstr me uarg s) (\<lambda>r.
               case r of
                 None \<Rightarrow> Inr None
               | Some str \<Rightarrow>
                   andthen (sys_exec_args n me (a + 4) s) (\<lambda>r. Inr (map_option ((#) str) r))))"

definition sys_exec :: "nat \<Rightarrow> nat \<Rightarrow> 'a file_state_scheme \<Rightarrow> (u32 \<times> 'a file_state_scheme) result" where
  "sys_exec c me s =
     with_arg (argstr me 0 s) s (\<lambda>path.
     with_arg (argint me 1 s) s (\<lambda>uargv.
     with_arg (sys_exec_args MAXARG me uargv s) s (\<lambda>argv.
       exec c me path argv s)))"

definition sys_pipe :: "nat \<Rightarrow> 'a file_state_scheme \<Rightarrow> (u32 \<times> 'a file_state_scheme) result" where
  "sys_pipe me s =
     with_arg (argptr me 0 8 s) s (\<lambda>a.
       andthen (pipealloc me s) (\<lambda>(r, s).
         case r of
           None \<Rightarrow> Inr (- 1, s)
         | Some (rf, wrf) \<Rightarrow>
             let (fd0, s) = fdalloc me rf s
             in case fd0 of
                  None \<Rightarrow>
                    andthen (fileclose me rf s) (\<lambda>s.
                    andthen (fileclose me wrf s) (\<lambda>s. Inr (- 1, s)))
                | Some i \<Rightarrow>
                    let (fd1, s) = fdalloc me wrf s
                    in case fd1 of
                         None \<Rightarrow>
                           let s = upd_proc me (\<lambda>p. p\<lparr>pofile := (pofile p)(i := None)\<rparr>) s
                           in andthen (fileclose me rf s) (\<lambda>s.
                              andthen (fileclose me wrf s) (\<lambda>s. Inr (- 1, s)))
                       | Some j \<Rightarrow>
                           andthen (user_store (ppgdir (ptable s me)) a (word_bytes (of_nat i)) s) (\<lambda>s.
                           andthen (user_store (ppgdir (ptable s me)) (a + 4) (word_bytes (of_nat j)) s) (\<lambda>s.
                             Inr (0, s)))))"

end
