(* ===== verification/Trap.thy ===== *)
theory Trap
  imports Sysfile
begin

text \<open>
  System call dispatch and traps: the process calls of \<^verbatim>\<open>sysproc.c\<close>, the second half of \<^verbatim>\<open>syscall.c\<close>, and
  \<^verbatim>\<open>trap.c\<close> with its page fault handler for copy-on-write and lazily loaded mappings. \<open>c\<close> is the CPU,
  \<open>me\<close> the current process. The interrupt controller (\<^verbatim>\<open>lapiceoi\<close>) is not part of the state, the
  disk interrupt of the memory disk does nothing, and messages printed with \<^verbatim>\<open>cprintf\<close> are left out.
\<close>

section \<open>Process calls\<close>

definition sys_kill :: "nat \<Rightarrow> 'a ptable_state_scheme \<Rightarrow> (u32 \<times> 'a ptable_state_scheme) result" where
  "sys_kill me s = with_arg (argint me 0 s) s (\<lambda>k. Inr (kill k s))"

definition sys_getpid :: "nat \<Rightarrow> 'a ptable_state_scheme \<Rightarrow> u32" where
  "sys_getpid me s = pid (ptable s me)"

definition sys_sbrk :: "nat \<Rightarrow> nat \<Rightarrow> 'a ptable_state_scheme \<Rightarrow> (u32 \<times> 'a ptable_state_scheme) result" where
  "sys_sbrk c me s =
     with_arg (argint me 0 s) s (\<lambda>n.
       let a = psz (ptable s me)
       in andthen (growproc c me n s) (\<lambda>(r, s).
            if r <s 0 then Inr (- 1, s) else Inr (a, s)))"

text \<open>A pass of the loop of \<^verbatim>\<open>sys_sleep\<close>, which entered it when the clock showed \<open>ticks0\<close>.\<close>

definition sleep_pass :: "nat \<Rightarrow> u32 \<Rightarrow> u32 \<Rightarrow> 'a ptable_state_scheme \<Rightarrow> u32 waiting" where
  "sleep_pass me n ticks0 s =
     (if ticks s - ticks0 < n then
        (if pkilled (ptable s me) then Done (- 1) else Block ChTicks)
      else Done 0)"

definition sys_sleep :: "nat \<Rightarrow> 'a ptable_state_scheme \<Rightarrow> u32 waiting result" where
  "sys_sleep me s =
     andthen (argint me 0 s) (\<lambda>r.
       case r of None \<Rightarrow> Inr (Done (- 1)) | Some n \<Rightarrow> Inr (sleep_pass me n (ticks s) s))"

definition sys_uptime :: "'a ptable_state_scheme \<Rightarrow> u32" where
  "sys_uptime s = ticks s"

section \<open>Dispatch\<close>

text \<open>
  The outcome of a system call: a value for \<^verbatim>\<open>eax\<close>, a sleep (with what a \<^verbatim>\<open>write\<close> to a pipe has left to
  do), or the end of the process.
\<close>

datatype sys_end = Returns u32 | Sleeps chan "u8 list" | Exits

definition sys_returns :: "(u32 \<times> 's) result \<Rightarrow> (sys_end \<times> 's) result" where
  "sys_returns m = andthen m (\<lambda>(v, s). Inr (Returns v, s))"

definition sys_waits :: "u32 waiting \<Rightarrow> u8 list \<Rightarrow> sys_end" where
  "sys_waits w rest = (case w of Done v \<Rightarrow> Returns v | Block ch \<Rightarrow> Sleeps ch rest)"

definition syscall_run :: "nat \<Rightarrow> nat \<Rightarrow> u32 \<Rightarrow> 'a file_state_scheme \<Rightarrow> (sys_end \<times> 'a file_state_scheme) result" where
  "syscall_run c me num s =
     (if num = 1 then sys_returns (fork me s)
      else if num = 2 then andthen (exit_proc c me s) (\<lambda>s. Inr (Exits, s))
      else if num = 3 then andthen (wait_pass me s) (\<lambda>(w, s). Inr (sys_waits w [], s))
      else if num = 4 then sys_returns (sys_pipe me s)
      else if num = 5 then andthen (sys_read me s) (\<lambda>(w, rest, s). Inr (sys_waits w rest, s))
      else if num = 6 then sys_returns (sys_kill me s)
      else if num = 7 then sys_returns (sys_exec c me s)
      else if num = 8 then sys_returns (sys_fstat me s)
      else if num = 9 then sys_returns (sys_chdir me s)
      else if num = 10 then sys_returns (sys_dup me s)
      else if num = 11 then Inr (Returns (sys_getpid me s), s)
      else if num = 12 then sys_returns (sys_sbrk c me s)
      else if num = 13 then andthen (sys_sleep me s) (\<lambda>w. Inr (sys_waits w [], s))
      else if num = 14 then Inr (Returns (sys_uptime s), s)
      else if num = 15 then sys_returns (sys_open me s)
      else if num = 16 then andthen (sys_write me s) (\<lambda>(w, rest, s). Inr (sys_waits w rest, s))
      else if num = 17 then sys_returns (sys_mknod me s)
      else if num = 18 then sys_returns (sys_unlink me s)
      else if num = 19 then sys_returns (sys_link me s)
      else if num = 20 then sys_returns (sys_mkdir me s)
      else if num = 21 then sys_returns (sys_close me s)
      else if num = 22 then sys_returns (wmap me s)
      else if num = 23 then sys_returns (va2pa me s)
      else if num = 24 then sys_returns (sys_wunmap me s)
      else sys_returns (getwmapinfo me s))"

definition syscall :: "nat \<Rightarrow> nat \<Rightarrow> 'a file_state_scheme \<Rightarrow> (sys_end \<times> 'a file_state_scheme) result" where
  "syscall c me s =
     (let num = tf_get TF_EAX me s
      in if 0 <s num \<and> num < 26 then
           andthen (syscall_run c me num s) (\<lambda>(r, s).
             case r of
               Returns v \<Rightarrow> Inr (r, tf_set TF_EAX v me s)
             | _ \<Rightarrow> Inr (r, s))
         else Inr (Returns (- 1), tf_set TF_EAX (- 1) me s))"

section \<open>Page faults\<close>

text \<open>How the page fault case of \<^verbatim>\<open>trap\<close> ends: \<^verbatim>\<open>return\<close>, \<^verbatim>\<open>break\<close>, or falling through to \<^verbatim>\<open>default\<close>.\<close>

datatype pf_end = PfReturn | PfBreak | PfDefault

definition set_killed :: "nat \<Rightarrow> 'a ptable_state_scheme \<Rightarrow> 'a ptable_state_scheme" where
  "set_killed p s = upd_proc p (\<lambda>q. q\<lparr>pkilled := True\<rparr>) s"

definition cow_fault ::
  "nat \<Rightarrow> addr \<Rightarrow> addr \<Rightarrow> 'a ptable_state_scheme \<Rightarrow> (pf_end \<times> 'a ptable_state_scheme) result" where
  "cow_fault p fault_addr pte s =
     (let pgdir = ppgdir (ptable s p);
          old = load32 (mem s) pte;
          pa = PTE_ADDR old
      in if ref_counts s (pa div PGSIZE) = 1 then
           let s = s\<lparr>mem := store32 pte (old OR PTE_W) (mem s)\<rparr>;
               s = s\<lparr>mem := store32 pte (load32 (mem s) pte AND NOT PTE_COW) (mem s)\<rparr>
           in Inr (PfReturn, lcr3 (V2P pgdir) s)
         else
           let (new_page, s) = kalloc s
           in if new_page = 0 then Inr (PfBreak, set_killed p s)
              else
                let s = s\<lparr>mem := memmove new_page (P2V pa) PGSIZE (mem s)\<rparr>;
                    s = s\<lparr>mem := store32 pte (load32 (mem s) pte OR PTE_W) (mem s)\<rparr>;
                    s = s\<lparr>mem := store32 pte (load32 (mem s) pte AND NOT PTE_COW) (mem s)\<rparr>;
                    s = lcr3 (V2P pgdir) s;
                    old_page = P2V (PTE_ADDR (load32 (mem s) pte));
                    flags = PTE_FLAGS (load32 (mem s) pte);
                    s = s\<lparr>mem := store32 pte 0 (mem s)\<rparr>;
                    flags = flags OR PTE_W
                in andthen (mappages pgdir (PGROUNDDOWN fault_addr) PGSIZE (V2P new_page) flags s) (\<lambda>(r, s).
                     if r <s 0 then Inl (Panic ''mampages duplciate pages failed'')
                     else
                       let s = lcr3 (V2P pgdir) s;
                           s = s\<lparr>mem := memmove new_page old_page PGSIZE (mem s)\<rparr>
                       in andthen (decref pa s) (\<lambda>s. Inr (PfReturn, s))))"

text \<open>
  Loading a page of region \<open>i\<close>. The file of the region is used without a test for the null pointer; when
  reading it fails, the new page is freed although it stays mapped.
\<close>

definition lazy_file ::
  "nat \<Rightarrow> nat \<Rightarrow> addr \<Rightarrow> addr \<Rightarrow> 'a file_state_scheme \<Rightarrow> (bool \<times> 'a file_state_scheme) result" where
  "lazy_file p i page_start m s =
     (let r = pmmap (ptable s p) i
      in if r_flags r AND MAP_ANONYMOUS = 0 then
           andthen (ofile_at p (r_fd r) s) (\<lambda>fo.
             case fo of
               None \<Rightarrow> Inl (BadAccess 0)
             | Some f \<Rightarrow>
                 let original_offset = foff (ftable s f);
                     s = upd_file f (\<lambda>x. x\<lparr>foff := page_start - r_addr r\<rparr>) s
                 in andthen (fileread p f PGSIZE s) (\<lambda>(w, bytes, s).
                      case w of
                        Block ch \<Rightarrow> Inl (Sleep ch)
                      | Done bytes_read \<Rightarrow>
                          let s = s\<lparr>mem := put_bytes m bytes (mem s)\<rparr>;
                              s = upd_file f (\<lambda>x. x\<lparr>foff := original_offset\<rparr>) s
                          in if bytes_read <s 0 then
                               andthen (kfree m s) (\<lambda>s. Inr (False, set_killed p s))
                             else if bytes_read <s PGSIZE then
                               Inr (True, s\<lparr>mem := memset (m + bytes_read) 0 (PGSIZE - bytes_read) (mem s)\<rparr>)
                             else Inr (True, s)))
         else Inr (True, s))"

definition lazy_fault ::
  "nat \<Rightarrow> addr \<Rightarrow> 'a file_state_scheme \<Rightarrow> (pf_end \<times> 'a file_state_scheme) result" where
  "lazy_fault p fault_addr s =
     (case find_region (ptable s p) fault_addr of
        None \<Rightarrow> Inr (PfBreak, set_killed p s)
      | Some i \<Rightarrow>
          let page_start = PGROUNDDOWN fault_addr;
              (m, s) = kalloc s
          in if m = 0 then Inr (PfDefault, set_killed p s)
             else
               let s = s\<lparr>mem := memset m 0 PGSIZE (mem s)\<rparr>
               in andthen (mappages (ppgdir (ptable s p)) page_start PGSIZE (V2P m) (PTE_W OR PTE_U) s) (\<lambda>(r, s).
                    if r <s 0 then
                      andthen (kfree m s) (\<lambda>s. Inr (PfDefault, set_killed p s))
                    else
                      andthen (lazy_file p i page_start m s) (\<lambda>(ok, s).
                        if \<not> ok then Inr (PfDefault, s)
                        else Inr (PfReturn, upd_region p i (\<lambda>r. r\<lparr>r_loaded := r_loaded r + 1\<rparr>) s))))"

definition page_fault ::
  "nat \<Rightarrow> addr \<Rightarrow> 'a file_state_scheme \<Rightarrow> (pf_end \<times> 'a file_state_scheme) result" where
  "page_fault p fault_addr s =
     (let pte = fst (walkpgdir (ppgdir (ptable s p)) fault_addr False s)
      in if pte = 0 \<or> load32 (mem s) pte AND PTE_P = 0 then lazy_fault p fault_addr s
         else if load32 (mem s) pte AND PTE_COW \<noteq> 0 then cow_fault p fault_addr pte s
         else lazy_fault p fault_addr s)"

section \<open>Traps\<close>

text \<open>
  The gates of the interrupt table; \<open>vectors\<close> are the entry points of the generated file
  \<^verbatim>\<open>vectors.S\<close>.
\<close>

definition tvinit :: "(nat \<Rightarrow> u32) \<Rightarrow> (nat \<Rightarrow> gatedesc) \<Rightarrow> nat \<Rightarrow> gatedesc" where
  "tvinit vectors idt =
     (let idt = (\<lambda>i. if i < 256 then SETGATE (idt i) False 8 (vectors i) 0 else idt i)
      in idt(64 := SETGATE (idt 64) True 8 (vectors 64) 3))"

text \<open>\<^verbatim>\<open>fileread_offset\<close> is not called.\<close>

definition fileread_offset ::
  "nat \<Rightarrow> nat \<Rightarrow> u32 \<Rightarrow> u32 \<Rightarrow> 'a file_state_scheme \<Rightarrow> (u32 \<times> u8 list \<times> 'a file_state_scheme) result" where
  "fileread_offset me f n offset s =
     (let x = ftable s f
      in if \<not> freadable x then Inr (- 1, [], s)
         else
           andthen (ilock me (fip x) s) (\<lambda>s.
           andthen (readi me (fip x) offset n s) (\<lambda>(r, bytes, s).
           andthen (iunlock me (fip x) s) (\<lambda>s. Inr (r, bytes, s)))))"

text \<open>
  What comes with the trap besides the frame: the faulting address (\<^verbatim>\<open>rcr2\<close>) and the characters
  the keyboard or the serial port has ready. A trap ends by returning to the interrupted code, in
  a sleep or a yield, or with the process.
\<close>

record trap_in =
  cr2 :: addr
  ready_chars :: "u32 list"

datatype trap_end = Resume | Asleep chan "u8 list" | Yielded bool | Ended

abbreviation (input) TF_TRAPNO :: u32 where "TF_TRAPNO \<equiv> 48"

definition from_user :: "addr \<Rightarrow> 'a kmem_state_scheme \<Rightarrow> bool" where
  "from_user tf s \<longleftrightarrow> load16 (mem s) (tf + TF_CS) AND 3 = 3"

definition killed_exit ::
  "nat \<Rightarrow> nat option \<Rightarrow> bool \<Rightarrow> 'a file_state_scheme \<Rightarrow> (trap_end \<times> 'a file_state_scheme) option result" where
  "killed_exit c me user s =
     (case me of
        Some p \<Rightarrow> if pkilled (ptable s p) \<and> user
                  then andthen (exit_proc c p s) (\<lambda>s. Inr (Some (Ended, s)))
                  else Inr None
      | None \<Rightarrow> Inr None)"

definition trap_tail ::
  "nat \<Rightarrow> nat option \<Rightarrow> addr \<Rightarrow> 'a file_state_scheme \<Rightarrow> (trap_end \<times> 'a file_state_scheme) result" where
  "trap_tail c me tf s =
     andthen (killed_exit c me (from_user tf s) s) (\<lambda>r.
       case r of
         Some x \<Rightarrow> Inr x
       | None \<Rightarrow>
           (case me of
              Some p \<Rightarrow>
                if pstate (ptable s p) = RUNNING \<and> load32 (mem s) (tf + TF_TRAPNO) = 32
                then andthen (yield c p s) (\<lambda>(ena, s). Inr (Yielded ena, s))
                else Inr (Resume, s)
            | None \<Rightarrow> Inr (Resume, s)))"

text \<open>The rest of \<^verbatim>\<open>trap\<close> once the process has been switched to again after its \<^verbatim>\<open>yield\<close>.\<close>

definition trap_yielded ::
  "nat \<Rightarrow> nat \<Rightarrow> addr \<Rightarrow> bool \<Rightarrow> 'a file_state_scheme \<Rightarrow> (trap_end \<times> 'a file_state_scheme) result" where
  "trap_yielded c p tf ena s =
     andthen (yield_resume c ena s) (\<lambda>s.
     andthen (killed_exit c (Some p) (from_user tf s) s) (\<lambda>r.
       case r of Some x \<Rightarrow> Inr x | None \<Rightarrow> Inr (Resume, s)))"

definition trap_default ::
  "nat option \<Rightarrow> addr \<Rightarrow> 'a file_state_scheme \<Rightarrow> 'a file_state_scheme result" where
  "trap_default me tf s =
     (case me of
        None \<Rightarrow> Inl (Panic ''trap'')
      | Some p \<Rightarrow>
          if load16 (mem s) (tf + TF_CS) AND 3 = 0 then Inl (Panic ''trap'')
          else Inr (set_killed p s))"

definition trap_syscall ::
  "nat \<Rightarrow> nat \<Rightarrow> addr \<Rightarrow> 'a file_state_scheme \<Rightarrow> (trap_end \<times> 'a file_state_scheme) result" where
  "trap_syscall c p tf s =
     (if pkilled (ptable s p) then andthen (exit_proc c p s) (\<lambda>s. Inr (Ended, s))
      else
        andthen (syscall c p (upd_proc p (\<lambda>q. q\<lparr>ptf := tf\<rparr>) s)) (\<lambda>(r, s).
          case r of
            Exits \<Rightarrow> Inr (Ended, s)
          | Sleeps ch rest \<Rightarrow> Inr (Asleep ch rest, s)
          | Returns _ \<Rightarrow>
              if pkilled (ptable s p) then andthen (exit_proc c p s) (\<lambda>s. Inr (Ended, s))
              else Inr (Resume, s)))"

definition trap ::
  "nat \<Rightarrow> nat option \<Rightarrow> trap_in \<Rightarrow> addr \<Rightarrow> 'a file_state_scheme \<Rightarrow> (trap_end \<times> 'a file_state_scheme) result" where
  "trap c me tin tf s =
     (let no = load32 (mem s) (tf + TF_TRAPNO)
      in if no = 64 then
           (case me of None \<Rightarrow> Inl (BadAccess 0) | Some p \<Rightarrow> trap_syscall c p tf s)
         else if no = 32 then
           andthen (mycpu c s) (\<lambda>i.
             trap_tail c me tf (if i = 0 then wakeup ChTicks (s\<lparr>ticks := ticks s + 1\<rparr>) else s))
         else if no = 46 \<or> no = 47 \<or> no = 39 \<or> no = 63 then trap_tail c me tf s
         else if no = 33 \<or> no = 36 then
           andthen (consoleintr (ready_chars tin) s) (\<lambda>(_, s). trap_tail c me tf s)
         else if no = 14 then
           (case me of
              None \<Rightarrow> Inl (Panic ''trap: page fault with no process'')
            | Some p \<Rightarrow>
                andthen (page_fault p (cr2 tin) s) (\<lambda>(e, s).
                  case e of
                    PfReturn \<Rightarrow> Inr (Resume, s)
                  | PfBreak \<Rightarrow> trap_tail c me tf s
                  | PfDefault \<Rightarrow> andthen (trap_default me tf s) (trap_tail c me tf)))
         else andthen (trap_default me tf s) (trap_tail c me tf))"

end
