(* ===== verification/Kbd.thy ===== *)
theory Kbd
  imports Console
begin

text \<open>
  The keyboard, \<^verbatim>\<open>kbd.c\<close> with the tables of \<^verbatim>\<open>kbd.h\<close>. \<^verbatim>\<open>kbdgetc\<close> takes the bytes the controller has ready
  from a list; the static variable \<^verbatim>\<open>shift\<close> is passed along.
\<close>

abbreviation (input) SHIFT :: u32 where "SHIFT \<equiv> 1"
abbreviation (input) CTL :: u32 where "CTL \<equiv> 2"
abbreviation (input) ALT :: u32 where "ALT \<equiv> 4"
abbreviation (input) CAPSLOCK :: u32 where "CAPSLOCK \<equiv> 8"
abbreviation (input) NUMLOCK :: u32 where "NUMLOCK \<equiv> 16"
abbreviation (input) SCROLLLOCK :: u32 where "SCROLLLOCK \<equiv> 32"
abbreviation (input) E0ESC :: u32 where "E0ESC \<equiv> 64"

definition shiftcode :: "u32 \<Rightarrow> u32" where
  "shiftcode d =
     (if d = 0x1D \<or> d = 0x9D then CTL
      else if d = 0x2A \<or> d = 0x36 then SHIFT
      else if d = 0x38 \<or> d = 0xB8 then ALT
      else 0)"

definition togglecode :: "u32 \<Rightarrow> u32" where
  "togglecode d =
     (if d = 0x3A then CAPSLOCK else if d = 0x45 then NUMLOCK else if d = 0x46 then SCROLLLOCK else 0)"

text \<open>The keys that a table lists after its first rows, shared by the three tables.\<close>

definition cursor_keys :: "u32 \<Rightarrow> u32" where
  "cursor_keys d =
     (if d = 0xC8 then 0xE2 else if d = 0xD0 then 0xE3 else if d = 0xC9 then 0xE6 else if d = 0xD1 then 0xE7
      else if d = 0xCB then 0xE4 else if d = 0xCD then 0xE5 else if d = 0x97 then 0xE0 else if d = 0xCF then 0xE1
      else if d = 0xD2 then 0xE8 else if d = 0xD3 then 0xE9 else 0)"

definition normal_rows :: "u32 list" where
  "normal_rows = map (\<lambda>c. of_nat (of_char c)) (
     [CHR 0x00, CHR 0x1B] @ ''1234567890-='' @ [CHR 0x08, CHR 0x09] @ ''qwertyuiop[]'' @ [CHR 0x0A, CHR 0x00]
     @ ''asdfghjkl;'' @ [CHR 0x27, CHR 0x60, CHR 0x00, CHR 0x5C] @ ''zxcvbnm,./'' @ [CHR 0x00, CHR 0x2A, CHR 0x00, CHR 0x20]
     @ replicate 13 (CHR 0x00) @ ''789-456+1230.'' @ replicate 4 (CHR 0x00))"

definition normalmap :: "u32 \<Rightarrow> u32" where
  "normalmap d =
     (if unat d < length normal_rows then normal_rows ! unat d
      else if d = 0x9C then 0x0A else if d = 0xB5 then 0x2F else cursor_keys d)"

definition shift_rows :: "u32 list" where
  "shift_rows = map (\<lambda>c. of_nat (of_char c)) (
     [CHR 0x00, CHR 0x1B] @ ''!@#$%^&*()_+'' @ [CHR 0x08, CHR 0x09] @ ''QWERTYUIOP{}'' @ [CHR 0x0A, CHR 0x00]
     @ ''ASDFGHJKL:'' @ [CHR 0x22, CHR 0x7E, CHR 0x00, CHR 0x7C] @ ''ZXCVBNM<>?'' @ [CHR 0x00, CHR 0x2A, CHR 0x00, CHR 0x20]
     @ replicate 13 (CHR 0x00) @ ''789-456+1230.'' @ replicate 4 (CHR 0x00))"

definition shiftmap :: "u32 \<Rightarrow> u32" where
  "shiftmap d =
     (if unat d < length shift_rows then shift_rows ! unat d
      else if d = 0x9C then 0x0A else if d = 0xB5 then 0x2F else cursor_keys d)"

text \<open>\<open>C(x)\<close> of the header, as an \<^verbatim>\<open>uchar\<close> of the table.\<close>

definition ctl_code :: "char \<Rightarrow> u32" where
  "ctl_code ch = (of_nat (of_char ch) - 0x40) AND 0xff"

definition ctl_rows :: "u32 list" where
  "ctl_rows = replicate 16 0 @ map ctl_code ''QWERTYUIOP'' @ [0, 0, 0x0D, 0] @ map ctl_code ''ASDFGHJKL'' @ [0]
     @ [0, 0, 0, ctl_code (CHR 0x5C)] @ map ctl_code ''ZXCVBNM'' @ [0, 0, ctl_code (CHR 0x2F), 0, 0]"

definition ctlmap :: "u32 \<Rightarrow> u32" where
  "ctlmap d =
     (if unat d < length ctl_rows then ctl_rows ! unat d
      else if d = 0x9C then 0x0D else if d = 0xB5 then ctl_code (CHR 0x2F) else cursor_keys d)"

definition charcode :: "u32 \<Rightarrow> u32 \<Rightarrow> u32" where
  "charcode k = (if k = 0 then normalmap else if k = 1 then shiftmap else ctlmap)"

text \<open>One byte of the controller: the value \<^verbatim>\<open>kbdgetc\<close> returns and the new \<^verbatim>\<open>shift\<close>.\<close>

definition kbd_key :: "u32 \<Rightarrow> u32 \<Rightarrow> u32 \<times> u32" where
  "kbd_key data shift =
     (let shift = shift OR shiftcode data;
          shift = shift XOR togglecode data;
          ch = charcode (shift AND (CTL OR SHIFT)) data;
          ch = (if shift AND CAPSLOCK \<noteq> 0 then
                  (if 0x61 \<le> ch \<and> ch \<le> 0x7A then ch + (0x41 - 0x61)
                   else if 0x41 \<le> ch \<and> ch \<le> 0x5A then ch + (0x61 - 0x41)
                   else ch)
                else ch)
      in (ch, shift))"

definition kbd_byte :: "u8 \<Rightarrow> u32 \<Rightarrow> u32 \<times> u32" where
  "kbd_byte b shift =
     (let data = ucast b :: u32
      in if data = 0xE0 then (0, shift OR E0ESC)
         else if data AND 0x80 \<noteq> 0 then
           let data = (if shift AND E0ESC \<noteq> 0 then data else data AND 0x7F)
           in (0, shift AND NOT (shiftcode data OR E0ESC))
         else if shift AND E0ESC \<noteq> 0 then kbd_key (data OR 0x80) (shift AND NOT E0ESC)
         else kbd_key data shift)"

definition kbdgetc :: "u8 list \<Rightarrow> u32 \<Rightarrow> u32 \<times> u8 list \<times> u32" where
  "kbdgetc bytes shift =
     (case bytes of
        [] \<Rightarrow> (- 1, [], shift)
      | b # bytes \<Rightarrow> let (ch, shift) = kbd_byte b shift in (ch, bytes, shift))"

primrec kbd_chars :: "u8 list \<Rightarrow> u32 \<Rightarrow> u32 list \<times> u32" where
  "kbd_chars [] shift = ([], shift)"
| "kbd_chars (b # bs) shift =
     (let (ch, shift) = kbd_byte b shift;
          (chs, shift) = kbd_chars bs shift
      in (ch # chs, shift))"

definition kbdintr ::
  "u8 list \<Rightarrow> u32 \<Rightarrow> 'a cons_state_scheme \<Rightarrow> (u32 \<times> bool \<times> 'a cons_state_scheme) result" where
  "kbdintr bytes shift s =
     (let (chs, shift) = kbd_chars bytes shift
      in andthen (consoleintr chs s) (\<lambda>(dump, s). Inr (shift, dump, s)))"

lemma kbd_rows_length: "length normal_rows = 88" "length shift_rows = 88" "length ctl_rows = 56"
  by (simp_all add: normal_rows_def shift_rows_def ctl_rows_def)

end
