(* ===== verification/Machine.thy ===== *)
theory Machine
  imports File
begin

text \<open>
  A small concrete machine on which the hypotheses of the theorems about files, mappings and traps
  are shown to be satisfiable: one CPU, an empty disk, empty tables, and a free list of one page.
\<close>

definition free_inode :: inode where
  "free_inode = \<lparr>idev = 0, inum = 0, iref = 0, inode_lock = initsleeplock, ivalid = False, itype = 0, imajor = 0,
     iminor = 0, inlink = 0, isize = 0, iaddrs = (\<lambda>_. 0)\<rparr>"

definition free_buf :: buf where
  "free_buf = \<lparr>bflags = 0, bdev = 0, bblockno = 0, block_lock = initsleeplock, brefcnt = 0, bprev = 0, bnext = 0,
     bdata = (\<lambda>_. 0)\<rparr>"

definition free_file :: ofile where
  "free_file = \<lparr>ftyp = FD_NONE, fref = 0, freadable = False, fwritable = False, fpipe = 0, fip = 0, foff = 0\<rparr>"

definition new_pipe :: pipe where
  "new_pipe = \<lparr>pdata = (\<lambda>_. 0), nread = 0, nwrite = 0, readopen = True, writeopen = True\<rparr>"

definition machine :: file_state where
  "machine = \<lparr>mem = (\<lambda>_. 0), use_lock = True, freelist = 0x80400000, ref_counts = (\<lambda>_. 0),
     kern_end = 0x80115000, cr3 = 0, kpgdir = 0x803ff000, kdata = 0x80108000, cpus = (\<lambda>_. idle_cpu), ncpu = 1,
     hw_if = (\<lambda>_. True), lapic = (\<lambda>_. 0), ptable = (\<lambda>_. free_proc), ptable_lock = initlock, initproc = None,
     nextpid = 1, ticks = 0, forkret_sym = 0x80103e00, trapret_sym = 0x80105d00,
     bbuf = (\<lambda>_. free_buf), disk = (\<lambda>_ _. 0), disksize = 1000, disk_writes = [],
     log_start = 2, log_size = 30, log_outstanding = 0, log_committing = False, log_dev = 1, lh_n = 0,
     lh_block = (\<lambda>_. 0),
     sb = \<lparr>sb_size = 1000, sb_nblocks = 941, sb_ninodes = 200, sb_nlog = 30, sb_logstart = 2, sb_inodestart = 32,
       sb_bmapstart = 58\<rparr>,
     icache = (\<lambda>_. free_inode),
     panicked = False, crt = (\<lambda>_. 0), crt_pos = 0, uart_out = [], input_buf = (\<lambda>_. 0), input_r = 0, input_w = 0,
     input_e = 0, ftable = (\<lambda>_. free_file), pipes = (\<lambda>_. new_pipe)\<rparr>"

lemma machine_sel [simp]:
  "mem machine = (\<lambda>_. 0)" "freelist machine = 0x80400000" "ref_counts machine = (\<lambda>_. 0)"
  "kern_end machine = 0x80115000" "cpus machine = (\<lambda>_. idle_cpu)" "ncpu machine = 1"
  "hw_if machine = (\<lambda>_. True)" "lapic machine = (\<lambda>_. 0)" "ptable machine = (\<lambda>_. free_proc)" "initproc machine = None"
  "bbuf machine = (\<lambda>_. free_buf)" "disk machine = (\<lambda>_ _. 0)" "disksize machine = 1000" "disk_writes machine = []"
  "log_start machine = 2" "log_size machine = 30" "log_outstanding machine = 0" "log_committing machine = False"
  "log_dev machine = 1" "lh_n machine = 0" "icache machine = (\<lambda>_. free_inode)"
  "panicked machine = False" "crt_pos machine = 0" "uart_out machine = []" "input_r machine = 0"
  "input_w machine = 0" "input_e machine = 0" "ftable machine = (\<lambda>_. free_file)" "pipes machine = (\<lambda>_. new_pipe)"
  by (simp_all add: machine_def)

end
