(* ===== verification/Ring.thy ===== *)
theory Ring
  imports Prelude
begin

text \<open>
  Ring buffers as the kernel writes them, for pipes and for console input: an array of \<open>size\<close> bytes
  with a read and a write counter that run on freely and wrap around \<open>2^32\<close>; a counter is reduced
  modulo \<open>size\<close> only where it indexes the array. The locale states what the size must satisfy for
  this to be a queue, and proves the laws of the queue once.
\<close>

locale ring_buffer =
  fixes ring_size :: u32
  assumes size_pos: "0 < ring_size"
    and size_dvd: "unat ring_size dvd 2 ^ 32"
begin

definition items :: "(u32 \<Rightarrow> 'b) \<Rightarrow> u32 \<Rightarrow> u32 \<Rightarrow> 'b list" where
  "items buf r w = map (\<lambda>i. buf ((r + of_nat i) mod ring_size)) [0..<unat (w - r)]"

definition in_bounds :: "u32 \<Rightarrow> u32 \<Rightarrow> bool" where
  "in_bounds r w \<longleftrightarrow> unat (w - r) \<le> unat ring_size"

lemma size_nat_pos: "0 < unat ring_size"
  using size_pos by (simp add: word_less_nat_alt)

lemma length_items [simp]: "length (items buf r w) = unat (w - r)"
  by (simp add: items_def)

lemma items_empty: "items buf r w = [] \<longleftrightarrow> r = w"
  by (auto simp: items_def unat_eq_zero)

lemma unat_index: "unat ((r + of_nat i) mod ring_size) = (unat r + i) mod unat ring_size"
proof -
  have "unat (r + of_nat i) = (unat r + i) mod 2 ^ 32"
    by (simp add: unat_word_ariths unat_of_nat mod_simps)
  then show ?thesis
    using size_dvd by (simp add: unat_mod mod_mod_cancel)
qed

lemma index_inj:
  assumes "(r + of_nat i) mod ring_size = (r + of_nat j) mod ring_size" and "i \<le> j" and "j < i + unat ring_size"
  shows "i = j"
proof -
  have "(unat r + i) mod unat ring_size = (unat r + j) mod unat ring_size"
    using assms(1) by (metis unat_index)
  then have "unat ring_size dvd (unat r + j) - (unat r + i)"
    using assms(2) by (intro mod_eq_dvd_iff_nat [THEN iffD1]) simp_all
  then have "unat ring_size dvd j - i"
    by simp
  then have "unat ring_size \<le> j - i" if "i < j"
    using that by (intro dvd_imp_le) simp_all
  then show ?thesis
    using assms(2,3) by linarith
qed

lemma items_pop:
  assumes "r \<noteq> w"
  shows "items buf r w = buf (r mod ring_size) # items buf (r + 1) w"
proof -
  have "w - r \<noteq> 0"
    using assms by simp
  then have n: "unat (w - r) = Suc (unat (w - (r + 1)))"
    using unat_minus_one [of "w - r"] by (simp add: diff_diff_eq unat_gt_0)
  have "items buf r w = map (\<lambda>i. buf ((r + of_nat i) mod ring_size)) (0 # map Suc [0..<unat (w - (r + 1))])"
    unfolding items_def n by (simp only: map_Suc_upt upt_conv_Cons zero_less_Suc) 
  then show ?thesis
    by (simp add: items_def comp_def add.assoc)
qed

lemma items_push:
  assumes "unat (w - r) < unat ring_size"
  shows "items (buf(w mod ring_size := x)) r (w + 1) = items buf r w @ [x]"
proof -
  let ?n = "unat (w - r)"
  have "Suc ?n < 2 ^ 32"
    using assms unat_u32_less [of ring_size] by simp
  moreover have "w + 1 - r = (w - r) + 1"
    by simp
  ultimately have n: "unat (w + 1 - r) = Suc ?n"
    by (simp only: unat_word_ariths) simp
  have w: "w = r + of_nat ?n"
    by simp
  have "(r + of_nat i) mod ring_size \<noteq> w mod ring_size" if "i < ?n" for i
    using index_inj [of r i ?n] that assms w by (metis less_imp_le less_irrefl trans_less_add2)
  then show ?thesis
    unfolding items_def n by (simp add: w [symmetric])
qed

lemma in_bounds_push: "unat (w - r) < unat ring_size \<Longrightarrow> in_bounds r (w + 1)"
  using items_push [of w r undefined undefined] length_items
  by (metis Suc_leI in_bounds_def length_append_singleton)

lemma in_bounds_pop: "in_bounds r w \<Longrightarrow> r \<noteq> w \<Longrightarrow> in_bounds (r + 1) w"
  using items_pop [of r w undefined] length_items
  by (metis Suc_leD in_bounds_def length_Cons)

lemma not_full: "in_bounds r w \<Longrightarrow> w \<noteq> r + ring_size \<Longrightarrow> unat (w - r) < unat ring_size"
  unfolding in_bounds_def by (metis add.commute diff_add_cancel le_neq_implies_less word_unat_eq_iff)

lemma full: "in_bounds r w \<Longrightarrow> w = r + ring_size \<longleftrightarrow> unat (w - r) = unat ring_size"
  using not_full by (metis add_diff_cancel_left' less_irrefl)

end

end
