(* ===== verification/PipeQueue.thy ===== *)
theory PipeQueue
  imports Machine Ring
begin

text \<open>
  A pipe is a queue of at most 512 bytes: the ring buffer of \<^verbatim>\<open>pipe.c\<close> refines a list, and along any
  interleaving of readers and writers no byte is lost, duplicated or reordered.
\<close>

interpretation pipe_ring: ring_buffer 512
  by unfold_locales simp_all

definition pipe_items :: "'a file_state_scheme \<Rightarrow> addr \<Rightarrow> u8 list" where
  "pipe_items s p = pipe_ring.items (pdata (pipes s p)) (nread (pipes s p)) (nwrite (pipes s p))"

definition pipe_ok :: "'a file_state_scheme \<Rightarrow> addr \<Rightarrow> bool" where
  "pipe_ok s p \<longleftrightarrow> pipe_ring.in_bounds (nread (pipes s p)) (nwrite (pipes s p))"

lemma pipes_wakeup1 [simp]: "pipes (wakeup1 ch s) = pipes s"
proof -
  have "pipes (fold (\<lambda>p s. if pstate (ptable s p) = SLEEPING \<and> pchan (ptable s p) = ch
                 then set_state p RUNNABLE s else s) ps s) = pipes s" for ps
    by (induction ps arbitrary: s) (simp_all add: set_state_def upd_proc_def)
  then show ?thesis
    by (simp add: wakeup1_def)
qed

lemma pipe_items_cong: "pipes t p = pipes s p \<Longrightarrow> pipe_items t p = pipe_items s p \<and> pipe_ok t p = pipe_ok s p"
  by (simp add: pipe_items_def pipe_ok_def)

lemma pipes_wakeup [simp]: "pipes (wakeup ch s) = pipes s"
  by (simp add: wakeup_def)

lemma pipe_full:
  assumes "pipe_ok s p"
  shows "nwrite (pipes s p) = nread (pipes s p) + 512 \<longleftrightarrow> length (pipe_items s p) = 512"
  using pipe_ring.full [of "nread (pipes s p)" "nwrite (pipes s p)"] assms by (simp add: pipe_ok_def pipe_items_def)

lemma pipe_items_le: "pipe_ok s p \<Longrightarrow> length (pipe_items s p) \<le> 512"
  by (simp add: pipe_ok_def pipe_items_def pipe_ring.in_bounds_def)

definition push_byte :: "addr \<Rightarrow> u8 \<Rightarrow> 'a file_state_scheme \<Rightarrow> 'a file_state_scheme" where
  "push_byte p c s =
     upd_pipe p (\<lambda>x. x\<lparr>pdata := (pdata x)(nwrite x mod 512 := c), nwrite := nwrite x + 1\<rparr>) s"

lemma push_byte_items:
  assumes "pipe_ok s p" and "nwrite (pipes s p) \<noteq> nread (pipes s p) + 512"
  shows "pipe_ok (push_byte p c s) p \<and> pipe_items (push_byte p c s) p = pipe_items s p @ [c]"
proof -
  have "unat (nwrite (pipes s p) - nread (pipes s p)) < unat (512 :: u32)"
    using pipe_ring.not_full assms by (simp add: pipe_ok_def)
  then show ?thesis
    by (simp add: pipe_ok_def pipe_items_def push_byte_def upd_pipe_def pipe_ring.items_push pipe_ring.in_bounds_push)
qed

lemma pipewrite_items:
  assumes "pipe_ok s p" and "pipewrite me p n cs s = (r, rest, t)"
  shows "\<exists>sent. cs = sent @ rest \<and> pipe_ok t p \<and> pipe_items t p = pipe_items s p @ sent
    \<and> (if rest = [] then r = Done n
       else length (pipe_items t p) = 512 \<and>
         r = (if \<not> readopen (pipes s p) \<or> pkilled (ptable s me) then Done (- 1) else Block (ChPipeWrite p)))"
  using assms
proof (induction cs arbitrary: s)
  case Nil
  then show ?case
    using pipe_items_cong [of t p s] by auto
next
  case (Cons c cs)
  show ?case
  proof (cases "nwrite (pipes s p) = nread (pipes s p) + 512")
    case True
    then have "rest = c # cs" "pipes t p = pipes s p"
      "r = (if \<not> readopen (pipes s p) \<or> pkilled (ptable s me) then Done (- 1) else Block (ChPipeWrite p))"
      using Cons.prems(2) by (auto split: if_splits)
    then show ?thesis
      using pipe_full [OF Cons.prems(1)] True pipe_items_cong [of t p s] Cons.prems(1) by auto
  next
    case False
    then have w: "pipewrite me p n cs (push_byte p c s) = (r, rest, t)"
      using Cons.prems(2) by (simp add: push_byte_def Let_def)
    note push = push_byte_items [OF Cons.prems(1) False, of c]
    have same: "readopen (pipes (push_byte p c s) p) = readopen (pipes s p)" "ptable (push_byte p c s) = ptable s"
      by (simp_all add: push_byte_def upd_pipe_def)
    obtain sent where "cs = sent @ rest" "pipe_ok t p" "pipe_items t p = pipe_items s p @ [c] @ sent"
      "if rest = [] then r = Done n else length (pipe_items t p) = 512 \<and>
         r = (if \<not> readopen (pipes s p) \<or> pkilled (ptable s me) then Done (- 1) else Block (ChPipeWrite p))"
      using Cons.IH [OF _ w] push same by (metis append_assoc)
    then show ?thesis
      by (intro exI [of _ "c # sent"]) simp
  qed
qed

lemma piperead_loop_items:
  assumes "pipe_ok s p" and "piperead_loop p n s = (cs, t)"
  shows "cs = take n (pipe_items s p) \<and> pipe_items t p = drop n (pipe_items s p) \<and> pipe_ok t p"
  using assms
proof (induction n arbitrary: s cs)
  case (Suc n)
  let ?x = "pipes s p"
  let ?s = "upd_pipe p (\<lambda>x. x\<lparr>nread := nread x + 1\<rparr>) s"
  show ?case
  proof (cases "nread ?x = nwrite ?x")
    case True
    then have "pipe_items s p = []"
      by (simp add: pipe_items_def pipe_ring.items_empty)
    then show ?thesis
      using Suc.prems True by auto
  next
    case False
    have pop: "pipe_items s p = pdata ?x (nread ?x mod 512) # pipe_items ?s p" "pipe_ok ?s p"
      using pipe_ring.items_pop [OF False, of "pdata ?x"] pipe_ring.in_bounds_pop [OF _ False] Suc.prems(1)
      by (simp_all add: pipe_items_def pipe_ok_def upd_pipe_def)
    obtain cs' where "piperead_loop p n ?s = (cs', t)" "cs = pdata ?x (nread ?x mod 512) # cs'"
      using Suc.prems(2) False by (auto simp: Let_def split: prod.splits)
    then show ?thesis
      using Suc.IH [OF pop(2)] pop(1) by simp
  qed
qed auto

lemma piperead_items:
  assumes "pipe_ok s p" and "piperead me p n s = (r, cs, t)"
  shows "pipe_ok t p \<and> pipe_items s p = cs @ pipe_items t p"
proof (cases "nread (pipes s p) = nwrite (pipes s p) \<and> writeopen (pipes s p)")
  case True
  then show ?thesis
    using assms by (auto simp: piperead_def split: if_splits)
next
  case False
  obtain cs' u where u: "piperead_loop p (nat (sint n)) s = (cs', u)"
    by (cases "piperead_loop p (nat (sint n)) s")
  then have "cs = cs'" "t = wakeup (ChPipeWrite p) u"
    using assms(2) False by (auto simp: piperead_def)
  then show ?thesis
    using piperead_loop_items [OF assms(1) u] pipe_items_cong [of t p u] by simp
qed

section \<open>Properties\<close>

text \<open>
  The history of a pipe: the bytes that calls of \<^verbatim>\<open>pipewrite\<close> have taken from their buffers, and those
  that calls of \<^verbatim>\<open>piperead\<close> have delivered. Any process may call either, a sleeping call is continued
  by another step, and between the calls the rest of the system may do anything that leaves the
  pipe alone.
\<close>

inductive pipe_trace :: "addr \<Rightarrow> file_state \<Rightarrow> u8 list \<Rightarrow> u8 list \<Rightarrow> file_state \<Rightarrow> bool" for p s where
  trace_start: "pipe_trace p s [] [] s"
| trace_write: "pipe_trace p s ws rs t \<Longrightarrow> pipewrite me p n cs t = (r, rest, u) \<Longrightarrow>
    pipe_trace p s (ws @ take (length cs - length rest) cs) rs u"
| trace_read: "pipe_trace p s ws rs t \<Longrightarrow> piperead me p n t = (r, cs, u) \<Longrightarrow> pipe_trace p s ws (rs @ cs) u"
| trace_other: "pipe_trace p s ws rs t \<Longrightarrow> pipes u p = pipes t p \<Longrightarrow> pipe_trace p s ws rs u"

lemma pipe_trace_items:
  "pipe_trace p s ws rs t \<Longrightarrow> pipe_ok s p \<Longrightarrow> pipe_ok t p \<and> pipe_items s p @ ws = rs @ pipe_items t p"
proof (induction rule: pipe_trace.induct)
  case (trace_write ws rs t me n cs r rest u)
  then obtain sent where "cs = sent @ rest" "pipe_ok u p" "pipe_items u p = pipe_items t p @ sent"
    using pipewrite_items by blast
  moreover from this have "take (length cs - length rest) cs = sent"
    by simp
  ultimately show ?case
    using trace_write by simp
next
  case (trace_read ws rs t me n r cs u)
  then show ?case
    using piperead_items [OF _ trace_read.hyps(2)] by auto
next
  case (trace_other ws rs t u)
  then show ?case
    using pipe_items_cong by metis
qed auto

text \<open>
  C20. Pipes are queues. From the pipe that \<^verbatim>\<open>pipealloc\<close> makes, along every interleaving of reads and
  writes: what has been written is what has been read followed by what the pipe still holds, which
  is never more than 512 bytes.
\<close>

theorem pipe_fifo:
  assumes "nread (pipes s p) = 0" and "nwrite (pipes s p) = 0" and "pipe_trace p s ws rs t"
  shows "ws = rs @ pipe_items t p \<and> length (pipe_items t p) \<le> 512"
proof -
  have "pipe_ok s p" "pipe_items s p = []"
    using assms(1,2) by (simp_all add: pipe_ok_def pipe_ring.in_bounds_def pipe_items_def pipe_ring.items_empty)
  then show ?thesis
    using pipe_trace_items [OF assms(3)] pipe_items_le by auto
qed

theorem pipe_fifo_witness:
  "\<exists>t u. pipe_trace 0x80400000 machine [1, 2, 3] [1, 2] u \<and> [1, 2, 3] = [1, 2] @ pipe_items u 0x80400000
    \<and> pipewrite 0 0x80400000 3 [1, 2, 3] machine = (Done 3, [], t)"
proof -
  obtain t where t: "pipewrite 0 0x80400000 3 [1, 2, 3] machine = (Done 3, [], t)"
    by (simp add: upd_pipe_def new_pipe_def)
  then have "pipe_ok machine 0x80400000" "pipe_items machine 0x80400000 = []"
    by (simp_all add: pipe_ok_def pipe_ring.in_bounds_def pipe_items_def pipe_ring.items_empty new_pipe_def)
  then have items: "pipe_ok t 0x80400000" "pipe_items t 0x80400000 = [1, 2, 3]"
    using pipewrite_items [OF _ t] by auto
  then have "nread (pipes t 0x80400000) \<noteq> nwrite (pipes t 0x80400000)"
    by (auto simp: pipe_items_def pipe_ring.items_empty [THEN iffD2])
  then obtain u where u: "piperead 0 0x80400000 2 t = (Done 2, [1, 2], u)"
    using piperead_loop_items [OF items(1), of 2] items(2)
    by (cases "piperead_loop 0x80400000 2 t") (simp add: piperead_def)
  have "pipe_trace 0x80400000 machine [1, 2, 3] [1, 2] u"
    using trace_read [OF trace_write [OF trace_start t] u] by simp
  then show ?thesis
    using pipe_fifo [of machine "0x80400000"] t by (fastforce simp: new_pipe_def)
qed

text \<open>
  C21. A call of \<^verbatim>\<open>pipewrite\<close> either writes all it was given and returns its count, or fills the pipe and
  stops there: with \<open>-1\<close> when the reading end is closed or the caller has been killed, asleep
  otherwise. A call of \<^verbatim>\<open>piperead\<close> on a pipe that is not empty delivers as many bytes as it can and
  never sleeps; on an empty pipe whose writing end is closed it returns 0.
\<close>

theorem pipe_calls:
  assumes "pipe_ok s p"
  shows "(\<forall>r rest t. pipewrite me p n cs s = (r, rest, t) \<longrightarrow>
      (\<exists>sent. cs = sent @ rest \<and> pipe_items t p = pipe_items s p @ sent
        \<and> (if rest = [] then r = Done n
           else length (pipe_items t p) = 512 \<and>
             r = (if \<not> readopen (pipes s p) \<or> pkilled (ptable s me) then Done (- 1) else Block (ChPipeWrite p)))))
    \<and> (\<forall>r got t. piperead me p n s = (r, got, t) \<longrightarrow>
      (if pipe_items s p = [] \<and> writeopen (pipes s p)
       then got = [] \<and> r = (if pkilled (ptable s me) then Done (- 1) else Block (ChPipeRead p))
       else got = take (nat (sint n)) (pipe_items s p) \<and> r = Done (of_nat (length got))
         \<and> pipe_items t p = drop (nat (sint n)) (pipe_items s p)))"
proof (intro conjI allI impI)
  fix r rest t
  assume "pipewrite me p n cs s = (r, rest, t)"
  then show "\<exists>sent. cs = sent @ rest \<and> pipe_items t p = pipe_items s p @ sent
        \<and> (if rest = [] then r = Done n
           else length (pipe_items t p) = 512 \<and>
             r = (if \<not> readopen (pipes s p) \<or> pkilled (ptable s me) then Done (- 1) else Block (ChPipeWrite p)))"
    using pipewrite_items [OF assms] by blast
next
  fix r got t
  assume r: "piperead me p n s = (r, got, t)"
  have empty: "pipe_items s p = [] \<longleftrightarrow> nread (pipes s p) = nwrite (pipes s p)"
    by (simp add: pipe_items_def pipe_ring.items_empty)
  show "if pipe_items s p = [] \<and> writeopen (pipes s p)
       then got = [] \<and> r = (if pkilled (ptable s me) then Done (- 1) else Block (ChPipeRead p))
       else got = take (nat (sint n)) (pipe_items s p) \<and> r = Done (of_nat (length got))
         \<and> pipe_items t p = drop (nat (sint n)) (pipe_items s p)"
  proof (cases "pipe_items s p = [] \<and> writeopen (pipes s p)")
    case True
    then show ?thesis
      using r empty by (auto simp: piperead_def)
  next
    case False
    obtain cs' u where u: "piperead_loop p (nat (sint n)) s = (cs', u)"
      by (cases "piperead_loop p (nat (sint n)) s")
    then have "got = cs'" "t = wakeup (ChPipeWrite p) u" "r = Done (of_nat (length cs'))"
      using r False empty by (auto simp: piperead_def)
    then show ?thesis
      using False piperead_loop_items [OF assms u] pipe_items_cong [of t p u] by auto
  qed
qed

theorem pipe_calls_witness:
  "\<exists>sent. [7] = sent @ [] \<and> pipe_items (snd (snd (pipewrite 0 4096 1 [7] machine))) 4096 = pipe_items machine 4096 @ sent"
proof -
  have "pipe_ok machine 4096"
    by (simp add: pipe_ok_def pipe_ring.in_bounds_def new_pipe_def)
  moreover obtain t where "pipewrite 0 4096 1 [7] machine = (Done 1, [], t)"
    by (simp add: upd_pipe_def new_pipe_def)
  ultimately show ?thesis
    using pipe_calls [of machine 4096 0 1 "[7]"] by auto
qed

end
