(* ===== verification/BufCache.thy ===== *)
theory BufCache
  imports Bio
begin

text \<open>
  The buffer cache of \<^verbatim>\<open>bio.c\<close> refines a set of cached blocks with a list in the order of their last
  use: the pointers of \<^verbatim>\<open>bcache\<close> always form one ring through all thirty buffers, no block has two
  buffers, and what \<^verbatim>\<open>bread\<close> delivers is the current contents of the block, from the cache or the
  disk.
\<close>

section \<open>The ring\<close>

fun path :: "(nat \<Rightarrow> nat) \<Rightarrow> nat list \<Rightarrow> bool" where
  "path f (x # y # r) \<longleftrightarrow> f x = y \<and> path f (y # r)"
| "path f _ \<longleftrightarrow> True"

lemma path_append: "path f (xs @ y # ys) \<longleftrightarrow> path f (xs @ [y]) \<and> path f (y # ys)"
proof (induction xs)
  case (Cons x xs)
  then show ?case
    by (cases xs) auto
qed simp

lemma path_upd: "x \<notin> set (butlast xs) \<Longrightarrow> path (f(x := y)) xs \<longleftrightarrow> path f xs"
proof (induction xs)
  case (Cons z xs)
  then show ?case
    by (cases xs) auto
qed simp

lemma path_join: "path f (xs @ [x]) \<Longrightarrow> f x = y \<Longrightarrow> path f (y # ys) \<Longrightarrow> path f ((xs @ [x]) @ y # ys)"
  using path_append [of f xs x "y # ys"] by simp

abbreviation nexts :: "'a bio_state_scheme \<Rightarrow> nat \<Rightarrow> nat" where
  "nexts s \<equiv> \<lambda>b. bnext (bbuf s b)"

abbreviation prevs :: "'a bio_state_scheme \<Rightarrow> nat \<Rightarrow> nat" where
  "prevs s \<equiv> \<lambda>b. bprev (bbuf s b)"

definition lru :: "'a bio_state_scheme \<Rightarrow> nat list \<Rightarrow> bool" where
  "lru s bs \<longleftrightarrow> path (nexts s) (HEAD # bs @ [HEAD]) \<and> path (prevs s) (HEAD # rev bs @ [HEAD])"

lemma find_buf_path:
  assumes "path (\<lambda>b. nxt (B b)) (x # bs @ [HEAD])" and "HEAD \<notin> set bs" and "length bs \<le> n"
  shows "find_buf (Suc n) nxt P B (nxt (B x)) = Inr (find (\<lambda>b. P (B b)) bs)"
  using assms
proof (induction bs arbitrary: x n)
  case (Cons b bs)
  then obtain m where "n = Suc m"
    by (cases n) auto
  with Cons show ?case
    by (simp add: Cons.IH [of b m] del: find_buf.simps(1))
qed simp

lemma find_buf_lru:
  assumes "lru s bs" and "HEAD \<notin> set bs" and "length bs = NBUF"
  shows "find_buf (Suc NBUF) bnext P (bbuf s) (bnext (bbuf s HEAD)) = Inr (find (\<lambda>b. P (bbuf s b)) bs)"
    and "find_buf (Suc NBUF) bprev P (bbuf s) (bprev (bbuf s HEAD)) = Inr (find (\<lambda>b. P (bbuf s b)) (rev bs))"
  using find_buf_path [of bnext "bbuf s" HEAD bs NBUF P] find_buf_path [of bprev "bbuf s" HEAD "rev bs" NBUF P] assms
  by (simp_all add: lru_def)

section \<open>Changing the ring\<close>

text \<open>What a buffer is apart from its place in the ring.\<close>

definition core :: "buf \<Rightarrow> buf" where
  "core k = k\<lparr>bprev := 0, bnext := 0\<rparr>"

lemma core_eqD:
  "core k = core l \<Longrightarrow> bflags k = bflags l \<and> bdev k = bdev l \<and> bblockno k = bblockno l \<and> block_lock k = block_lock l
    \<and> brefcnt k = brefcnt l \<and> bdata k = bdata l"
  by (cases k; cases l) (simp add: core_def)

lemma core_links [simp]: "core (k\<lparr>bprev := x\<rparr>) = core k" "core (k\<lparr>bnext := x\<rparr>) = core k"
  by (simp_all add: core_def)

lemma bbuf_upd [simp]: "bbuf (upd_buf b f s) = (bbuf s)(b := f (bbuf s b))"
  by (simp add: upd_buf_def)

lemma lru_cong: "nexts t = nexts s \<Longrightarrow> prevs t = prevs s \<Longrightarrow> lru t bs \<longleftrightarrow> lru s bs"
  by (simp add: lru_def)

lemma lru_upd: "bnext (f (bbuf s b)) = bnext (bbuf s b) \<Longrightarrow> bprev (f (bbuf s b)) = bprev (bbuf s b)
    \<Longrightarrow> lru (upd_buf b f s) bs \<longleftrightarrow> lru s bs"
  by (rule lru_cong) auto

text \<open>Insertion after the head, as in \<^verbatim>\<open>binit\<close> and at the end of \<^verbatim>\<open>brelse\<close>.\<close>

lemma link_buf_nexts:
  "b \<noteq> HEAD \<Longrightarrow> nexts (link_buf b s) = (nexts s)(b := bnext (bbuf s HEAD), HEAD := b)"
  by (auto simp: link_buf_def Let_def)

lemma link_buf_prevs:
  "b \<noteq> HEAD \<Longrightarrow> bnext (bbuf s HEAD) \<noteq> b \<Longrightarrow>
    prevs (link_buf b s) = (prevs s)(b := HEAD, bnext (bbuf s HEAD) := b)"
  by (auto simp: link_buf_def Let_def)

lemma link_buf_core [simp]: "core (bbuf (link_buf b s) x) = core (bbuf s x)"
  by (simp add: link_buf_def Let_def)

lemma link_buf_lru:
  assumes "lru s bs" and "b \<notin> set bs" and "b \<noteq> HEAD" and "HEAD \<notin> set bs" and "distinct bs"
  shows "lru (link_buf b s) (b # bs)"
proof -
  obtain y ys where y: "bs @ [HEAD] = y # ys"
    by (cases "bs @ [HEAD]") auto
  then have head: "bnext (bbuf s HEAD) = y" "path (nexts s) (y # ys)"
    using assms(1) by (auto simp: lru_def)
  have ne: "y \<noteq> b" "b \<notin> set (y # ys)"
    using y assms(2,3) by (metis Un_iff empty_iff insert_iff list.set(2) set_append list.set(1))+
  have "HEAD \<notin> set (butlast (y # ys))" "b \<notin> set (butlast (y # ys))"
    using assms(4) ne(2) in_set_butlastD [of b "y # ys"] by (auto simp flip: y)
  then have "path (nexts (link_buf b s)) (HEAD # b # bs @ [HEAD])"
    using head assms(3) by (simp add: y link_buf_nexts path_upd)
  moreover have "path (prevs (link_buf b s)) ((HEAD # rev bs) @ [b, HEAD])"
  proof -
    obtain xs where xs: "HEAD # rev bs = xs @ [y]" "y \<notin> set xs"
    proof (cases bs)
      case Nil
      then show thesis
        using y that [of "[]"] by simp
    next
      case (Cons z zs)
      then show thesis
        using y assms(4,5) that [of "HEAD # rev zs"] by simp
    qed
    have "path (prevs s) ((HEAD # rev bs) @ [HEAD])"
      using assms(1) by (simp add: lru_def)
    then have "path (prevs s) (xs @ [y])"
      unfolding xs(1) using path_append [of "prevs s" xs y "[HEAD]"] by simp
    moreover have "b \<notin> set (xs @ [y])"
      using xs(1) assms(2,3) by (metis insert_iff list.set(2) set_rev)
    ultimately have "path ((prevs s)(b := HEAD, y := b)) (xs @ [y])"
      using xs(2) by (simp add: path_upd)
    then have "path ((prevs s)(b := HEAD, y := b)) ((xs @ [y]) @ b # [HEAD])"
      using ne(1) by (intro path_join) simp_all
    then show ?thesis
      using head(1) ne(1) assms(3) xs(1) by (simp add: link_buf_prevs)
  qed
  ultimately show ?thesis
    by (simp add: lru_def)
qed

text \<open>Removal, as in \<^verbatim>\<open>brelse\<close>.\<close>

definition unlink_buf :: "nat \<Rightarrow> 'a bio_state_scheme \<Rightarrow> 'a bio_state_scheme" where
  "unlink_buf b s =
     (let s = upd_buf (bnext (bbuf s b)) (\<lambda>k. k\<lparr>bprev := bprev (bbuf s b)\<rparr>) s
      in upd_buf (bprev (bbuf s b)) (\<lambda>k. k\<lparr>bnext := bnext (bbuf s b)\<rparr>) s)"

lemma unlink_buf_core [simp]: "core (bbuf (unlink_buf b s) x) = core (bbuf s x)"
  by (simp add: unlink_buf_def Let_def)

lemma path_unlink:
  assumes "path f ((us @ [x]) @ b # y # vs)" and "x \<notin> set us" and "x \<notin> set (butlast (y # vs))"
  shows "path (f(x := y)) ((us @ [x]) @ y # vs)"
proof -
  have "path f (us @ [x])" "path f (y # vs)"
    using assms(1) path_append [of f us x "b # y # vs"] by simp_all
  then show ?thesis
    using assms(2,3) by (intro path_join) (simp_all add: path_upd)
qed

lemma unlink_buf_lru:
  assumes "lru s (pre @ b # post)" and "distinct (pre @ b # post)" and "HEAD \<notin> set (pre @ b # post)"
  shows "lru (unlink_buf b s) (pre @ post)"
proof -
  obtain us x where x: "HEAD # pre = us @ [x]"
    by (metis append_butlast_last_id list.distinct(1))
  obtain y vs where y: "post @ [HEAD] = y # vs"
    by (cases "post @ [HEAD]") auto
  have rx: "rev pre @ [HEAD] = x # rev us" and ry: "HEAD # rev post = rev vs @ [y]"
    using arg_cong [OF x, of rev] arg_cong [OF y, of rev] by simp_all
  have n: "path (nexts s) ((us @ [x]) @ b # y # vs)"
    using assms(1) by (simp add: lru_def flip: x y)
  have p: "path (prevs s) ((rev vs @ [y]) @ b # x # rev us)"
    using assms(1) by (simp add: lru_def flip: rx ry)
  have links: "bnext (bbuf s b) = y" "bprev (bbuf s b) = x"
    using n p path_append [of "nexts s" "us @ [x]" b "y # vs"] path_append [of "prevs s" "rev vs @ [y]" b "x # rev us"]
    by simp_all
  have "b \<notin> set (us @ [x])" "b \<notin> set (y # vs)" "distinct (us @ [x])" "distinct (y # vs)"
    using assms(2,3) by (simp_all flip: x y)
  moreover have "x \<notin> set (butlast (y # vs))" "y \<notin> set (butlast (x # rev us))"
  proof -
    have "x \<in> set (HEAD # pre)" "y \<in> set (HEAD # rev post)"
      unfolding x ry by simp_all
    then show "x \<notin> set (butlast (y # vs))" "y \<notin> set (butlast (x # rev us))"
      using assms(2,3) by (auto simp: butlast_append simp flip: y rx)
  qed
  ultimately have "path ((nexts s)(x := y)) ((us @ [x]) @ y # vs)" "path ((prevs s)(y := x)) ((rev vs @ [y]) @ x # rev us)"
    using path_unlink [OF n] path_unlink [OF p] by simp_all
  moreover have "nexts (unlink_buf b s) = (nexts s)(x := y)" "prevs (unlink_buf b s) = (prevs s)(y := x)"
    using links \<open>b \<notin> set (us @ [x])\<close> \<open>b \<notin> set (y # vs)\<close> by (auto simp: unlink_buf_def Let_def)
  moreover have "(us @ [x]) @ y # vs = HEAD # (pre @ post) @ [HEAD]" "(rev vs @ [y]) @ x # rev us = HEAD # rev (pre @ post) @ [HEAD]"
    by (simp_all flip: x y rx ry)
  ultimately show ?thesis
    unfolding lru_def by simp
qed

section \<open>The invariant\<close>

text \<open>
  A buffer is unused, valid, or valid and dirty. It is referenced exactly while it is locked, a
  locked buffer is in use, and one that is clean and not locked agrees with the disk.
\<close>

definition slot_ok :: "(u32 \<Rightarrow> block) \<Rightarrow> buf \<Rightarrow> bool" where
  "slot_ok D k \<longleftrightarrow> bflags k \<in> {0, 2, 6} \<and> bdev k = (if bflags k = 0 then 0 else 1)
     \<and> brefcnt k = (if sl_locked (block_lock k) then 1 else 0) \<and> (sl_locked (block_lock k) \<longrightarrow> bflags k \<noteq> 0)
     \<and> (bflags k = 2 \<and> \<not> sl_locked (block_lock k) \<longrightarrow> bdata k = D (bblockno k))"

definition cache_ok :: "nat list \<Rightarrow> 'a bio_state_scheme \<Rightarrow> bool" where
  "cache_ok bs s \<longleftrightarrow> lru s bs \<and> distinct bs \<and> set bs = {0..<NBUF} \<and> (\<forall>b<NBUF. slot_ok (disk s) (bbuf s b))
     \<and> (\<forall>b<NBUF. \<forall>b'<NBUF. bflags (bbuf s b) \<noteq> 0 \<and> bflags (bbuf s b') \<noteq> 0
          \<and> bblockno (bbuf s b) = bblockno (bbuf s b') \<longrightarrow> b = b')"

definition cached :: "'a bio_state_scheme \<Rightarrow> u32 \<Rightarrow> nat option" where
  "cached s n = find (\<lambda>b. bflags (bbuf s b) \<noteq> 0 \<and> bblockno (bbuf s b) = n) [0..<NBUF]"

text \<open>The contents of a block as the kernel sees it.\<close>

definition view :: "'a bio_state_scheme \<Rightarrow> u32 \<Rightarrow> block" where
  "view s n = (case cached s n of Some b \<Rightarrow> bdata (bbuf s b) | None \<Rightarrow> disk s n)"

abbreviation idle :: "buf \<Rightarrow> bool" where
  "idle k \<equiv> brefcnt k = 0 \<and> bflags k AND B_DIRTY = 0"

lemma slot_okD:
  assumes "slot_ok D k"
  shows "bflags k = 0 \<or> bflags k = 2 \<or> bflags k = 6"
    and "bdev k = (if bflags k = 0 then 0 else 1)"
    and "brefcnt k = (if sl_locked (block_lock k) then 1 else 0)"
    and "sl_locked (block_lock k) \<Longrightarrow> bflags k \<noteq> 0"
    and "bflags k = 2 \<Longrightarrow> \<not> sl_locked (block_lock k) \<Longrightarrow> bdata k = D (bblockno k)"
  using assms by (auto simp: slot_ok_def)

lemma cache_okD:
  assumes "cache_ok bs s"
  shows "lru s bs" and "distinct bs" and "set bs = {0..<NBUF}" and "length bs = NBUF" and "HEAD \<notin> set bs"
    and "b < NBUF \<Longrightarrow> slot_ok (disk s) (bbuf s b)"
    and "b < NBUF \<Longrightarrow> b' < NBUF \<Longrightarrow> bflags (bbuf s b) \<noteq> 0 \<Longrightarrow> bflags (bbuf s b') \<noteq> 0
      \<Longrightarrow> bblockno (bbuf s b) = bblockno (bbuf s b') \<Longrightarrow> b = b'"
proof -
  show "length bs = NBUF"
    using assms distinct_card [of bs] by (simp add: cache_ok_def)
qed (use assms in \<open>auto simp: cache_ok_def\<close>)

lemma find_unique:
  assumes "b \<in> set xs" and "P b" and "\<And>c. c \<in> set xs \<Longrightarrow> P c \<Longrightarrow> c = b"
  shows "find P xs = Some b"
proof (cases "find P xs")
  case None
  then show ?thesis
    using assms(1,2) by (auto simp: find_None_iff)
next
  case (Some c)
  then have "c \<in> set xs" "P c"
    by (auto simp: find_Some_iff)
  then show ?thesis
    using Some assms(3) by simp
qed

lemma find_SomeD: "find P xs = Some x \<Longrightarrow> x \<in> set xs \<and> P x"
  by (auto simp: find_Some_iff)

lemma cached_SomeD: "cached s n = Some b \<Longrightarrow> b < NBUF \<and> bflags (bbuf s b) \<noteq> 0 \<and> bblockno (bbuf s b) = n"
  by (auto simp: cached_def find_Some_iff)

lemma cached_None: "cached s n = None \<longleftrightarrow> (\<forall>b<NBUF. bflags (bbuf s b) \<noteq> 0 \<longrightarrow> bblockno (bbuf s b) \<noteq> n)"
  by (auto simp: cached_def find_None_iff)

lemma cached_SomeI:
  assumes "cache_ok bs s" and "b < NBUF" and "bflags (bbuf s b) \<noteq> 0"
  shows "cached s (bblockno (bbuf s b)) = Some b"
  unfolding cached_def using cache_okD(7) [OF assms(1)] assms by (intro find_unique) auto

lemma cached_eq_find:
  assumes "cache_ok bs s"
  shows "find (\<lambda>b. bdev (bbuf s b) = 1 \<and> bblockno (bbuf s b) = n) bs = cached s n"
proof -
  have dev: "bdev (bbuf s b) = 1 \<longleftrightarrow> bflags (bbuf s b) \<noteq> 0" if "b < NBUF" for b
    using slot_okD(2) [OF cache_okD(6) [OF assms that]] by simp
  show ?thesis
  proof (cases "cached s n")
    case None
    then have "find (\<lambda>b. bdev (bbuf s b) = 1 \<and> bblockno (bbuf s b) = n) bs = None"
      using cache_okD(3) [OF assms] dev by (auto simp: cached_None find_None_iff)
    with None show ?thesis
      by simp
  next
    case (Some b)
    note b = cached_SomeD [OF Some]
    then have "find (\<lambda>b. bdev (bbuf s b) = 1 \<and> bblockno (bbuf s b) = n) bs = Some b"
      using cache_okD(3,7) [OF assms] dev by (intro find_unique) auto
    with Some show ?thesis
      by simp
  qed
qed

section \<open>Reading\<close>

definition take_lock :: "nat \<Rightarrow> 'a bio_state_scheme \<Rightarrow> buf \<Rightarrow> buf" where
  "take_lock me s k = k\<lparr>brefcnt := 1, block_lock := \<lparr>sl_locked = True, sl_pid = pid (ptable s me)\<rparr>\<rparr>"

definition load_block :: "nat \<Rightarrow> u32 \<Rightarrow> 'a bio_state_scheme \<Rightarrow> buf \<Rightarrow> buf" where
  "load_block me n s k =
     k\<lparr>bdev := 1, bblockno := n, brefcnt := 1, block_lock := \<lparr>sl_locked = True, sl_pid = pid (ptable s me)\<rparr>,
       bdata := disk s n, bflags := 2\<rparr>"

lemma upd_upd [simp]: "upd_buf b f (upd_buf b g s) = upd_buf b (\<lambda>k. f (g k)) s"
  by (simp add: upd_buf_def)

lemma lock_buf_eq:
  "lock_buf me b (upd_buf b f s) =
     (if sl_locked (block_lock (f (bbuf s b))) then Inl (Sleep (ChBuf b))
      else Inr (b, upd_buf b (\<lambda>k. (f k)\<lparr>block_lock := \<lparr>sl_locked = True, sl_pid = pid (ptable s me)\<rparr>\<rparr>) s))"
  by (cases "block_lock (f (bbuf s b))") (simp add: lock_buf_def acquiresleep_def upd_buf_def)

lemma bget_eq:
  assumes "cache_ok bs s"
  shows "bget me 1 n s =
    (case cached s n of
       Some b \<Rightarrow> lock_buf me b (upd_buf b (\<lambda>k. k\<lparr>brefcnt := brefcnt k + 1\<rparr>) s)
     | None \<Rightarrow>
         (case find (\<lambda>b. idle (bbuf s b)) (rev bs) of
            Some b \<Rightarrow> lock_buf me b (upd_buf b (\<lambda>k. k\<lparr>bdev := 1, bblockno := n, bflags := 0, brefcnt := 1\<rparr>) s)
          | None \<Rightarrow> Inl (Panic ''bget: no buffers'')))"
  unfolding bget_def find_buf_lru [OF cache_okD(1,5,4) [OF assms]]
  by (simp add: cached_eq_find [OF assms] split: option.split)

lemma bread_eq:
  assumes "cache_ok bs s" and "n < disksize s"
  shows "bread me 1 n s =
    (case cached s n of
       Some b \<Rightarrow> if sl_locked (block_lock (bbuf s b)) then Inl (Sleep (ChBuf b)) else Inr (b, upd_buf b (take_lock me s) s)
     | None \<Rightarrow>
         (case find (\<lambda>b. idle (bbuf s b)) (rev bs) of
            Some b \<Rightarrow> Inr (b, upd_buf b (load_block me n s) s)
          | None \<Rightarrow> Inl (Panic ''bget: no buffers'')))"
proof (cases "cached s n")
  case (Some b)
  then have "b < NBUF"
    using cached_SomeD by blast
  note k = slot_okD [OF cache_okD(6) [OF assms(1) this]]
  show ?thesis
    unfolding bread_def bget_eq [OF assms(1)] lock_buf_eq using Some k(1,3) cached_SomeD [OF Some]
    by (auto simp: take_lock_def upd_buf_def)
next
  case None
  show ?thesis
  proof (cases "find (\<lambda>b. idle (bbuf s b)) (rev bs)")
    case (Some b)
    then have b: "b < NBUF" "brefcnt (bbuf s b) = 0"
      using find_SomeD [OF Some] cache_okD(3) [OF assms(1)] by auto
    note k = slot_okD [OF cache_okD(6) [OF assms(1) b(1)]]
    have "\<not> sl_locked (block_lock (bbuf s b))"
      using k(3) b(2) by (auto split: if_splits)
    then show ?thesis
      unfolding bread_def bget_eq [OF assms(1)] lock_buf_eq using Some None assms(2)
      by (simp add: load_block_def upd_buf_def iderw_def holdingsleep_def set_data_def Let_def not_le)
  qed (use None in \<open>simp add: bread_def bget_eq [OF assms(1)]\<close>)
qed


text \<open>What clients rely on: who holds a buffer, and which blocks are dirty or busy.\<close>

definition holds :: "nat \<Rightarrow> nat \<Rightarrow> u32 \<Rightarrow> 'a bio_state_scheme \<Rightarrow> bool" where
  "holds me b n s \<longleftrightarrow> b < NBUF \<and> bflags (bbuf s b) \<noteq> 0 \<and> bblockno (bbuf s b) = n
     \<and> block_lock (bbuf s b) = \<lparr>sl_locked = True, sl_pid = pid (ptable s me)\<rparr>"

definition busy :: "'a bio_state_scheme \<Rightarrow> nat set" where
  "busy s = {b. b < NBUF \<and> sl_locked (block_lock (bbuf s b))}"

definition dirty :: "'a bio_state_scheme \<Rightarrow> u32 set" where
  "dirty s = {n. \<exists>b<NBUF. bflags (bbuf s b) = 6 \<and> bblockno (bbuf s b) = n}"

lemma upd_buf_sel [simp]:
  "disk (upd_buf b f s) = disk s" "disksize (upd_buf b f s) = disksize s" "ptable (upd_buf b f s) = ptable s"
  "disk_writes (upd_buf b f s) = disk_writes s"
  by (simp_all add: upd_buf_def)

lemma cache_ok_upd:
  assumes "cache_ok bs s" and "b < NBUF" and "slot_ok (disk s) (f (bbuf s b))"
    and "bnext (f (bbuf s b)) = bnext (bbuf s b)" and "bprev (f (bbuf s b)) = bprev (bbuf s b)"
    and "bflags (f (bbuf s b)) \<noteq> 0 \<Longrightarrow>
      (bflags (bbuf s b) \<noteq> 0 \<and> bblockno (f (bbuf s b)) = bblockno (bbuf s b)) \<or> cached s (bblockno (f (bbuf s b))) = None"
  shows "cache_ok bs (upd_buf b f s)"
proof -
  have other: "bblockno (bbuf s c) \<noteq> bblockno (f (bbuf s b))"
    if "c < NBUF" "c \<noteq> b" "bflags (bbuf s c) \<noteq> 0" "bflags (f (bbuf s b)) \<noteq> 0" for c
    using assms(6) [OF that(4)] cache_okD(7) [OF assms(1) that(1) assms(2) that(3)] that(1-3) by (auto simp: cached_None)
  then show ?thesis
    using assms(1-5) lru_upd [of f s b bs] cache_okD(7) [OF assms(1)]
    by (simp add: cache_ok_def) (metis (no_types, lifting))
qed

lemma cache_ok_same:
  assumes "cache_ok bs s" and "lru t cs" and "distinct cs" and "set cs = {0..<NBUF}"
    and "\<And>b. b < NBUF \<Longrightarrow> slot_ok (disk t) (bbuf t b)"
    and "\<And>b. b < NBUF \<Longrightarrow> (bflags (bbuf t b) \<noteq> 0) = (bflags (bbuf s b) \<noteq> 0) \<and> bblockno (bbuf t b) = bblockno (bbuf s b)"
  shows "cache_ok cs t"
  using assms(2-6) cache_okD(7) [OF assms(1)] unfolding cache_ok_def by simp

lemma view_cached:
  assumes "cache_ok bs s" and "b < NBUF" and "bflags (bbuf s b) \<noteq> 0" and "bblockno (bbuf s b) = n"
  shows "view s n = bdata (bbuf s b)"
  using cached_SomeI [OF assms(1-3)] assms(4) by (simp add: view_def)

lemma view_uncached: "\<forall>b<NBUF. bflags (bbuf s b) \<noteq> 0 \<longrightarrow> bblockno (bbuf s b) \<noteq> n \<Longrightarrow> view s n = disk s n"
  by (simp add: view_def flip: cached_None)

lemma view_holder:
  assumes "cache_ok bs s" and "holds me b n s"
  shows "view s n = bdata (bbuf s b)"
  using assms(2) by (intro view_cached [OF assms(1)]) (simp_all add: holds_def)

lemma cached_upd:
  assumes "cache_ok bs s" and "cache_ok bs (upd_buf b f s)" and "b < NBUF" and "bflags (bbuf s b) \<noteq> 0"
    and "bflags (f (bbuf s b)) \<noteq> 0" and "bblockno (f (bbuf s b)) = bblockno (bbuf s b)"
  shows "cached (upd_buf b f s) n = cached s n"
proof (cases "n = bblockno (bbuf s b)")
  case True
  then show ?thesis
    using cached_SomeI [OF assms(1,3,4)] cached_SomeI [OF assms(2,3)] assms(5,6) by simp
next
  case False
  have "bflags (bbuf (upd_buf b f s) c) \<noteq> 0 \<and> bblockno (bbuf (upd_buf b f s) c) = n \<longleftrightarrow>
    bflags (bbuf s c) \<noteq> 0 \<and> bblockno (bbuf s c) = n" for c
    using False assms(4-6) by auto
  then show ?thesis
    by (simp only: cached_def)
qed

lemma view_upd:
  assumes "cache_ok bs s" and "cache_ok bs (upd_buf b f s)" and "b < NBUF" and "bflags (bbuf s b) \<noteq> 0"
    and "bflags (f (bbuf s b)) \<noteq> 0" and "bblockno (f (bbuf s b)) = bblockno (bbuf s b)"
  shows "view (upd_buf b f s) = (view s)(bblockno (bbuf s b) := bdata (f (bbuf s b)))"
proof
  fix n
  show "view (upd_buf b f s) n = ((view s)(bblockno (bbuf s b) := bdata (f (bbuf s b)))) n"
  proof (cases "n = bblockno (bbuf s b)")
    case True
    then show ?thesis
      using cached_SomeI [OF assms(1,3,4)] by (simp add: view_def cached_upd [OF assms])
  next
    case False
    then have "cached s n \<noteq> Some b"
      using cached_SomeD by blast
    with False show ?thesis
      by (auto simp: view_def cached_upd [OF assms] split: option.split)
  qed
qed

lemma slot_take_lock [simp]:
  "slot_ok D k \<Longrightarrow> bflags k \<noteq> 0 \<Longrightarrow> slot_ok D (take_lock me s k)"
  by (simp add: slot_ok_def take_lock_def)

lemma take_lock_sel [simp]:
  "bflags (take_lock me s k) = bflags k" "bblockno (take_lock me s k) = bblockno k" "bdata (take_lock me s k) = bdata k"
  "bnext (take_lock me s k) = bnext k" "bprev (take_lock me s k) = bprev k"
  "block_lock (take_lock me s k) = \<lparr>sl_locked = True, sl_pid = pid (ptable s me)\<rparr>"
  by (simp_all add: take_lock_def)

text \<open>\<^verbatim>\<open>bread\<close> returns a locked buffer with the block's contents, and changes nothing of what is stored.\<close>

lemma bread_ok:
  assumes "cache_ok bs s" and "n < disksize s" and "bread me 1 n s = Inr (b, t)"
  shows "cache_ok bs t" and "holds me b n t" and "bdata (bbuf t b) = view s n" and "view t = view s"
    and "\<exists>f. t = upd_buf b f s" and "b \<notin> busy s" and "busy t = insert b (busy s)" and "dirty t = dirty s"
proof -
  consider (hit) "cached s n = Some b" "\<not> sl_locked (block_lock (bbuf s b))" "t = upd_buf b (take_lock me s) s"
    | (miss) "cached s n = None" "find (\<lambda>b. idle (bbuf s b)) (rev bs) = Some b" "t = upd_buf b (load_block me n s) s"
    using assms by (auto simp: bread_eq split: option.splits if_splits)
  then have "cache_ok bs t \<and> holds me b n t \<and> bdata (bbuf t b) = view s n \<and> view t = view s
    \<and> (\<exists>f. t = upd_buf b f s) \<and> b \<notin> busy s \<and> busy t = insert b (busy s) \<and> dirty t = dirty s"
  proof cases
    case hit
    note b = cached_SomeD [OF hit(1)]
    have ok: "cache_ok bs t"
      unfolding hit(3) using b cache_okD(6) [OF assms(1)] by (intro cache_ok_upd [OF assms(1)]) simp_all
    moreover have "view t = view s"
      unfolding hit(3) using b ok hit by (subst view_upd [OF assms(1)]) (auto simp: view_def fun_eq_iff)
    moreover have "dirty t = dirty s"
      unfolding hit(3) using b by (auto simp: dirty_def)
    ultimately show ?thesis
      using b hit by (auto simp: holds_def busy_def view_def)
  next
    case miss
    have b: "b < NBUF" "idle (bbuf s b)"
      using find_SomeD [OF miss(2)] cache_okD(3) [OF assms(1)] by auto
    have unlocked: "\<not> sl_locked (block_lock (bbuf s b))" "bflags (bbuf s b) \<noteq> 6"
      using b slot_okD(3) [OF cache_okD(6) [OF assms(1) b(1)]] by auto
    have ok: "cache_ok bs t"
      unfolding miss(3) using b miss(1)
      by (intro cache_ok_upd [OF assms(1)]) (simp_all add: load_block_def slot_ok_def)
    have b': "b < NBUF" "bflags (bbuf t b) \<noteq> 0" "bblockno (bbuf t b) = n"
      using b by (simp_all add: miss(3) load_block_def)
    have same: "bbuf t c = bbuf s c" if "c \<noteq> b" for c
      using that by (simp add: miss(3))
    have "view t m = view s m" for m
    proof (cases "m = n")
      case True
      then show ?thesis
        using view_cached [OF ok b'] miss(1) by (simp add: miss(3) view_def load_block_def)
    next
      case False
      show ?thesis
      proof (cases "\<exists>c<NBUF. c \<noteq> b \<and> bflags (bbuf s c) \<noteq> 0 \<and> bblockno (bbuf s c) = m")
        case True
        then show ?thesis
          using view_cached [OF ok] view_cached [OF assms(1)] same by metis
      next
        case none: False
        then have "\<forall>c<NBUF. bflags (bbuf t c) \<noteq> 0 \<longrightarrow> bblockno (bbuf t c) \<noteq> m"
          using False b' same by metis
        then have "view t m = disk s m"
          using view_uncached [of t m] by (simp add: miss(3))
        moreover have "view s m = disk s m"
        proof (cases "bflags (bbuf s b) \<noteq> 0 \<and> bblockno (bbuf s b) = m")
          case True
          then show ?thesis
            using view_cached [OF assms(1) b(1)] slot_okD(1,5) [OF cache_okD(6) [OF assms(1) b(1)]] unlocked by auto
        next
          case False
          then show ?thesis
            using none by (intro view_uncached) blast
        qed
        ultimately show ?thesis
          by simp
      qed
    qed
    then have "view t = view s"
      by blast
    moreover have "dirty t = dirty s"
      unfolding miss(3) using b unlocked by (auto simp: dirty_def load_block_def)
    ultimately show ?thesis
      using b b' ok miss unlocked by (auto simp: holds_def busy_def view_def load_block_def)
  qed
  then show "cache_ok bs t" and "holds me b n t" and "bdata (bbuf t b) = view s n" and "view t = view s"
    and "\<exists>f. t = upd_buf b f s" and "b \<notin> busy s" and "busy t = insert b (busy s)" and "dirty t = dirty s"
    by blast+
qed


text \<open>It sleeps only for a block someone holds, and finds no buffer only when all are dirty or held.\<close>

lemma bread_returns:
  assumes "cache_ok bs s" and "n < disksize s" and "\<And>b. cached s n = Some b \<Longrightarrow> b \<notin> busy s"
    and "cached s n \<noteq> None \<or> (\<exists>b<NBUF. b \<notin> busy s \<and> bflags (bbuf s b) \<noteq> 6)"
  shows "\<exists>b t. bread me 1 n s = Inr (b, t)"
proof (cases "cached s n")
  case (Some b)
  then show ?thesis
    using assms cached_SomeD [OF Some] by (auto simp: bread_eq busy_def)
next
  case None
  then obtain b where b: "b < NBUF" "b \<notin> busy s" "bflags (bbuf s b) \<noteq> 6"
    using assms(4) by blast
  have "idle (bbuf s b)"
    using b slot_okD(1,3) [OF cache_okD(6) [OF assms(1) b(1)]] by (auto simp: busy_def)
  then have "find (\<lambda>b. idle (bbuf s b)) (rev bs) \<noteq> None"
    using cache_okD(3) [OF assms(1)] b(1) by (auto simp: find_None_iff)
  then show ?thesis
    using None by (auto simp: bread_eq [OF assms(1,2)])
qed

section \<open>Changing and writing a held buffer\<close>

lemma slot_holder:
  assumes "cache_ok bs s" and "holds me b n s"
  shows "b < NBUF" "bflags (bbuf s b) = 2 \<or> bflags (bbuf s b) = 6" "bdev (bbuf s b) = 1" "brefcnt (bbuf s b) = 1"
    "bblockno (bbuf s b) = n" "holdingsleep me (block_lock (bbuf s b)) s" "sl_locked (block_lock (bbuf s b))"
    "cached s n = Some b"
  using assms slot_okD(1,2,3) [OF cache_okD(6) [OF assms(1)], of b] cached_SomeI [OF assms(1), of b]
  by (auto simp: holds_def holdingsleep_def)

lemma set_data_ok:
  assumes "cache_ok bs s" and "holds me b n s"
  shows "cache_ok bs (set_data b d s)" and "holds me b n (set_data b d s)" and "view (set_data b d s) = (view s)(n := d)"
    and "busy (set_data b d s) = busy s" and "dirty (set_data b d s) = dirty s"
proof -
  note h = slot_holder [OF assms]
  show ok: "cache_ok bs (set_data b d s)"
    unfolding set_data_def using h cache_okD(6) [OF assms(1) h(1)]
    by (intro cache_ok_upd [OF assms(1)]) (auto simp: slot_ok_def)
  show "holds me b n (set_data b d s)" "busy (set_data b d s) = busy s" "dirty (set_data b d s) = dirty s"
    using assms(2) by (auto simp: holds_def set_data_def busy_def dirty_def)
  show "view (set_data b d s) = (view s)(n := d)"
    using ok h unfolding set_data_def by (subst view_upd [OF assms(1)]) auto
qed

definition mark_dirty :: "nat \<Rightarrow> 'a bio_state_scheme \<Rightarrow> 'a bio_state_scheme" where
  "mark_dirty b = upd_buf b (\<lambda>k. k\<lparr>bflags := bflags k OR B_DIRTY\<rparr>)"

lemma mark_dirty_ok:
  assumes "cache_ok bs s" and "holds me b n s"
  shows "cache_ok bs (mark_dirty b s)" and "holds me b n (mark_dirty b s)" and "view (mark_dirty b s) = view s"
    and "busy (mark_dirty b s) = busy s" and "dirty (mark_dirty b s) = insert n (dirty s)"
proof -
  note h = slot_holder [OF assms]
  have fl: "bflags (bbuf s b) OR 4 = 6"
    using h(2) by auto
  show ok: "cache_ok bs (mark_dirty b s)"
    unfolding mark_dirty_def using h fl cache_okD(6) [OF assms(1) h(1)]
    by (intro cache_ok_upd [OF assms(1)]) (auto simp: slot_ok_def)
  show "holds me b n (mark_dirty b s)" "busy (mark_dirty b s) = busy s"
    using assms(2) fl by (auto simp: holds_def mark_dirty_def busy_def)
  show "dirty (mark_dirty b s) = insert n (dirty s)"
    using h fl by (auto simp: dirty_def mark_dirty_def)
  show "view (mark_dirty b s) = view s"
    using ok h fl view_holder [OF assms] unfolding mark_dirty_def by (subst view_upd [OF assms(1)]) auto
qed

lemma dirty_holder:
  assumes "cache_ok bs s" and "holds me b n s"
  shows "n \<in> dirty s \<longleftrightarrow> bflags (bbuf s b) = 6"
proof
  note h = slot_holder [OF assms]
  assume "n \<in> dirty s"
  then obtain c where c: "c < NBUF" "bflags (bbuf s c) = 6" "bblockno (bbuf s c) = n"
    by (auto simp: dirty_def)
  then have "c = b"
    using cache_okD(7) [OF assms(1) c(1) h(1)] h(2,5) by auto
  with c show "bflags (bbuf s b) = 6"
    by simp
qed (use assms in \<open>auto simp: dirty_def holds_def\<close>)

lemma bwrite_eq:
  assumes "cache_ok bs s" and "holds me b n s" and "n < disksize s"
  shows "bwrite me b s =
    Inr (s\<lparr>bbuf := (bbuf s)(b := (bbuf s b)\<lparr>bflags := 2\<rparr>), disk := (disk s)(n := bdata (bbuf s b)),
           disk_writes := disk_writes s @ [(n, bdata (bbuf s b))]\<rparr>)"
proof -
  note h = slot_holder [OF assms(1,2)]
  have fl: "bflags (bbuf s b) OR 4 = 6"
    using h(2) by auto
  show ?thesis
    using h assms(3) fl
    by (cases "bbuf s b") (auto simp: bwrite_def iderw_def Let_def holdingsleep_def upd_buf_def not_le)
qed


text \<open>What the operations of the cache leave alone: all of the state but the buffers, the disk and who sleeps.\<close>

definition bio_frame :: "'a bio_state_scheme \<Rightarrow> 'a bio_state_scheme \<Rightarrow> bool" where
  "bio_frame s t \<longleftrightarrow> (\<exists>B T D W. t = s\<lparr>bbuf := B, ptable := T, disk := D, disk_writes := W\<rparr>)
     \<and> (\<forall>p. pid (ptable t p) = pid (ptable s p))"

lemma bio_frame_refl [simp]: "bio_frame s s"
  unfolding bio_frame_def
  by (intro conjI exI [of _ "bbuf s"] exI [of _ "ptable s"] exI [of _ "disk s"] exI [of _ "disk_writes s"]) simp_all

lemma bio_frame_trans: "bio_frame s t \<Longrightarrow> bio_frame t u \<Longrightarrow> bio_frame s u"
  unfolding bio_frame_def by (elim conjE exE, intro conjI exI) auto

lemma bio_frameI:
  "t = s\<lparr>bbuf := B, ptable := T, disk := D, disk_writes := W\<rparr> \<Longrightarrow> \<forall>p. pid (ptable t p) = pid (ptable s p) \<Longrightarrow> bio_frame s t"
  unfolding bio_frame_def by blast

lemma bio_frame_pid: "bio_frame s t \<Longrightarrow> pid (ptable t p) = pid (ptable s p)"
  by (simp add: bio_frame_def)

lemma bio_frame_disksize: "bio_frame s t \<Longrightarrow> disksize t = disksize s"
  by (auto simp: bio_frame_def)

lemma bio_frame_upd_buf [simp]: "bio_frame s (upd_buf b f s)"
  by (intro bio_frameI [where B = "bbuf (upd_buf b f s)" and T = "ptable s" and D = "disk s" and W = "disk_writes s"])
    (simp_all add: upd_buf_def)

lemma wakeup_frame: "\<exists>T. wakeup ch s = s\<lparr>ptable := T\<rparr>"
proof -
  have "\<exists>T. fold (\<lambda>p s. if pstate (ptable s p) = SLEEPING \<and> pchan (ptable s p) = c
                 then set_state p RUNNABLE s else s) ps s = s\<lparr>ptable := T\<rparr>" for c ps
  proof (induction ps arbitrary: s)
    case Nil
    then show ?case
      by (auto intro: exI [of _ "ptable s"])
  next
    case (Cons p ps)
    let ?T = "if pstate (ptable s p) = SLEEPING \<and> pchan (ptable s p) = c
              then (ptable s)(p := (ptable s p)\<lparr>pstate := RUNNABLE\<rparr>) else ptable s"
    have T: "(if pstate (ptable s p) = SLEEPING \<and> pchan (ptable s p) = c
                 then set_state p RUNNABLE s else s) = s\<lparr>ptable := ?T\<rparr>"
      by (simp add: set_state_def upd_proc_def)
    show ?case
      using Cons.IH [of "s\<lparr>ptable := ?T\<rparr>"] unfolding fold_simps T by simp
  qed
  then show ?thesis
    by (simp add: wakeup_def wakeup1_def)
qed

lemma wakeup_bio [simp]:
  "bbuf (wakeup ch s) = bbuf s" "disk (wakeup ch s) = disk s" "disksize (wakeup ch s) = disksize s"
  "disk_writes (wakeup ch s) = disk_writes s"
  using wakeup_frame [of ch s] by auto

lemma pid_wakeup [simp]: "pid (ptable (wakeup ch s) p) = pid (ptable s p)"
  by (simp add: wakeup_def wakeup1_ptable)

lemma bwrite_ok:
  assumes "cache_ok bs s" and "holds me b n s" and "bwrite me b s = Inr t" and "n < disksize s"
  shows "cache_ok bs t" and "holds me b n t" and "view t = view s" and "busy t = busy s" and "dirty t = dirty s - {n}"
    and "disk t = (disk s)(n := view s n)" and "disk_writes t = disk_writes s @ [(n, view s n)]"
    and "bdata (bbuf t b) = disk t n"
proof -
  note h = slot_holder [OF assms(1,2)] and v = view_holder [OF assms(1,2)]
  have t: "t = s\<lparr>bbuf := (bbuf s)(b := (bbuf s b)\<lparr>bflags := 2\<rparr>), disk := (disk s)(n := bdata (bbuf s b)),
           disk_writes := disk_writes s @ [(n, bdata (bbuf s b))]\<rparr>"
    using bwrite_eq [OF assms(1,2,4)] assms(3) by simp
  have other: "bblockno (bbuf s c) \<noteq> n" if "c < NBUF" "c \<noteq> b" "bflags (bbuf s c) \<noteq> 0" for c
    using cache_okD(7) [OF assms(1) that(1) h(1)] that h(2,5) by auto
  have slots: "slot_ok (disk t) (bbuf t c)" if "c < NBUF" for c
    using cache_okD(6) [OF assms(1) that] other [OF that] h by (auto simp: t slot_ok_def)
  have "lru t bs"
    using cache_okD(1) [OF assms(1)] lru_cong [of t s bs] by (auto simp: t fun_eq_iff)
  then show ok: "cache_ok bs t"
    using slots cache_okD(2,3) [OF assms(1)] h(1,2) by (intro cache_ok_same [OF assms(1)]) (auto simp: t)
  show "holds me b n t" "busy t = busy s" "bdata (bbuf t b) = disk t n" "disk t = (disk s)(n := view s n)"
    "disk_writes t = disk_writes s @ [(n, view s n)]"
    using assms(2) v by (auto simp: holds_def busy_def t)
  have other6: "bblockno (bbuf s c) \<noteq> n" if "c < NBUF" "c \<noteq> b" "bflags (bbuf s c) = 6" for c
    using other [OF that(1,2)] that(3) by simp
  show "dirty t = dirty s - {n}"
  proof (rule set_eqI)
    fix m
    have "m \<in> dirty t \<longleftrightarrow> (\<exists>c<NBUF. c \<noteq> b \<and> bflags (bbuf s c) = 6 \<and> bblockno (bbuf s c) = m)"
      by (auto simp: dirty_def t)
    also have "\<dots> \<longleftrightarrow> m \<in> dirty s - {n}"
      using other6 h(5) unfolding dirty_def by blast
    finally show "m \<in> dirty t \<longleftrightarrow> m \<in> dirty s - {n}" .
  qed
  have "bflags (bbuf t c) \<noteq> 0 \<and> bblockno (bbuf t c) = m \<longleftrightarrow> bflags (bbuf s c) \<noteq> 0 \<and> bblockno (bbuf s c) = m" for c m
    using h(2) by (auto simp: t)
  then have same: "cached t m = cached s m" for m
    by (simp only: cached_def)
  have "bdata (bbuf t c) = bdata (bbuf s c)" for c
    by (simp add: t)
  moreover have "cached s m = None \<Longrightarrow> disk t m = disk s m" for m
    using h(8) by (auto simp: t)
  ultimately show "view t = view s"
    using same by (auto simp: view_def fun_eq_iff split: option.split)
qed

section \<open>Releasing\<close>

lemma brelse_eq:
  assumes "holdingsleep me (block_lock (bbuf s b)) s" and "brefcnt (bbuf s b) = 1"
  shows "brelse me b s = Inr (link_buf b (unlink_buf b
    (upd_buf b (\<lambda>k. k\<lparr>block_lock := \<lparr>sl_locked = False, sl_pid = 0\<rparr>, brefcnt := 0\<rparr>) (wakeup (ChBuf b) s))))"
proof -
  let ?l = "\<lparr>sl_locked = False, sl_pid = 0\<rparr>"
  let ?w = "upd_buf b (\<lambda>k. k\<lparr>block_lock := ?l, brefcnt := 0\<rparr>) (wakeup (ChBuf b) s)"
  have w: "upd_buf b (\<lambda>k. k\<lparr>brefcnt := brefcnt k - 1\<rparr>) (upd_buf b (\<lambda>k. k\<lparr>block_lock := ?l\<rparr>) (wakeup (ChBuf b) s)) = ?w"
    using assms(2) by (simp add: upd_buf_def)
  have rel: "releasesleep (ChBuf b) (block_lock (bbuf s b)) s = (?l, wakeup (ChBuf b) s)"
    by (cases "block_lock (bbuf s b)") (simp add: releasesleep_def)
  have "brefcnt (bbuf ?w b) = 0"
    by simp
  then show ?thesis
    unfolding brelse_def unlink_buf_def Let_def rel prod.case w
    by (simp only: assms(1) not_True_eq_False if_False if_True simp_thms)
qed

lemma bio_frame_wakeup [simp]: "bio_frame s (wakeup ch s)"
proof -
  obtain T where "wakeup ch s = s\<lparr>ptable := T\<rparr>"
    using wakeup_frame by blast
  then show ?thesis
    by (intro bio_frameI [where B = "bbuf s" and T = T and D = "disk s" and W = "disk_writes s"])
      (simp, metis pid_wakeup)
qed

lemma bio_frame_link [simp]: "bio_frame s (link_buf b s)" "bio_frame s (unlink_buf b s)"
  unfolding link_buf_def unlink_buf_def Let_def by (meson bio_frame_upd_buf bio_frame_trans)+

lemma link_disk [simp]:
  "disk (link_buf b s) = disk s" "disk_writes (link_buf b s) = disk_writes s"
  "disk (unlink_buf b s) = disk s" "disk_writes (unlink_buf b s) = disk_writes s"
  by (simp_all add: link_buf_def unlink_buf_def Let_def)

lemma brelse_ok:
  assumes "cache_ok bs s" and "holds me b n s" and "n \<in> dirty s \<or> view s n = disk s n"
  shows "\<exists>t. brelse me b s = Inr t \<and> cache_ok (b # remove1 b bs) t \<and> view t = view s \<and> busy t = busy s - {b}
    \<and> dirty t = dirty s \<and> disk t = disk s \<and> disk_writes t = disk_writes s \<and> bio_frame s t
    \<and> (\<forall>c. c \<noteq> b \<longrightarrow> core (bbuf t c) = core (bbuf s c))"
proof -
  note h = slot_holder [OF assms(1,2)]
  let ?f = "\<lambda>k :: buf. k\<lparr>block_lock := \<lparr>sl_locked = False, sl_pid = 0\<rparr>, brefcnt := 0\<rparr>"
  let ?w = "upd_buf b ?f (wakeup (ChBuf b) s)"
  let ?t = "link_buf b (unlink_buf b ?w)"
  have t: "brelse me b s = Inr ?t"
    using h by (intro brelse_eq) simp_all
  have "b \<in> set bs" "b \<noteq> HEAD"
    using h(1) cache_okD(3) [OF assms(1)] by simp_all
  then obtain pre post where split: "bs = pre @ b # post" "b \<notin> set pre"
    using split_list_first by metis
  have rest: "remove1 b bs = pre @ post"
    using split by (simp add: remove1_append)
  have "lru ?w (pre @ b # post)"
    using cache_okD(1) [OF assms(1)] split(1) lru_upd [of ?f "wakeup (ChBuf b) s" b] lru_cong [of "wakeup (ChBuf b) s" s]
    by simp
  then have "lru (unlink_buf b ?w) (pre @ post)"
    using cache_okD(2,5) [OF assms(1)] split(1) by (intro unlink_buf_lru) simp_all
  then have ring: "lru ?t (b # pre @ post)"
    using cache_okD(2,5) [OF assms(1)] split \<open>b \<noteq> HEAD\<close> by (intro link_buf_lru) auto
  have cores: "core (bbuf ?t c) = core (if c = b then ?f (bbuf s b) else bbuf s c)" for c
    by simp
  have frame: "bio_frame s ?t" and stored: "disk ?t = disk s" "disk_writes ?t = disk_writes s"
    by (meson bio_frame_trans bio_frame_link bio_frame_upd_buf bio_frame_wakeup) simp_all
  have fields: "bflags (bbuf ?t c) = bflags (bbuf s c)" "bblockno (bbuf ?t c) = bblockno (bbuf s c)"
    "bdata (bbuf ?t c) = bdata (bbuf s c)" "bdev (bbuf ?t c) = bdev (bbuf s c)"
    "block_lock (bbuf ?t c) = (if c = b then \<lparr>sl_locked = False, sl_pid = 0\<rparr> else block_lock (bbuf s c))"
    "brefcnt (bbuf ?t c) = (if c = b then 0 else brefcnt (bbuf s c))" for c
    using core_eqD [OF cores [of c]] by auto
  have clean: "bflags (bbuf s b) = 2 \<Longrightarrow> bdata (bbuf s b) = disk s n"
    using assms(3) view_holder [OF assms(1,2)] dirty_holder [OF assms(1,2)] by auto
  have "slot_ok (disk ?t) (bbuf ?t c)" if "c < NBUF" for c
    using cache_okD(6) [OF assms(1) that] clean h unfolding slot_ok_def fields stored by auto
  then have "cache_ok (b # pre @ post) ?t"
    using ring cache_okD(2,3) [OF assms(1)] split(1) by (intro cache_ok_same [OF assms(1)]) (auto simp: fields)
  moreover have "view ?t = view s"
    unfolding view_def cached_def fields stored ..
  moreover have "busy ?t = busy s - {b}" "dirty ?t = dirty s"
    unfolding busy_def dirty_def fields by auto
  moreover have "core (bbuf ?t c) = core (bbuf s c)" if "c \<noteq> b" for c
    using cores [of c] that by simp
  ultimately show ?thesis
    using t frame stored rest by (intro exI [of _ ?t]) simp
qed

section \<open>Frames\<close>

lemma bread_frame:
  assumes "cache_ok bs s" and "n < disksize s" and "bread me 1 n s = Inr (b, t)"
  shows "bio_frame s t" and "disk t = disk s" and "disk_writes t = disk_writes s"
    and "\<And>c. c \<noteq> b \<Longrightarrow> bbuf t c = bbuf s c"
  using bread_ok(5) [OF assms] by auto

lemma bwrite_frame:
  assumes "cache_ok bs s" and "holds me b n s" and "n < disksize s"
  shows "\<exists>t. bwrite me b s = Inr t \<and> bio_frame s t \<and> (\<forall>c. c \<noteq> b \<longrightarrow> bbuf t c = bbuf s c)"
  unfolding bwrite_eq [OF assms] sum.inject
  by (intro exI conjI, rule refl, rule bio_frameI [where T = "ptable s"]) auto

lemma holds_other:
  "holds me c m s \<Longrightarrow> bio_frame s t \<Longrightarrow> core (bbuf t c) = core (bbuf s c) \<Longrightarrow> holds me c m t"
  using core_eqD [of "bbuf t c" "bbuf s c"] bio_frame_pid [of s t me] by (simp add: holds_def)

section \<open>Initialisation\<close>

lemma binit_fold:
  fixes s :: "'a bio_state_scheme"
  defines "ins \<equiv> \<lambda>b (s :: 'a bio_state_scheme). link_buf b (upd_buf b (\<lambda>k. k\<lparr>block_lock := initsleeplock\<rparr>) s)"
  assumes "lru s []" and "k \<le> NBUF"
  shows "lru (fold ins [0..<k] s) (rev [0..<k]) \<and> disk (fold ins [0..<k] s) = disk s
    \<and> (\<forall>b. core (bbuf (fold ins [0..<k] s) b) = core (if b < k then (bbuf s b)\<lparr>block_lock := initsleeplock\<rparr> else bbuf s b))"
  using assms(3)
proof (induction k)
  case (Suc k)
  let ?s = "fold ins [0..<k] s"
  have IH: "lru ?s (rev [0..<k])" "disk ?s = disk s"
    "\<And>b. core (bbuf ?s b) = core (if b < k then (bbuf s b)\<lparr>block_lock := initsleeplock\<rparr> else bbuf s b)"
    using Suc by simp_all
  have step: "fold ins [0..<Suc k] s = link_buf k (upd_buf k (\<lambda>k. k\<lparr>block_lock := initsleeplock\<rparr>) ?s)"
    by (simp add: ins_def)
  have "lru (upd_buf k (\<lambda>k. k\<lparr>block_lock := initsleeplock\<rparr>) ?s) (rev [0..<k])"
    using IH(1) by (simp add: lru_upd)
  then have "lru (fold ins [0..<Suc k] s) (rev [0..<Suc k])"
    using link_buf_lru [of _ "rev [0..<k]" k] Suc.prems unfolding step by simp
  moreover have "core ((bbuf ?s k)\<lparr>block_lock := initsleeplock\<rparr>) = core ((bbuf s k)\<lparr>block_lock := initsleeplock\<rparr>)"
    using IH(3) [of k] by (cases "bbuf ?s k"; cases "bbuf s k") (simp add: core_def)
  ultimately show ?case
    using IH(2,3) unfolding step by (simp add: less_Suc_eq)
qed (use assms(2) in simp)

lemma bio_frame_binit: "bio_frame s (binit s)"
proof -
  have "bio_frame r (fold (\<lambda>b s. link_buf b (upd_buf b (\<lambda>k. k\<lparr>block_lock := initsleeplock\<rparr>) s)) bs r)"
    for bs and r :: "'a bio_state_scheme"
  proof (induction bs arbitrary: r)
    case (Cons b bs)
    have "bio_frame r (link_buf b (upd_buf b (\<lambda>k. k\<lparr>block_lock := initsleeplock\<rparr>) r))"
      by (rule bio_frame_trans [OF bio_frame_upd_buf bio_frame_link(1)])
    from bio_frame_trans [OF this Cons.IH] show ?case
      by simp
  qed simp
  note fold_frame = this
  show ?thesis
    unfolding binit_def Let_def by (rule bio_frame_trans [OF bio_frame_upd_buf fold_frame])
qed

lemma binit_ok:
  assumes "\<And>b. b < NBUF \<Longrightarrow> bflags (bbuf s b) = 0 \<and> bdev (bbuf s b) = 0 \<and> brefcnt (bbuf s b) = 0"
  shows "cache_ok (rev [0..<NBUF]) (binit s)" and "disk (binit s) = disk s" and "busy (binit s) = {}" and "dirty (binit s) = {}"
    and "view (binit s) = disk s" and "\<And>b. b < NBUF \<Longrightarrow> bflags (bbuf (binit s) b) = 0"
proof -
  let ?h = "upd_buf HEAD (\<lambda>k. k\<lparr>bprev := HEAD, bnext := HEAD\<rparr>) s"
  have "lru ?h []"
    by (simp add: lru_def)
  note f = binit_fold [OF this, of NBUF, simplified]
  have ring: "lru (binit s) (rev [0..<NBUF])" and d: "disk (binit s) = disk s"
    using f by (simp_all add: binit_def)
  have "core (bbuf (binit s) b) = core ((bbuf s b)\<lparr>block_lock := initsleeplock\<rparr>)" if "b < NBUF" for b
    using f that by (simp add: binit_def)
  note k = this [THEN core_eqD]
  have unused: "bflags (bbuf (binit s) b) = 0" "slot_ok (disk s) (bbuf (binit s) b)"
    "\<not> sl_locked (block_lock (bbuf (binit s) b))" if "b < NBUF" for b
    using k [OF that] assms [OF that] by (auto simp: slot_ok_def initsleeplock_def)
  show "cache_ok (rev [0..<NBUF]) (binit s)"
    unfolding cache_ok_def using ring unused d by simp
  show "bflags (bbuf (binit s) b) = 0" if "b < NBUF" for b
    using unused(1) that .
  show "disk (binit s) = disk s" "busy (binit s) = {}" "dirty (binit s) = {}"
    using d unused by (auto simp: busy_def dirty_def)
  have "cached (binit s) n = None" for n
    using unused by (simp add: cached_None)
  then show "view (binit s) = disk s"
    using d by (simp add: view_def fun_eq_iff)
qed


end
