(* ===== verification/BlockStore.thy ===== *)
theory BlockStore
  imports BufCache
begin

text \<open>
  The contract of the buffer cache towards the log and the file system: the cache as a store of
  blocks with a view that reads see, the disk, the writes so far, and the sets of dirty and of
  locked blocks. The locale has the laws, the interpretation shows that \<^verbatim>\<open>bio.c\<close> keeps them.
\<close>

section \<open>The interface\<close>

record bstore =
  st_view :: "u32 \<Rightarrow> block"
  st_disk :: "u32 \<Rightarrow> block"
  st_writes :: "(u32 \<times> block) list"
  st_dirty :: "u32 set"
  st_locked :: "u32 set"

text \<open>A block can be read when nobody holds it and it is dirty, hence cached, or a buffer is left for it.\<close>

definition readable :: "u32 \<Rightarrow> bstore \<Rightarrow> bool" where
  "readable n S \<longleftrightarrow> n \<notin> st_locked S \<and> (n \<in> st_dirty S \<or> card (st_dirty S \<union> st_locked S) < NBUF)"

definition settled :: "u32 \<Rightarrow> bstore \<Rightarrow> bool" where
  "settled n S \<longleftrightarrow> n \<in> st_dirty S \<or> st_view S n = st_disk S n"

text \<open>Overwriting a block on the disk with another one, or with given contents.\<close>

definition copy_blk :: "u32 \<Rightarrow> u32 \<Rightarrow> bstore \<Rightarrow> bstore" where
  "copy_blk m n S = S\<lparr>st_view := (st_view S)(n := st_view S m), st_disk := (st_disk S)(n := st_view S m),
     st_writes := st_writes S @ [(n, st_view S m)], st_dirty := st_dirty S - {n}\<rparr>"

definition put_blk :: "u32 \<Rightarrow> block \<Rightarrow> bstore \<Rightarrow> bstore" where
  "put_blk n d S = S\<lparr>st_view := (st_view S)(n := d), st_disk := (st_disk S)(n := d),
     st_writes := st_writes S @ [(n, d)], st_dirty := st_dirty S - {n}\<rparr>"

lemma bstore_eqI:
  "st_view S = st_view T \<Longrightarrow> st_disk S = st_disk T \<Longrightarrow> st_writes S = st_writes T \<Longrightarrow> st_dirty S = st_dirty T
    \<Longrightarrow> st_locked S = st_locked T \<Longrightarrow> S = (T :: bstore)"
  by (cases S; cases T) simp

locale block_cache =
  fixes ok :: "'s \<Rightarrow> bool"
    and size_of :: "'s \<Rightarrow> u32"
    and abs :: "'s \<Rightarrow> bstore"
    and held :: "'s \<Rightarrow> nat \<Rightarrow> u32 \<Rightarrow> bool"
    and same :: "'s \<Rightarrow> 's \<Rightarrow> bool"
    and data_of :: "'s \<Rightarrow> nat \<Rightarrow> block"
    and br :: "u32 \<Rightarrow> 's \<Rightarrow> (nat \<times> 's) result"
    and put :: "nat \<Rightarrow> block \<Rightarrow> 's \<Rightarrow> 's"
    and mark :: "nat \<Rightarrow> 's \<Rightarrow> 's"
    and bw :: "nat \<Rightarrow> 's \<Rightarrow> 's result"
    and rel :: "nat \<Rightarrow> 's \<Rightarrow> 's result"
  assumes same_refl: "same s s"
    and same_trans: "same s t \<Longrightarrow> same t u \<Longrightarrow> same s u"
    and same_size: "same s t \<Longrightarrow> size_of t = size_of s"
    and held_data: "ok s \<Longrightarrow> held s b n \<Longrightarrow> data_of s b = st_view (abs s) n"
    and held_size: "ok s \<Longrightarrow> held s b n \<Longrightarrow> n \<in> st_locked (abs s)"
    and finite_sets: "ok s \<Longrightarrow> finite (st_dirty (abs s) \<union> st_locked (abs s))"
    and transparent: "ok s \<Longrightarrow> n \<notin> st_dirty (abs s) \<union> st_locked (abs s) \<Longrightarrow> st_view (abs s) n = st_disk (abs s) n"
    and br_law: "ok s \<Longrightarrow> n < size_of s \<Longrightarrow> readable n (abs s) \<Longrightarrow>
      \<exists>b t. br n s = Inr (b, t) \<and> ok t \<and> held t b n \<and> abs t = (abs s)\<lparr>st_locked := insert n (st_locked (abs s))\<rparr>
        \<and> same s t \<and> (\<forall>c m. held s c m \<longrightarrow> held t c m \<and> c \<noteq> b)"
    and put_law: "ok s \<Longrightarrow> held s b n \<Longrightarrow>
      ok (put b d s) \<and> abs (put b d s) = (abs s)\<lparr>st_view := (st_view (abs s))(n := d)\<rparr> \<and> same s (put b d s)
        \<and> (\<forall>c m. held s c m \<longrightarrow> held (put b d s) c m)"
    and mark_law: "ok s \<Longrightarrow> held s b n \<Longrightarrow>
      ok (mark b s) \<and> abs (mark b s) = (abs s)\<lparr>st_dirty := insert n (st_dirty (abs s))\<rparr> \<and> same s (mark b s)
        \<and> (\<forall>c m. held s c m \<longrightarrow> held (mark b s) c m)"
    and bw_law: "ok s \<Longrightarrow> held s b n \<Longrightarrow> n < size_of s \<Longrightarrow>
      \<exists>t. bw b s = Inr t \<and> ok t
        \<and> abs t = (abs s)\<lparr>st_disk := (st_disk (abs s))(n := st_view (abs s) n),
             st_writes := st_writes (abs s) @ [(n, st_view (abs s) n)], st_dirty := st_dirty (abs s) - {n}\<rparr>
        \<and> same s t \<and> (\<forall>c m. held s c m \<longrightarrow> held t c m)"
    and rel_law: "ok s \<Longrightarrow> held s b n \<Longrightarrow> settled n (abs s) \<Longrightarrow>
      \<exists>t. rel b s = Inr t \<and> ok t \<and> abs t = (abs s)\<lparr>st_locked := st_locked (abs s) - {n}\<rparr> \<and> same s t
        \<and> (\<forall>c m. held s c m \<and> c \<noteq> b \<longrightarrow> held t c m)"
begin

text \<open>Reading a block and letting it go again.\<close>

lemma peek:
  assumes "ok s" and "n < size_of s" and "readable n (abs s)" and "settled n (abs s)"
  shows "\<exists>b t u. br n s = Inr (b, t) \<and> data_of t b = st_view (abs s) n \<and> held t b n \<and> ok t \<and> same s t
    \<and> rel b t = Inr u \<and> ok u \<and> abs u = abs s \<and> same s u"
proof -
  obtain b t where b: "br n s = Inr (b, t)" "ok t" "held t b n" "same s t"
    "abs t = (abs s)\<lparr>st_locked := insert n (st_locked (abs s))\<rparr>"
    using br_law [OF assms(1-3)] by blast
  have "settled n (abs t)"
    using assms(4) b(5) by (simp add: settled_def)
  from rel_law [OF b(2,3) this] obtain u where u: "rel b t = Inr u" "ok u"
    "abs u = (abs t)\<lparr>st_locked := st_locked (abs t) - {n}\<rparr>" "same t u"
    by blast
  have "abs u = abs s"
    using assms(3) u(3) b(5) by (simp add: readable_def)
  with b u show ?thesis
    using held_data [OF b(2,3)] same_trans by (intro exI [of _ b] exI [of _ t] exI [of _ u]) simp
qed

text \<open>Changing a block and writing it through, as \<^verbatim>\<open>write_head\<close> does.\<close>

lemma write_through:
  assumes "ok s" and "held s b n" and "n < size_of s"
  shows "\<exists>t u. bw b (put b d s) = Inr t \<and> rel b t = Inr u \<and> ok u \<and> same s u
    \<and> abs u = (put_blk n d (abs s))\<lparr>st_locked := st_locked (abs s) - {n}\<rparr>"
proof -
  note p = put_law [OF assms(1,2), of d]
  then have "held (put b d s) b n" "n < size_of (put b d s)"
    using assms(2,3) same_size by auto
  from bw_law [OF _ this] p obtain t where t: "bw b (put b d s) = Inr t" "ok t" "same (put b d s) t" "held t b n"
    "abs t = (abs (put b d s))\<lparr>st_disk := (st_disk (abs (put b d s)))(n := st_view (abs (put b d s)) n),
       st_writes := st_writes (abs (put b d s)) @ [(n, st_view (abs (put b d s)) n)],
       st_dirty := st_dirty (abs (put b d s)) - {n}\<rparr>"
    using \<open>held (put b d s) b n\<close> by blast
  have "settled n (abs t)"
    using t(5) p by (simp add: settled_def)
  from rel_law [OF t(2,4) this] obtain u where u: "rel b t = Inr u" "ok u" "same t u"
    "abs u = (abs t)\<lparr>st_locked := st_locked (abs t) - {n}\<rparr>"
    by blast
  have "same s u"
    using p t(3) u(3) same_trans by blast
  then show ?thesis
    using t u p by (intro exI [of _ t] exI [of _ u]) (simp add: put_blk_def)
qed

text \<open>
  Copying block \<open>m\<close> onto block \<open>n\<close>, both held, and releasing them: the loops of the log.
\<close>

lemma copy_held:
  assumes "ok s" and "held s b n" and "held s c m" and "m \<noteq> n" and "b \<noteq> c" and "n < size_of s" and "settled m (abs s)"
  shows "\<exists>t. andthen (bw b (put b (data_of s c) s)) (\<lambda>s. andthen (rel c s) (rel b)) = Inr t \<and> ok t \<and> same s t
    \<and> abs t = (copy_blk m n (abs s))\<lparr>st_locked := st_locked (abs s) - {m} - {n}\<rparr>"
proof -
  let ?d = "st_view (abs s) m"
  note p = put_law [OF assms(1,2), of ?d]
  have h: "held (put b ?d s) b n" "held (put b ?d s) c m" "n < size_of (put b ?d s)" "data_of s c = ?d"
    using p assms(2,3,6) same_size held_data [OF assms(1,3)] by auto
  from bw_law [OF _ h(1,3)] p obtain t where t: "bw b (put b ?d s) = Inr t" "ok t" "same (put b ?d s) t" "held t b n" "held t c m"
    "abs t = (abs (put b ?d s))\<lparr>st_disk := (st_disk (abs (put b ?d s)))(n := st_view (abs (put b ?d s)) n),
       st_writes := st_writes (abs (put b ?d s)) @ [(n, st_view (abs (put b ?d s)) n)],
       st_dirty := st_dirty (abs (put b ?d s)) - {n}\<rparr>"
    using h by blast
  have "settled m (abs t)"
    using t(6) p assms(4,7) by (auto simp: settled_def)
  from rel_law [OF t(2,5) this] obtain u where u: "rel c t = Inr u" "ok u" "same t u" "held u b n"
    "abs u = (abs t)\<lparr>st_locked := st_locked (abs t) - {m}\<rparr>"
    using t(4) assms(5) by blast
  have "settled n (abs u)"
    using u(5) t(6) p by (simp add: settled_def)
  from rel_law [OF u(2,4) this] obtain v where v: "rel b u = Inr v" "ok v" "same u v"
    "abs v = (abs u)\<lparr>st_locked := st_locked (abs u) - {n}\<rparr>"
    by blast
  have "same s v"
    using p t(3) u(3) v(3) same_trans by blast
  moreover have "abs v = (copy_blk m n (abs s))\<lparr>st_locked := st_locked (abs s) - {m} - {n}\<rparr>"
    using v(4) u(5) t(6) p by (simp add: copy_blk_def)
  ultimately show ?thesis
    using v(1,2) u(1) t(1) h(4) by (intro exI [of _ v]) simp
qed

end

section \<open>The buffer cache keeps the contract\<close>

definition store_of :: "'a bio_state_scheme \<Rightarrow> bstore" where
  "store_of s = \<lparr>st_view = view s, st_disk = disk s, st_writes = disk_writes s, st_dirty = dirty s,
     st_locked = {n. \<exists>b\<in>busy s. bblockno (bbuf s b) = n}\<rparr>"

lemma in_use_card:
  assumes "cache_ok bs s" and "\<forall>b<NBUF. b \<in> busy s \<or> bflags (bbuf s b) = 6"
  shows "card (dirty s \<union> {n. \<exists>b\<in>busy s. bblockno (bbuf s b) = n}) = NBUF"
proof -
  have "inj_on (\<lambda>b. bblockno (bbuf s b)) {0..<NBUF}"
  proof (rule inj_onI)
    fix b c
    assume "b \<in> {0..<NBUF}" "c \<in> {0..<NBUF}" "bblockno (bbuf s b) = bblockno (bbuf s c)"
    moreover have "bflags (bbuf s d) \<noteq> 0" if "d < NBUF" for d
      using assms(2) that slot_okD(4) [OF cache_okD(6) [OF assms(1) that]] by (auto simp: busy_def)
    ultimately show "b = c"
      using cache_okD(7) [OF assms(1)] by simp
  qed
  moreover have "dirty s \<union> {n. \<exists>b\<in>busy s. bblockno (bbuf s b) = n} = (\<lambda>b. bblockno (bbuf s b)) ` {0..<NBUF}"
    using assms(2) by (fastforce simp: dirty_def busy_def)
  ultimately show ?thesis
    by (simp add: card_image)
qed

lemma readable_bread:
  assumes "cache_ok bs s" and "n < disksize s" and "readable n (store_of s)"
  shows "\<exists>b t. bread me 1 n s = Inr (b, t)"
proof (rule bread_returns [OF assms(1,2)])
  show "b \<notin> busy s" if "cached s n = Some b" for b
    using cached_SomeD [OF that] assms(3) by (auto simp: readable_def store_of_def)
  show "cached s n \<noteq> None \<or> (\<exists>b<NBUF. b \<notin> busy s \<and> bflags (bbuf s b) \<noteq> 6)"
  proof (cases "n \<in> dirty s")
    case True
    then obtain b where "b < NBUF" "bflags (bbuf s b) = 6" "bblockno (bbuf s b) = n"
      by (auto simp: dirty_def)
    then show ?thesis
      using cached_SomeI [OF assms(1), of b] by simp
  next
    case False
    then show ?thesis
      using in_use_card [OF assms(1)] assms(3) by (auto simp: readable_def store_of_def)
  qed
qed

abbreviation sound :: "'a bio_state_scheme \<Rightarrow> bool" where
  "sound s \<equiv> \<exists>bs. cache_ok bs s"

lemma locked_same:
  assumes "busy t = busy s" and "\<And>b. bblockno (bbuf t b) = bblockno (bbuf s b)"
  shows "{n. \<exists>b\<in>busy t. bblockno (bbuf t b) = n} = {n. \<exists>b\<in>busy s. bblockno (bbuf s b) = n}"
  using assms by simp

lemma held_locked: "cache_ok bs s \<Longrightarrow> holds me b n s \<Longrightarrow> b \<in> busy s"
  by (simp add: holds_def busy_def)

lemma store_bread:
  assumes "sound s" and "n < disksize s" and "readable n (store_of s)"
  shows "\<exists>b t. bread me 1 n s = Inr (b, t) \<and> sound t \<and> holds me b n t
    \<and> store_of t = (store_of s)\<lparr>st_locked := insert n (st_locked (store_of s))\<rparr>
    \<and> bio_frame s t \<and> (\<forall>c m. holds me c m s \<longrightarrow> holds me c m t \<and> c \<noteq> b)"
proof -
  obtain bs where ok: "cache_ok bs s"
    using assms(1) by blast
  obtain b t where r: "bread me 1 n s = Inr (b, t)"
    using readable_bread [OF ok assms(2,3)] by blast
  note k = bread_ok [OF ok assms(2) r] and fr = bread_frame [OF ok assms(2) r]
  have "bblockno (bbuf t b) = n"
    using k(2) by (simp add: holds_def)
  then have "{m. \<exists>c\<in>busy t. bblockno (bbuf t c) = m} = insert n {m. \<exists>c\<in>busy s. bblockno (bbuf s c) = m}"
    using k(6,7) fr(4) by (auto, metis+)
  moreover have "holds me c m t \<and> c \<noteq> b" if "holds me c m s" for c m
  proof -
    have "c \<noteq> b"
      using k(6) held_locked [OF ok that] by blast
    then show ?thesis
      using fr(4) holds_other [OF that fr(1)] by simp
  qed
  ultimately show ?thesis
    using r k fr by (intro exI [of _ b] exI [of _ t]) (auto simp: store_of_def)
qed

lemma store_put:
  assumes "sound s" and "holds me b n s"
  shows "sound (set_data b d s) \<and> store_of (set_data b d s) = (store_of s)\<lparr>st_view := (st_view (store_of s))(n := d)\<rparr>
    \<and> bio_frame s (set_data b d s) \<and> (\<forall>c m. holds me c m s \<longrightarrow> holds me c m (set_data b d s))"
proof -
  obtain bs where ok: "cache_ok bs s"
    using assms(1) by blast
  note k = set_data_ok [OF ok assms(2), of d]
  have "{n. \<exists>c\<in>busy (set_data b d s). bblockno (bbuf (set_data b d s) c) = n} = {n. \<exists>c\<in>busy s. bblockno (bbuf s c) = n}"
    using k(4) by (intro locked_same) (simp_all add: set_data_def)
  moreover have "holds me c m (set_data b d s)" if "holds me c m s" for c m
    using that by (auto simp: holds_def set_data_def)
  ultimately show ?thesis
    using k by (auto simp: store_of_def set_data_def)
qed

lemma store_mark:
  assumes "sound s" and "holds me b n s"
  shows "sound (mark_dirty b s) \<and> store_of (mark_dirty b s) = (store_of s)\<lparr>st_dirty := insert n (st_dirty (store_of s))\<rparr>
    \<and> bio_frame s (mark_dirty b s) \<and> (\<forall>c m. holds me c m s \<longrightarrow> holds me c m (mark_dirty b s))"
proof -
  obtain bs where ok: "cache_ok bs s"
    using assms(1) by blast
  note k = mark_dirty_ok [OF ok assms(2)]
  have "{n. \<exists>c\<in>busy (mark_dirty b s). bblockno (bbuf (mark_dirty b s) c) = n} = {n. \<exists>c\<in>busy s. bblockno (bbuf s c) = n}"
    using k(4) by (intro locked_same) (simp_all add: mark_dirty_def)
  moreover have "holds me c m (mark_dirty b s)" if "holds me c m s" for c m
    using that k(2) by (auto simp: holds_def mark_dirty_def)
  ultimately show ?thesis
    using k by (auto simp: store_of_def mark_dirty_def)
qed

lemma store_bwrite:
  assumes "sound s" and "holds me b n s" and "n < disksize s"
  shows "\<exists>t. bwrite me b s = Inr t \<and> sound t
    \<and> store_of t = (store_of s)\<lparr>st_disk := (st_disk (store_of s))(n := st_view (store_of s) n),
         st_writes := st_writes (store_of s) @ [(n, st_view (store_of s) n)], st_dirty := st_dirty (store_of s) - {n}\<rparr>
    \<and> bio_frame s t \<and> (\<forall>c m. holds me c m s \<longrightarrow> holds me c m t)"
proof -
  obtain bs where ok: "cache_ok bs s"
    using assms(1) by blast
  obtain t where t: "bwrite me b s = Inr t" "bio_frame s t" "\<And>c. c \<noteq> b \<Longrightarrow> bbuf t c = bbuf s c"
    using bwrite_frame [OF ok assms(2,3)] by blast
  note k = bwrite_ok [OF ok assms(2) t(1) assms(3)]
  have "bblockno (bbuf t c) = bblockno (bbuf s c)" for c
    using t(3) [of c] k(2) assms(2) by (cases "c = b") (simp_all add: holds_def)
  then have "{n. \<exists>c\<in>busy t. bblockno (bbuf t c) = n} = {n. \<exists>c\<in>busy s. bblockno (bbuf s c) = n}"
    using k(4) by (intro locked_same)
  moreover have "holds me c m t" if "holds me c m s" for c m
    using that k(2) assms(2) t(3) [of c] holds_other [OF that t(2)] by (cases "c = b") (auto simp: holds_def)
  ultimately show ?thesis
    using t(1,2) k by (intro exI [of _ t]) (auto simp: store_of_def)
qed

lemma store_brelse:
  assumes "sound s" and "holds me b n s" and "settled n (store_of s)"
  shows "\<exists>t. brelse me b s = Inr t \<and> sound t \<and> store_of t = (store_of s)\<lparr>st_locked := st_locked (store_of s) - {n}\<rparr>
    \<and> bio_frame s t \<and> (\<forall>c m. holds me c m s \<and> c \<noteq> b \<longrightarrow> holds me c m t)"
proof -
  obtain bs where ok: "cache_ok bs s"
    using assms(1) by blast
  have "n \<in> dirty s \<or> view s n = disk s n"
    using assms(3) by (simp add: settled_def store_of_def)
  from brelse_ok [OF ok assms(2) this] obtain t where t: "brelse me b s = Inr t" "cache_ok (b # remove1 b bs) t" "view t = view s"
    "busy t = busy s - {b}" "dirty t = dirty s" "disk t = disk s" "disk_writes t = disk_writes s" "bio_frame s t"
    "\<And>c. c \<noteq> b \<Longrightarrow> core (bbuf t c) = core (bbuf s c)"
    by blast
  have other: "bblockno (bbuf s c) \<noteq> n" if "c \<in> busy s" "c \<noteq> b" for c
    using cache_okD(7) [OF ok, of c b] slot_okD(4) [OF cache_okD(6) [OF ok, of c]] that assms(2)
    by (auto simp: busy_def holds_def)
  have "bblockno (bbuf t c) = bblockno (bbuf s c)" if "c \<noteq> b" for c
    using core_eqD [OF t(9) [OF that]] by simp
  then have "{m. \<exists>c\<in>busy t. bblockno (bbuf t c) = m} = {m. \<exists>c\<in>busy s. bblockno (bbuf s c) = m} - {n}"
    using t(4) other assms(2) by (auto simp: holds_def)
  moreover have "holds me c m t" if "holds me c m s" "c \<noteq> b" for c m
    using holds_other [OF that(1) t(8)] t(9) [OF that(2)] by simp
  ultimately show ?thesis
    using t by (intro exI [of _ t]) (auto simp: store_of_def)
qed

interpretation bc: block_cache sound disksize store_of "\<lambda>s b n. holds me b n s" bio_frame "\<lambda>s b. bdata (bbuf s b)"
  "bread me 1" set_data mark_dirty "bwrite me" "brelse me" for me
proof (unfold_locales, goal_cases)
  case (2 s t u)
  then show ?case by (rule bio_frame_trans)
next
  case (3 s t)
  then show ?case by (rule bio_frame_disksize)
next
  case (4 s b n)
  then show ?case by (auto simp: store_of_def view_holder)
next
  case (5 s b n)
  then show ?case by (auto simp: store_of_def holds_def busy_def)
next
  case (6 s)
  have "dirty s \<subseteq> (\<lambda>b. bblockno (bbuf s b)) ` {0..<NBUF}" "{n. \<exists>b\<in>busy s. bblockno (bbuf s b) = n} \<subseteq> (\<lambda>b. bblockno (bbuf s b)) ` {0..<NBUF}"
    by (auto simp: dirty_def busy_def)
  then show ?case
    by (simp add: store_of_def finite_subset)
next
  case (7 s n)
  then obtain bs where ok: "cache_ok bs s"
    by blast
  show ?case
  proof (cases "cached s n")
    case (Some b)
    then show ?thesis
      using cached_SomeD [OF Some] slot_okD(1,5) [OF cache_okD(6) [OF ok], of b] 7(2)
      by (auto simp: store_of_def view_def dirty_def busy_def)
  qed (simp add: store_of_def view_def)
next
  case (8 s n)
  then show ?case by (rule store_bread)
next
  case (9 s b n d)
  then show ?case by (rule store_put)
next
  case (10 s b n)
  then show ?case by (rule store_mark)
next
  case (11 s b n)
  then show ?case by (rule store_bwrite)
next
  case (12 s b n)
  then show ?case by (rule store_brelse)
qed simp_all


end
