(* ===== verification/LogStore.thy ===== *)
theory LogStore
  imports BlockStore Log
begin

text \<open>
  What the steps of the log do to the blocks: \<^verbatim>\<open>write_log\<close>, \<^verbatim>\<open>write_head\<close>, \<^verbatim>\<open>install_trans\<close> and \<^verbatim>\<open>read_head\<close> as
  functions on the store of \<^verbatim>\<open>BlockStore\<close>.
\<close>

section \<open>Log fields and the cache\<close>

lemma bio_frame_log:
  assumes "bio_frame s t"
  shows "log_start t = log_start s" "log_dev t = log_dev s" "lh_n t = lh_n s" "lh_block t = lh_block s"
    "log_size t = log_size s" "log_outstanding t = log_outstanding s" "log_committing t = log_committing s"
  using assms by (auto simp: bio_frame_def)

lemma store_cong: "bbuf t = bbuf s \<Longrightarrow> disk t = disk s \<Longrightarrow> disk_writes t = disk_writes s \<Longrightarrow> store_of t = store_of s"
  by (rule bstore.equality) (simp_all add: store_of_def view_def [abs_def] cached_def busy_def dirty_def cong: option.case_cong)

lemma store_log_upd [simp]:
  "store_of (s\<lparr>lh_n := n\<rparr>) = store_of s" "store_of (s\<lparr>lh_block := f\<rparr>) = store_of s"
  "store_of (s\<lparr>log_committing := c\<rparr>) = store_of s" "store_of (s\<lparr>log_outstanding := k\<rparr>) = store_of s"
  "store_of (s\<lparr>log_start := a\<rparr>) = store_of s" "store_of (s\<lparr>log_size := z\<rparr>) = store_of s" "store_of (s\<lparr>log_dev := d\<rparr>) = store_of s"
  by (rule store_cong; simp)+

lemma cache_log_upd [simp]:
  "cache_ok bs (s\<lparr>lh_n := n\<rparr>) = cache_ok bs s" "cache_ok bs (s\<lparr>lh_block := f\<rparr>) = cache_ok bs s"
  "cache_ok bs (s\<lparr>log_committing := c\<rparr>) = cache_ok bs s" "cache_ok bs (s\<lparr>log_outstanding := k\<rparr>) = cache_ok bs s"
  "cache_ok bs (s\<lparr>log_start := a\<rparr>) = cache_ok bs s" "cache_ok bs (s\<lparr>log_size := z\<rparr>) = cache_ok bs s"
  "cache_ok bs (s\<lparr>log_dev := d\<rparr>) = cache_ok bs s"
  by (simp_all add: cache_ok_def lru_def)

lemma holds_log_upd [simp]:
  "holds me b m (s\<lparr>lh_n := n\<rparr>) = holds me b m s" "holds me b m (s\<lparr>lh_block := f\<rparr>) = holds me b m s"
  by (simp_all add: holds_def)

section \<open>Steps on the store\<close>

definition slot :: "u32 \<Rightarrow> nat \<Rightarrow> u32" where
  "slot ls i = ls + of_nat i + 1"

text \<open>
  The common part of the two loops: blocks \<open>a\<close> and \<open>c\<close> are read in this order and one is written over
  with the other. No block is held before or after.
\<close>

definition copyable :: "u32 \<Rightarrow> u32 \<Rightarrow> 'a bio_state_scheme \<Rightarrow> bool" where
  "copyable a c s \<longleftrightarrow> sound s \<and> a \<noteq> c \<and> a < disksize s \<and> c < disksize s \<and> st_locked (store_of s) = {}
     \<and> card (st_dirty (store_of s)) < NBUF \<and> (c \<in> st_dirty (store_of s) \<or> card (st_dirty (store_of s)) + 1 < NBUF)"

lemma read_two:
  assumes "copyable a c s"
  shows "\<exists>b t d u. bread me 1 a s = Inr (b, t) \<and> bread me 1 c t = Inr (d, u) \<and> sound u \<and> bio_frame s t \<and> bio_frame s u
    \<and> holds me b a u \<and> holds me d c u \<and> b \<noteq> d \<and> store_of u = (store_of s)\<lparr>st_locked := {a, c}\<rparr>"
proof -
  let ?S = "store_of s"
  have c: "sound s" "a \<noteq> c" "a < disksize s" "c < disksize s" "st_locked ?S = {}" "card (st_dirty ?S) < NBUF"
    "c \<in> st_dirty ?S \<or> card (st_dirty ?S) + 1 < NBUF"
    using assms unfolding copyable_def by blast+
  have "readable a ?S"
    using c by (simp add: readable_def)
  from bc.br_law [OF c(1,3) this, of me] obtain b t where b: "bread me 1 a s = Inr (b, t)" "sound t" "holds me b a t"
    "store_of t = ?S\<lparr>st_locked := {a}\<rparr>" "bio_frame s t"
    using c(5) by auto
  have "card (insert a (st_dirty ?S)) \<le> card (st_dirty ?S) + 1"
    by (simp add: card_insert_if)
  then have r: "readable c (store_of t)" "c < disksize t"
    using c b(4) bio_frame_disksize [OF b(5)] by (auto simp: readable_def)
  from bc.br_law [OF b(2) r(2,1), of me] obtain d u where d: "bread me 1 c t = Inr (d, u)" "sound u" "holds me d c u"
    "store_of u = ?S\<lparr>st_locked := {a, c}\<rparr>" "bio_frame t u" "holds me b a u" "b \<noteq> d"
    using b(3,4) by (auto simp: insert_commute)
  then show ?thesis
    using b(1,5) bio_frame_trans [OF b(5) d(5)]
    by (intro exI [of _ b] exI [of _ t] exI [of _ d] exI [of _ u] conjI) simp_all
qed

lemma write_log_step_ok:
  assumes "copyable (slot (log_start s) i) (lh_block s i) s" and "log_dev s = 1" and "i < LOGSIZE"
    and "settled (lh_block s i) (store_of s)"
  shows "\<exists>t. write_log_step me i s = Inr t \<and> sound t \<and> bio_frame s t
    \<and> store_of t = copy_blk (lh_block s i) (slot (log_start s) i) (store_of s)"
proof -
  let ?a = "slot (log_start s) i" and ?c = "lh_block s i"
  obtain b t d u where r: "bread me 1 ?a s = Inr (b, t)" "bread me 1 ?c t = Inr (d, u)" "sound u" "bio_frame s t" "bio_frame s u"
    "holds me b ?a u" "holds me d ?c u" "b \<noteq> d" "store_of u = (store_of s)\<lparr>st_locked := {?a, ?c}\<rparr>"
    using read_two [OF assms(1)] by blast
  have ne: "?c \<noteq> ?a" "?a < disksize u" "settled ?c (store_of u)"
    using assms(1,4) r(9) bio_frame_disksize [OF r(5)] by (auto simp: copyable_def settled_def)
  from bc.copy_held [OF r(3,6,7) ne(1) r(8) ne(2,3)] obtain v where v:
    "andthen (bwrite me b (set_data b (bdata (bbuf u d)) u)) (\<lambda>s. andthen (brelse me d s) (brelse me b)) = Inr v" "sound v"
    "bio_frame u v" "store_of v = (copy_blk ?c ?a (store_of u))\<lparr>st_locked := st_locked (store_of u) - {?c} - {?a}\<rparr>"
    by blast
  have "write_log_step me i s = Inr v"
    using assms(2,3) r(1,2,4) v(1) bio_frame_log [OF r(4)] by (simp add: write_log_step_def slot_def)
  moreover have "store_of v = copy_blk ?c ?a (store_of s)"
    using v(4) r(9) assms(1) by (intro bstore_eqI) (auto simp: copy_blk_def copyable_def)
  ultimately show ?thesis
    using v(2) bio_frame_trans [OF r(5) v(3)] by (intro exI [of _ v] conjI) simp_all
qed

lemma install_step_ok:
  assumes "copyable (slot (log_start s) i) (lh_block s i) s" and "log_dev s = 1" and "i < LOGSIZE"
    and "slot (log_start s) i \<notin> st_dirty (store_of s)"
  shows "\<exists>t. install_step me i s = Inr t \<and> sound t \<and> bio_frame s t
    \<and> store_of t = copy_blk (slot (log_start s) i) (lh_block s i) (store_of s)"
proof -
  let ?a = "slot (log_start s) i" and ?c = "lh_block s i"
  obtain b t d u where r: "bread me 1 ?a s = Inr (b, t)" "bread me 1 ?c t = Inr (d, u)" "sound u" "bio_frame s t" "bio_frame s u"
    "holds me b ?a u" "holds me d ?c u" "b \<noteq> d" "store_of u = (store_of s)\<lparr>st_locked := {?a, ?c}\<rparr>"
    using read_two [OF assms(1)] by blast
  have "st_view (store_of s) ?a = st_disk (store_of s) ?a"
    using assms(1,4) by (intro bc.transparent) (simp_all add: copyable_def)
  then have ne: "?a \<noteq> ?c" "?c < disksize u" "settled ?a (store_of u)"
    using assms(1,4) r(9) bio_frame_disksize [OF r(5)] by (auto simp: copyable_def settled_def)
  from bc.copy_held [OF r(3,7,6) ne(1) r(8) [symmetric] ne(2,3)] obtain v where v:
    "andthen (bwrite me d (set_data d (bdata (bbuf u b)) u)) (\<lambda>s. andthen (brelse me b s) (brelse me d)) = Inr v" "sound v"
    "bio_frame u v" "store_of v = (copy_blk ?a ?c (store_of u))\<lparr>st_locked := st_locked (store_of u) - {?a} - {?c}\<rparr>"
    by blast
  have "install_step me i s = Inr v"
    using assms(2,3) r(1,2,4) v(1) bio_frame_log [OF r(4)] by (simp add: install_step_def slot_def)
  moreover have "store_of v = copy_blk ?a ?c (store_of s)"
    using v(4) r(9) assms(1) by (intro bstore_eqI) (auto simp: copy_blk_def copyable_def)
  ultimately show ?thesis
    using v(2) bio_frame_trans [OF r(5) v(3)] by (intro exI [of _ v] conjI) simp_all
qed

section \<open>The loops\<close>

text \<open>The log area and the blocks of the transaction: on the disk, and apart from each other.\<close>

definition in_log :: "u32 \<Rightarrow> u32 \<Rightarrow> bool" where
  "in_log ls x \<longleftrightarrow> x - ls \<le> 30"

definition log_layout :: "nat \<Rightarrow> (nat \<Rightarrow> u32) \<Rightarrow> u32 \<Rightarrow> u32 \<Rightarrow> bool" where
  "log_layout n blk ls sz \<longleftrightarrow> n \<le> LOGSIZE \<and> unat ls + 30 < unat sz \<and> (\<forall>i<n. blk i < sz \<and> \<not> in_log ls (blk i))"

lemma slot_minus: "i < LOGSIZE \<Longrightarrow> unat (slot ls i - ls) = Suc i"
proof -
  assume "i < LOGSIZE"
  have "slot ls i - ls = of_nat (Suc i)"
    by (simp add: slot_def)
  with \<open>i < LOGSIZE\<close> show ?thesis
    by (simp add: unat_of_nat del: of_nat_Suc)
qed

lemma slot_in_log [simp]: "i < LOGSIZE \<Longrightarrow> in_log ls (slot ls i)"
  by (simp add: in_log_def word_le_nat_alt slot_minus)

lemma head_in_log [simp]: "in_log ls ls"
  by (simp add: in_log_def)

lemma slot_inj: "i < LOGSIZE \<Longrightarrow> j < LOGSIZE \<Longrightarrow> slot ls i = slot ls j \<longleftrightarrow> i = j"
  using slot_minus [of i ls] slot_minus [of j ls] by (metis Suc_inject)

lemma slot_ne_head:
  assumes "i < LOGSIZE"
  shows "slot ls i \<noteq> ls"
proof
  assume "slot ls i = ls"
  then show False
    using slot_minus [OF assms, of ls] by simp
qed

lemma log_layoutD:
  assumes "log_layout n blk ls sz" and "i < n"
  shows "i < LOGSIZE" "slot ls i < sz" "blk i < sz" "\<not> in_log ls (blk i)" "j < LOGSIZE \<Longrightarrow> slot ls j \<noteq> blk i" "blk i \<noteq> ls"
proof -
  show i: "i < LOGSIZE" and "blk i < sz" and b: "\<not> in_log ls (blk i)"
    using assms by (auto simp: log_layout_def)
  have "unat (slot ls i) \<le> unat ls + Suc i"
    using unat_plus_if' [of ls "slot ls i - ls"] slot_minus [OF i, of ls] by (auto split: if_splits)
  then show "slot ls i < sz"
    using assms(1) i by (simp add: log_layout_def word_less_nat_alt)
  show "j < LOGSIZE \<Longrightarrow> slot ls j \<noteq> blk i" "blk i \<noteq> ls"
    using b slot_in_log [of j ls] head_in_log [of ls] by metis+
qed

lemma head_in_range: "log_layout n blk ls sz \<Longrightarrow> ls < sz"
  by (simp add: log_layout_def word_less_nat_alt)

abbreviation quiet_log :: "nat \<Rightarrow> 'a log_state_scheme \<Rightarrow> bool" where
  "quiet_log n s \<equiv> sound s \<and> log_dev s = 1 \<and> st_locked (store_of s) = {}
     \<and> log_layout n (lh_block s) (log_start s) (disksize s)"

lemma quiet_frame:
  "quiet_log n s \<Longrightarrow> bio_frame s t \<Longrightarrow> sound t \<Longrightarrow> st_locked (store_of t) = {} \<Longrightarrow> quiet_log n t"
  by (simp add: bio_frame_log bio_frame_disksize)

lemma copy_blk_sel [simp]:
  "st_locked (copy_blk m n S) = st_locked S" "st_dirty (copy_blk m n S) = st_dirty S - {n}"
  "st_view (copy_blk m n S) = (st_view S)(n := st_view S m)" "st_disk (copy_blk m n S) = (st_disk S)(n := st_view S m)"
  "st_writes (copy_blk m n S) = st_writes S @ [(n, st_view S m)]"
  by (simp_all add: copy_blk_def)

lemma put_blk_sel [simp]:
  "st_locked (put_blk n d S) = st_locked S" "st_dirty (put_blk n d S) = st_dirty S - {n}"
  "st_view (put_blk n d S) = (st_view S)(n := d)" "st_disk (put_blk n d S) = (st_disk S)(n := d)"
  "st_writes (put_blk n d S) = st_writes S @ [(n, d)]"
  by (simp_all add: put_blk_def)

lemma write_log_loop:
  assumes "quiet_log n s" and "set is \<subseteq> {0..<n}" and "\<And>i. i < n \<Longrightarrow> lh_block s i \<in> st_dirty (store_of s)"
    and "card (st_dirty (store_of s)) < NBUF"
  shows "\<exists>t. iterate (write_log_step me) is s = Inr t \<and> sound t \<and> bio_frame s t
    \<and> store_of t = fold (\<lambda>i. copy_blk (lh_block s i) (slot (log_start s) i)) is (store_of s)"
  using assms
proof (induction "is" arbitrary: s)
  case Nil
  then show ?case
    by (intro exI [of _ s]) auto
next
  case (Cons i "is")
  then have i: "i < n" "log_layout n (lh_block s) (log_start s) (disksize s)"
    by auto
  note lay = log_layoutD [OF i(2,1)]
  have "copyable (slot (log_start s) i) (lh_block s i) s" "settled (lh_block s i) (store_of s)"
    using Cons.prems lay i(1) by (auto simp: copyable_def settled_def)
  then obtain t where t: "write_log_step me i s = Inr t" "sound t" "bio_frame s t"
    "store_of t = copy_blk (lh_block s i) (slot (log_start s) i) (store_of s)"
    using write_log_step_ok lay(1) Cons.prems(1) by blast
  note fr = bio_frame_log [OF t(3)]
  have "\<exists>u. iterate (write_log_step me) is t = Inr u \<and> sound u \<and> bio_frame t u
    \<and> store_of u = fold (\<lambda>i. copy_blk (lh_block t i) (slot (log_start t) i)) is (store_of t)"
  proof (rule Cons.IH)
    show "quiet_log n t"
      using quiet_frame [OF Cons.prems(1) t(3,2)] t(4) Cons.prems(1) by simp
    show "lh_block t j \<in> st_dirty (store_of t)" if "j < n" for j
      using Cons.prems(3) [OF that] log_layoutD(5) [OF i(2) that lay(1)] by (simp add: fr t(4))
    show "card (st_dirty (store_of t)) < NBUF"
      using Cons.prems(4) card_Diff1_le [of "st_dirty (store_of s)" "slot (log_start s) i"] by (simp add: t(4))
  qed (use Cons.prems(2) in auto)
  then show ?case
    using t bio_frame_trans [OF t(3)] fr by auto
qed

lemma install_loop:
  assumes "quiet_log n s" and "set is \<subseteq> {0..<n}" and "\<And>i. i < n \<Longrightarrow> slot (log_start s) i \<notin> st_dirty (store_of s)"
    and "card (st_dirty (store_of s)) + 1 < NBUF
      \<or> card (st_dirty (store_of s)) < NBUF \<and> (\<forall>i\<in>set is. lh_block s i \<in> st_dirty (store_of s))"
  shows "\<exists>t. iterate (install_step me) is s = Inr t \<and> sound t \<and> bio_frame s t
    \<and> store_of t = fold (\<lambda>i. copy_blk (slot (log_start s) i) (lh_block s i)) is (store_of s)"
  using assms
proof (induction "is" arbitrary: s)
  case Nil
  then show ?case
    by (intro exI [of _ s]) auto
next
  case (Cons i "is")
  then have i: "i < n" "log_layout n (lh_block s) (log_start s) (disksize s)"
    by auto
  note lay = log_layoutD [OF i(2,1)]
  have "copyable (slot (log_start s) i) (lh_block s i) s" "slot (log_start s) i \<notin> st_dirty (store_of s)"
    using Cons.prems lay i(1) by (auto simp: copyable_def)
  then obtain t where t: "install_step me i s = Inr t" "sound t" "bio_frame s t"
    "store_of t = copy_blk (slot (log_start s) i) (lh_block s i) (store_of s)"
    using install_step_ok lay(1) Cons.prems(1) by blast
  note fr = bio_frame_log [OF t(3)]
  have fin: "finite (st_dirty (store_of s))"
    using bc.finite_sets Cons.prems(1) by blast
  have "\<exists>u. iterate (install_step me) is t = Inr u \<and> sound u \<and> bio_frame t u
    \<and> store_of u = fold (\<lambda>i. copy_blk (slot (log_start t) i) (lh_block t i)) is (store_of t)"
  proof (rule Cons.IH)
    show "quiet_log n t"
      using quiet_frame [OF Cons.prems(1) t(3,2)] t(4) Cons.prems(1) by simp
    show "slot (log_start t) j \<notin> st_dirty (store_of t)" if "j < n" for j
      using Cons.prems(3) [OF that] by (simp add: fr t(4))
    have "card (st_dirty (store_of t)) + 1 < NBUF"
      using Cons.prems(4) card_Diff1_le [of "st_dirty (store_of s)" "lh_block s i"]
        card_Diff1_less [OF fin, of "lh_block s i"] by (auto simp: t(4))
    then show "card (st_dirty (store_of t)) + 1 < NBUF
      \<or> card (st_dirty (store_of t)) < NBUF \<and> (\<forall>i\<in>set is. lh_block t i \<in> st_dirty (store_of t))"
      by blast
  qed (use Cons.prems(2) in auto)
  then show ?case
    using t bio_frame_trans [OF t(3)] fr by auto
qed


section \<open>The header\<close>

definition header :: "nat \<Rightarrow> (nat \<Rightarrow> u32) \<Rightarrow> block \<Rightarrow> block" where
  "header n blk d = fold (\<lambda>i. store32 (4 + 4 * of_nat i) (blk i)) [0..<n] (store32 0 (of_nat n) d)"

lemma below_small: "unat n < 0x80000000 \<Longrightarrow> below n = [0..<unat n]"
  by (simp add: below_def sint_small)

lemma set_data_log [simp]:
  "lh_block (set_data b d s) = lh_block s" "lh_n (set_data b d s) = lh_n s" "log_start (set_data b d s) = log_start s"
  "bdata (bbuf (set_data b d s) b) = d" "set_data b e (set_data b d s) = set_data b e s"
  by (simp_all add: set_data_def upd_buf_def)

lemma write_head_loop:
  assumes "\<forall>i\<in>set is. i < LOGSIZE"
  shows "iterate (\<lambda>i s. if i \<ge> LOGSIZE then Inl (BadAccess (of_nat i))
      else Inr (set_data b (store32 (4 + 4 * of_nat i) (lh_block s i) (bdata (bbuf s b))) s)) is (set_data b d s)
    = Inr (set_data b (fold (\<lambda>i. store32 (4 + 4 * of_nat i) (lh_block s i)) is d) s)"
  using assms by (induction "is" arbitrary: d) (simp_all add: not_le)

lemma write_head_ok:
  assumes "quiet_log (unat (lh_n s)) s" and "card (st_dirty (store_of s)) < NBUF"
  shows "\<exists>t. write_head me s = Inr t \<and> sound t \<and> bio_frame s t
    \<and> store_of t = put_blk (log_start s) (header (unat (lh_n s)) (lh_block s) (st_view (store_of s) (log_start s))) (store_of s)"
proof -
  let ?ls = "log_start s" and ?S = "store_of s" and ?n = "unat (lh_n s)"
  have q: "sound s" "log_dev s = 1" "st_locked ?S = {}" "?ls < disksize s" "?n \<le> LOGSIZE"
    using assms(1) head_in_range by (auto simp: log_layout_def)
  have "readable ?ls ?S"
    using q(3) assms(2) by (simp add: readable_def)
  from bc.br_law [OF q(1,4) this, of me] obtain b t where b: "bread me 1 ?ls s = Inr (b, t)" "sound t" "holds me b ?ls t"
    "store_of t = ?S\<lparr>st_locked := {?ls}\<rparr>" "bio_frame s t"
    using q(3) by auto
  note fr = bio_frame_log [OF b(5)]
  have data: "bdata (bbuf t b) = st_view ?S ?ls"
    using bc.held_data [OF b(2,3)] b(4) by simp
  let ?h = "header ?n (lh_block s) (st_view ?S ?ls)"
  have loop: "iterate (\<lambda>i s. if i \<ge> LOGSIZE then Inl (BadAccess (of_nat i))
      else Inr (set_data b (store32 (4 + 4 * of_nat i) (lh_block s i) (bdata (bbuf s b))) s)) (below (lh_n s))
      (set_data b (store32 0 (lh_n s) (bdata (bbuf t b))) t) = Inr (set_data b ?h t)"
    using write_head_loop [of "below (lh_n s)" b "store32 0 (lh_n s) (bdata (bbuf t b))" t] q(5) fr data
    by (simp add: below_small header_def)
  have "?ls < disksize t"
    using q(4) bio_frame_disksize [OF b(5)] by simp
  from bc.write_through [OF b(2,3) this, of ?h] obtain u v where u: "bwrite me b (set_data b ?h t) = Inr u" "brelse me b u = Inr v" "sound v"
    "bio_frame t v" "store_of v = (put_blk ?ls ?h (store_of t))\<lparr>st_locked := st_locked (store_of t) - {?ls}\<rparr>"
    by blast
  have "write_head me s = Inr v"
    using b(1) loop u(1,2) fr q(2) by (simp add: write_head_def Let_def)
  moreover have "store_of v = put_blk ?ls ?h ?S"
    using u(5) b(4) q(3) by (intro bstore_eqI) auto
  ultimately show ?thesis
    using u(3) bio_frame_trans [OF b(5) u(4)] by (intro exI [of _ v] conjI) simp_all
qed

lemma bio_frame_lh:
  "bio_frame s t \<Longrightarrow> bio_frame (s\<lparr>lh_n := n, lh_block := B\<rparr>) (t\<lparr>lh_n := n, lh_block := B\<rparr>)"
  unfolding bio_frame_def by (cases s) auto

lemma read_head_loop:
  assumes "\<forall>i\<in>set is. i < LOGSIZE" and "distinct is"
  shows "\<exists>B. iterate (\<lambda>i s. if i \<ge> LOGSIZE then Inl (BadAccess (of_nat i))
      else Inr (s\<lparr>lh_block := (lh_block s)(i := load32 (bdata (bbuf s b)) (4 + 4 * of_nat i))\<rparr>)) is s = Inr (s\<lparr>lh_block := B\<rparr>)
    \<and> (\<forall>i. B i = (if i \<in> set is then load32 (bdata (bbuf s b)) (4 + 4 * of_nat i) else lh_block s i))"
  using assms
proof (induction "is" arbitrary: s)
  case Nil
  then show ?case
    by (intro exI [of _ "lh_block s"]) simp
next
  case (Cons i "is")
  let ?s = "s\<lparr>lh_block := (lh_block s)(i := load32 (bdata (bbuf s b)) (4 + 4 * of_nat i))\<rparr>"
  obtain B where B: "iterate (\<lambda>i s. if i \<ge> LOGSIZE then Inl (BadAccess (of_nat i))
      else Inr (s\<lparr>lh_block := (lh_block s)(i := load32 (bdata (bbuf s b)) (4 + 4 * of_nat i))\<rparr>)) is ?s = Inr (?s\<lparr>lh_block := B\<rparr>)"
    "\<forall>j. B j = (if j \<in> set is then load32 (bdata (bbuf ?s b)) (4 + 4 * of_nat j) else lh_block ?s j)"
    using Cons.IH [of ?s] Cons.prems by auto
  show ?case
  proof (intro exI [of _ B] conjI)
    show "iterate (\<lambda>i s. if i \<ge> LOGSIZE then Inl (BadAccess (of_nat i))
      else Inr (s\<lparr>lh_block := (lh_block s)(i := load32 (bdata (bbuf s b)) (4 + 4 * of_nat i))\<rparr>)) (i # is) s = Inr (s\<lparr>lh_block := B\<rparr>)"
      using B(1) Cons.prems(1) by (simp add: not_le)
  qed (use B(2) Cons.prems(2) in auto)
qed

lemma read_head_ok:
  assumes "sound s" and "log_dev s = 1" and "st_locked (store_of s) = {}" and "st_dirty (store_of s) = {}"
    and "log_start s < disksize s" and "unat (load32 (st_disk (store_of s) (log_start s)) 0) \<le> LOGSIZE"
  shows "\<exists>t B. read_head me s = Inr t \<and> sound t \<and> store_of t = store_of s
    \<and> bio_frame (s\<lparr>lh_n := load32 (st_disk (store_of s) (log_start s)) 0, lh_block := B\<rparr>) t
    \<and> (\<forall>i<unat (load32 (st_disk (store_of s) (log_start s)) 0). B i = load32 (st_disk (store_of s) (log_start s)) (4 + 4 * of_nat i))"
proof -
  let ?ls = "log_start s" and ?S = "store_of s"
  let ?n = "load32 (st_disk ?S ?ls) 0"
  have v: "st_view ?S ?ls = st_disk ?S ?ls"
    using assms(1,3,4) by (intro bc.transparent) simp_all
  have "readable ?ls ?S"
    using assms(3,4) by (simp add: readable_def)
  from bc.br_law [OF assms(1,5) this, of me] obtain b t where b: "bread me 1 ?ls s = Inr (b, t)" "sound t" "holds me b ?ls t"
    "store_of t = ?S\<lparr>st_locked := {?ls}\<rparr>" "bio_frame s t"
    using assms(3) by auto
  have data: "bdata (bbuf t b) = st_disk ?S ?ls"
    using bc.held_data [OF b(2,3)] b(4) v by simp
  have "below ?n = [0..<unat ?n]"
    using assms(6) by (simp add: below_small)
  with read_head_loop [of "below ?n" b "t\<lparr>lh_n := ?n\<rparr>"] obtain B where B:
    "iterate (\<lambda>i s. if i \<ge> LOGSIZE then Inl (BadAccess (of_nat i))
      else Inr (s\<lparr>lh_block := (lh_block s)(i := load32 (bdata (bbuf s b)) (4 + 4 * of_nat i))\<rparr>)) (below ?n) (t\<lparr>lh_n := ?n\<rparr>)
     = Inr (t\<lparr>lh_n := ?n, lh_block := B\<rparr>)" "\<forall>i<unat ?n. B i = load32 (st_disk ?S ?ls) (4 + 4 * of_nat i)"
    using assms(6) data by auto
  let ?t = "t\<lparr>lh_n := ?n, lh_block := B\<rparr>"
  have "settled ?ls (store_of ?t)"
    using b(4) v by (simp add: settled_def)
  moreover have "sound ?t" "holds me b ?ls ?t"
    using b(2,3) by simp_all
  ultimately obtain u where u: "brelse me b ?t = Inr u" "sound u" "bio_frame ?t u"
    "store_of u = (store_of ?t)\<lparr>st_locked := st_locked (store_of ?t) - {?ls}\<rparr>"
    using bc.rel_law by blast
  have "read_head me s = Inr u"
    using b(1) B(1) u(1) data assms(2) by (simp add: read_head_def Let_def)
  moreover have "store_of u = ?S"
    using u(4) b(4) assms(3) by (intro bstore_eqI) auto
  ultimately show ?thesis
    using u(2) B(2) bio_frame_trans [OF bio_frame_lh [OF b(5)] u(3)] by (intro exI [of _ u] exI [of _ B] conjI) simp_all
qed


end
