(* ===== verification/CacheTrace.thy ===== *)
theory CacheTrace
  imports BufCache Machine
begin

text \<open>
  Histories of the buffer cache: any number of processes read blocks, change the buffers they hold,
  mark them dirty (as \<^verbatim>\<open>log_write\<close> does), write them and release them, in any order. A holder that
  changed a buffer writes it or marks it dirty before releasing it.
\<close>

text \<open>
  \<open>M\<close> is the abstract disk, which only the holder of a block changes.
\<close>

inductive cache_trace :: "'a bio_state_scheme \<Rightarrow> (u32 \<Rightarrow> block) \<Rightarrow> 'a bio_state_scheme \<Rightarrow> bool" for s where
  trace_init: "cache_trace s (disk s) (binit s)"
| trace_read: "cache_trace s M t \<Longrightarrow> n < disksize t \<Longrightarrow> bread me 1 n t = Inr (b, u) \<Longrightarrow> cache_trace s M u"
| trace_change: "cache_trace s M t \<Longrightarrow> holds me b n t \<Longrightarrow> cache_trace s (M(n := d)) (set_data b d t)"
| trace_dirty: "cache_trace s M t \<Longrightarrow> holds me b n t \<Longrightarrow> cache_trace s M (mark_dirty b t)"
| trace_write: "cache_trace s M t \<Longrightarrow> holds me b n t \<Longrightarrow> n < disksize t \<Longrightarrow> bwrite me b t = Inr u \<Longrightarrow> cache_trace s M u"
| trace_release: "cache_trace s M t \<Longrightarrow> holds me b n t \<Longrightarrow> n \<in> dirty t \<or> M n = disk t n \<Longrightarrow> brelse me b t = Inr u
    \<Longrightarrow> cache_trace s M u"
| trace_else: "cache_trace s M t \<Longrightarrow> bbuf u = bbuf t \<Longrightarrow> disk u = disk t \<Longrightarrow> cache_trace s M u"

definition zeroed :: "'a bio_state_scheme \<Rightarrow> bool" where
  "zeroed s \<longleftrightarrow> (\<forall>b<NBUF. bflags (bbuf s b) = 0 \<and> bdev (bbuf s b) = 0 \<and> brefcnt (bbuf s b) = 0)"

lemma cache_trace_inv: "cache_trace s M t \<Longrightarrow> zeroed s \<Longrightarrow> (\<exists>bs. cache_ok bs t) \<and> view t = M"
proof (induction rule: cache_trace.induct)
  case trace_init
  then show ?case
    using binit_ok [of s] by (auto simp: zeroed_def)
next
  case (trace_read M t n me b u)
  then show ?case
    using bread_ok(1,4) by metis
next
  case (trace_change M t me b n d)
  then show ?case
    using set_data_ok(1,3) by metis
next
  case (trace_dirty M t me b n)
  then show ?case
    using mark_dirty_ok(1,3) by metis
next
  case (trace_write M t me b n u)
  then show ?case
    using bwrite_ok(1,3) by metis
next
  case (trace_release M t me b n u)
  then obtain bs where "cache_ok bs t" "n \<in> dirty t \<or> view t n = disk t n"
    by blast
  from brelse_ok [OF this(1) trace_release.hyps(2) this(2)] show ?case
    using trace_release by auto
next
  case (trace_else M t u)
  have "view u = view t" "cache_ok bs u = cache_ok bs t" for bs
    unfolding view_def cached_def cache_ok_def lru_def trace_else.hyps by simp_all
  with trace_else show ?case
    by simp
qed


lemma zeroed_machine [simp]: "zeroed machine"
  by (simp add: zeroed_def free_buf_def)

lemma disksize_binit [simp]: "disksize (binit s) = disksize s"
  by (rule bio_frame_disksize [OF bio_frame_binit])

lemma fresh_bread:
  assumes "zeroed s" and "n < disksize s"
  shows "\<exists>b t. bread me 1 n (binit s) = Inr (b, t)"
proof (rule bread_returns)
  note ok = binit_ok [of s, OF assms(1) [unfolded zeroed_def, rule_format]]
  show "cache_ok (rev [0..<NBUF]) (binit s)"
    by (rule ok)
  show "b \<notin> busy (binit s)" for b
    by (simp add: ok(3))
  show "cached (binit s) n \<noteq> None \<or> (\<exists>b<NBUF. b \<notin> busy (binit s) \<and> bflags (bbuf (binit s) b) \<noteq> 6)"
    using ok(6) [of 0] by (intro disjI2 exI [of _ 0]) (simp add: ok(3))
qed (simp add: assms(2))




end
