(* ===== verification/LogSafe.thy ===== *)
theory LogSafe
  imports LogStore CacheTrace
begin

text \<open>
  Transactions are atomic: a crash at any point of \<^verbatim>\<open>commit\<close> leaves a disk from which \<^verbatim>\<open>initlog\<close> recovers
  either all of the transaction's blocks or none; and the log never overflows while operations keep
  to their reservation.
\<close>

section \<open>Sequences of writes\<close>

definition apply_writes :: "(u32 \<times> block) list \<Rightarrow> (u32 \<Rightarrow> block) \<Rightarrow> u32 \<Rightarrow> block" where
  "apply_writes W D = fold (\<lambda>(n, d) D. D(n := d)) W D"

definition push :: "(u32 \<times> block) list \<Rightarrow> bstore \<Rightarrow> bstore" where
  "push W S = S\<lparr>st_view := apply_writes W (st_view S), st_disk := apply_writes W (st_disk S),
     st_writes := st_writes S @ W, st_dirty := st_dirty S - fst ` set W\<rparr>"

lemma apply_writes_simps [simp]:
  "apply_writes [] D = D" "apply_writes ((n, d) # W) D = apply_writes W (D(n := d))"
  "apply_writes (V @ W) D = apply_writes W (apply_writes V D)"
  by (simp_all add: apply_writes_def)

lemma apply_writes_other: "x \<notin> fst ` set W \<Longrightarrow> apply_writes W D x = D x"
  by (induction W arbitrary: D) (auto simp: apply_writes_def)

lemma apply_writes_hit:
  "x \<in> fst ` set W \<Longrightarrow> \<forall>d. (x, d) \<in> set W \<longrightarrow> d = v \<Longrightarrow> apply_writes W D x = v"
proof (induction W arbitrary: D)
  case (Cons w W)
  obtain n d where w: "w = (n, d)"
    by (cases w)
  show ?case
  proof (cases "x \<in> fst ` set W")
    case True
    then show ?thesis
      using Cons.IH Cons.prems(2) w by simp
  next
    case False
    then show ?thesis
      using Cons.prems w by (auto simp: apply_writes_other)
  qed
qed simp

lemma push_simps [simp]:
  "st_view (push W S) = apply_writes W (st_view S)" "st_disk (push W S) = apply_writes W (st_disk S)"
  "st_writes (push W S) = st_writes S @ W" "st_dirty (push W S) = st_dirty S - fst ` set W" "st_locked (push W S) = st_locked S"
  by (simp_all add: push_def)

lemma push_push: "push W (push V S) = push (V @ W) S"
  by (rule bstore_eqI) auto

lemma put_blk_push: "put_blk n d S = push [(n, d)] S"
  by (rule bstore_eqI) auto

lemma copy_fold_push:
  assumes "\<And>i j. i \<in> set is \<Longrightarrow> j \<in> set is \<Longrightarrow> src i \<noteq> dst j"
  shows "fold (\<lambda>i. copy_blk (src i) (dst i)) is S = push (map (\<lambda>i. (dst i, st_view S (src i))) is) S"
  using assms
proof (induction "is" arbitrary: S)
  case Nil
  show ?case
    by (rule bstore_eqI) simp_all
next
  case (Cons i "is")
  let ?T = "copy_blk (src i) (dst i) S"
  have T: "?T = push [(dst i, st_view S (src i))] S"
    by (rule bstore_eqI) simp_all
  have m: "map (\<lambda>j. (dst j, st_view ?T (src j))) is = map (\<lambda>j. (dst j, st_view S (src j))) is"
    using Cons.prems by auto
  have "fold (\<lambda>i. copy_blk (src i) (dst i)) is ?T = push (map (\<lambda>j. (dst j, st_view ?T (src j))) is) ?T"
    by (rule Cons.IH) (use Cons.prems in auto)
  then show ?case
    unfolding m by (simp add: T push_push)
qed

section \<open>Commit\<close>

definition log_writes :: "nat \<Rightarrow> (nat \<Rightarrow> u32) \<Rightarrow> u32 \<Rightarrow> (u32 \<Rightarrow> block) \<Rightarrow> (u32 \<times> block) list" where
  "log_writes n blk ls v = map (\<lambda>i. (slot ls i, v (blk i))) [0..<n]"

definition home_writes :: "nat \<Rightarrow> (nat \<Rightarrow> u32) \<Rightarrow> (u32 \<Rightarrow> block) \<Rightarrow> (u32 \<times> block) list" where
  "home_writes n blk v = map (\<lambda>i. (blk i, v (blk i))) [0..<n]"

definition commit_writes :: "nat \<Rightarrow> (nat \<Rightarrow> u32) \<Rightarrow> u32 \<Rightarrow> (u32 \<Rightarrow> block) \<Rightarrow> (u32 \<times> block) list" where
  "commit_writes n blk ls v =
     log_writes n blk ls v @ [(ls, header n blk (v ls))] @ home_writes n blk v @ [(ls, store32 0 0 (header n blk (v ls)))]"

lemma log_writes_keys: "n \<le> LOGSIZE \<Longrightarrow> x \<in> fst ` set (log_writes n blk ls v) \<Longrightarrow> in_log ls x \<and> x \<noteq> ls"
  using slot_ne_head by (auto simp: log_writes_def)

lemma home_writes_keys: "fst ` set (home_writes n blk v) = blk ` {0..<n}"
  by (force simp: home_writes_def)

lemma log_writes_at:
  assumes "i < n" and "n \<le> LOGSIZE"
  shows "apply_writes (log_writes n blk ls v) D (slot ls i) = v (blk i)"
proof (rule apply_writes_hit)
  show "slot ls i \<in> fst ` set (log_writes n blk ls v)"
    using assms(1) by (force simp: log_writes_def)
  show "\<forall>d. (slot ls i, d) \<in> set (log_writes n blk ls v) \<longrightarrow> d = v (blk i)"
    using assms slot_inj by (auto simp: log_writes_def)
qed

lemma home_writes_at:
  assumes "x \<in> blk ` {0..<n}"
  shows "apply_writes (home_writes n blk v) D x = v x"
  using assms by (intro apply_writes_hit) (force simp: home_writes_keys, auto simp: home_writes_def)

lemma quiet_layout: "quiet_log n s \<Longrightarrow> log_layout n (lh_block s) (log_start s) (disksize s)"
  by blast

lemma layout_below: "log_layout (unat n) blk ls sz \<Longrightarrow> below n = [0..<unat n]"
  by (simp add: below_small log_layout_def)

lemma write_log_ok:
  assumes "quiet_log (unat (lh_n s)) s" and "lh_block s ` {0..<unat (lh_n s)} \<subseteq> st_dirty (store_of s)"
    and "card (st_dirty (store_of s)) < NBUF"
  shows "\<exists>t. write_log me s = Inr t \<and> sound t \<and> bio_frame s t
    \<and> store_of t = push (log_writes (unat (lh_n s)) (lh_block s) (log_start s) (st_view (store_of s))) (store_of s)"
proof -
  let ?n = "unat (lh_n s)"
  note lay = log_layoutD [OF quiet_layout [OF assms(1)]]
  have ne: "lh_block s i \<noteq> slot (log_start s) j" if "i < ?n" "j < ?n" for i j
    using lay(5) [OF that(1), of j] lay(1) [OF that(2)] by metis
  have "\<exists>t. iterate (write_log_step me) [0..<?n] s = Inr t \<and> sound t \<and> bio_frame s t
      \<and> store_of t = fold (\<lambda>i. copy_blk (lh_block s i) (slot (log_start s) i)) [0..<?n] (store_of s)"
    using assms by (intro write_log_loop [where n = ?n]) auto
  moreover have "fold (\<lambda>i. copy_blk (lh_block s i) (slot (log_start s) i)) [0..<?n] (store_of s)
      = push (map (\<lambda>i. (slot (log_start s) i, st_view (store_of s) (lh_block s i))) [0..<?n]) (store_of s)"
    by (rule copy_fold_push) (use ne in auto)
  ultimately show ?thesis
    using layout_below [OF quiet_layout [OF assms(1)]] by (simp add: write_log_def log_writes_def)
qed

lemma install_ok:
  assumes "quiet_log (unat (lh_n s)) s" and "\<And>i. i < unat (lh_n s) \<Longrightarrow> slot (log_start s) i \<notin> st_dirty (store_of s)"
    and "card (st_dirty (store_of s)) + 1 < NBUF
      \<or> card (st_dirty (store_of s)) < NBUF \<and> lh_block s ` {0..<unat (lh_n s)} \<subseteq> st_dirty (store_of s)"
  shows "\<exists>t. install_trans me s = Inr t \<and> sound t \<and> bio_frame s t
    \<and> store_of t = push (map (\<lambda>i. (lh_block s i, st_view (store_of s) (slot (log_start s) i))) [0..<unat (lh_n s)]) (store_of s)"
proof -
  let ?n = "unat (lh_n s)"
  note lay = log_layoutD [OF quiet_layout [OF assms(1)]]
  have ne: "slot (log_start s) i \<noteq> lh_block s j" if "i < ?n" "j < ?n" for i j
    using lay(5) [OF that(2), of i] lay(1) [OF that(1)] by metis
  have "\<exists>t. iterate (install_step me) [0..<?n] s = Inr t \<and> sound t \<and> bio_frame s t
      \<and> store_of t = fold (\<lambda>i. copy_blk (slot (log_start s) i) (lh_block s i)) [0..<?n] (store_of s)"
    using assms by (intro install_loop [where n = ?n]) auto
  moreover have "fold (\<lambda>i. copy_blk (slot (log_start s) i) (lh_block s i)) [0..<?n] (store_of s)
      = push (map (\<lambda>i. (lh_block s i, st_view (store_of s) (slot (log_start s) i))) [0..<?n]) (store_of s)"
    by (rule copy_fold_push) (use ne in auto)
  ultimately show ?thesis
    using layout_below [OF quiet_layout [OF assms(1)]] by (simp add: install_trans_def)
qed

lemma head_ok:
  assumes "quiet_log (unat (lh_n s)) s" and "card (st_dirty (store_of s)) < NBUF"
  shows "\<exists>t. write_head me s = Inr t \<and> sound t \<and> bio_frame s t
    \<and> store_of t = push [(log_start s, header (unat (lh_n s)) (lh_block s) (st_view (store_of s) (log_start s)))] (store_of s)"
  using write_head_ok [OF assms] by (simp add: put_blk_push)

lemma quiet_push:
  "quiet_log n s \<Longrightarrow> bio_frame s t \<Longrightarrow> sound t \<Longrightarrow> store_of t = push W (store_of s) \<Longrightarrow> quiet_log n t"
  by (rule quiet_frame) simp_all

lemma card_push: "sound s \<Longrightarrow> card (st_dirty (push W (store_of s))) \<le> card (st_dirty (store_of s))"
  using bc.finite_sets [of s] by (auto intro!: card_mono)

lemma image_disjoint: "(\<And>i. i < n \<Longrightarrow> f i \<notin> K) \<Longrightarrow> f ` {0..<n} \<inter> K = {}" for n :: nat
  by auto

lemma bio_frame_lh_n: "bio_frame s t \<Longrightarrow> bio_frame (s\<lparr>lh_n := n\<rparr>) (t\<lparr>lh_n := n\<rparr>)"
  unfolding bio_frame_def by (cases s) auto

lemma header_zero: "header 0 blk d = store32 0 0 d"
  by (simp add: header_def)

text \<open>A transaction ready to be committed: the dirty blocks are exactly those in the log header.\<close>

definition commit_ready :: "'a log_state_scheme \<Rightarrow> bool" where
  "commit_ready s \<longleftrightarrow> (\<exists>bs. cache_ok bs s) \<and> busy s = {} \<and> log_dev s = 1 \<and> 0 < lh_n s \<and> unat (lh_n s) < NBUF
     \<and> log_layout (unat (lh_n s)) (lh_block s) (log_start s) (disksize s)
     \<and> dirty s = lh_block s ` {0..<unat (lh_n s)}"

lemma commit_ok:
  assumes "commit_ready s"
  shows "\<exists>t. commit me s = Inr t \<and> sound t \<and> bio_frame (s\<lparr>lh_n := 0\<rparr>) t
    \<and> store_of t = push (commit_writes (unat (lh_n s)) (lh_block s) (log_start s) (view s)) (store_of s)"
proof -
  let ?n = "unat (lh_n s)" and ?ls = "log_start s" and ?blk = "lh_block s" and ?v = "view s" and ?S = "store_of s"
  let ?h = "header ?n ?blk (?v ?ls)"
  let ?W1 = "log_writes ?n ?blk ?ls ?v"
  have S: "st_view ?S = ?v" "st_dirty ?S = ?blk ` {0..<?n}" "st_locked ?S = {}"
    using assms by (auto simp: commit_ready_def store_of_def)
  have q: "quiet_log ?n s" "?n < NBUF" "0 < ?n"
    using assms S(3) by (auto simp: commit_ready_def word_less_nat_alt)
  note lay = log_layoutD [OF quiet_layout [OF q(1)]]
  have pos: "0 <s lh_n s"
    using q(2,3) by (simp add: sless_small)
  have n30: "?n \<le> LOGSIZE"
    using q(2) by simp
  have card: "card (st_dirty ?S) < NBUF"
    using card_image_le [of "{0..<?n}" ?blk] q(2) S(2) by simp
  have W1_ls: "?ls \<notin> fst ` set ?W1"
    using log_writes_keys [OF n30] by blast
  have W1_blk: "?blk i \<notin> fst ` set ?W1" "?blk i \<noteq> ?ls" if "i < ?n" for i
    using log_writes_keys [OF n30] lay(4,6) [OF that] by blast+
  obtain t1 where t1: "write_log me s = Inr t1" "sound t1" "bio_frame s t1" "store_of t1 = push ?W1 ?S"
    using write_log_ok [OF q(1) _ card, of me] S(1,2) by auto
  note f1 = bio_frame_log [OF t1(3)]
  have q1: "quiet_log (unat (lh_n t1)) t1" "card (st_dirty (store_of t1)) < NBUF"
    using quiet_push [OF q(1) t1(3,2,4)] f1 card_push [of s ?W1] q(1) card unfolding t1(4) by simp_all
  have "st_view (store_of t1) ?ls = ?v ?ls"
    using W1_ls S(1) by (simp add: t1(4) apply_writes_other)
  then obtain t2 where t2: "write_head me t1 = Inr t2" "sound t2" "bio_frame t1 t2"
    "store_of t2 = push (?W1 @ [(?ls, ?h)]) ?S"
    using head_ok [OF q1, of me] by (auto simp: f1 t1(4) push_push)
  note f2 = bio_frame_log [OF t2(3)]
  have q2: "quiet_log (unat (lh_n t2)) t2"
    using quiet_frame [OF q1(1) t2(3,2)] f2 S(3) unfolding t2(4) by simp
  have d2: "st_dirty (store_of t2) = ?blk ` {0..<?n}"
  proof -
    have "?blk ` {0..<?n} \<inter> insert ?ls (fst ` set ?W1) = {}"
      using W1_blk by (intro image_disjoint) simp
    then show ?thesis
      by (simp add: t2(4) S(2) Diff_triv)
  qed
  have v2: "st_view (store_of t2) (slot ?ls i) = ?v (?blk i)" if "i < ?n" for i
    using log_writes_at [OF that n30] slot_ne_head [OF lay(1) [OF that]] S(1) by (simp add: t2(4))
  have "slot ?ls i \<notin> ?blk ` {0..<?n}" if "i < ?n" for i
    using lay(5) lay(1) [OF that] by fastforce
  then have "\<exists>t. install_trans me t2 = Inr t \<and> sound t \<and> bio_frame t2 t
    \<and> store_of t = push (map (\<lambda>i. (?blk i, st_view (store_of t2) (slot ?ls i))) [0..<?n]) (store_of t2)"
    using install_ok [OF q2, of me] d2 card S(2) by (simp add: f1 f2)
  moreover have "map (\<lambda>i. (?blk i, st_view (store_of t2) (slot ?ls i))) [0..<?n] = home_writes ?n ?blk ?v"
    using v2 by (simp add: home_writes_def)
  ultimately obtain t3 where t3: "install_trans me t2 = Inr t3" "sound t3" "bio_frame t2 t3"
    "store_of t3 = push (?W1 @ [(?ls, ?h)] @ home_writes ?n ?blk ?v) ?S"
    by (auto simp: t2(4) push_push)
  note f3 = bio_frame_log [OF t3(3)]
  let ?t = "t3\<lparr>lh_n := 0\<rparr>"
  have S3: "st_locked (store_of t3) = {}" "st_dirty (store_of t3) = {}"
    using S by (auto simp: t3(4) home_writes_keys image_Un)
  have q3: "quiet_log (unat (lh_n ?t)) ?t" "card (st_dirty (store_of ?t)) < NBUF"
    using q2 t3(2) S3 bio_frame_disksize [OF t3(3)] by (auto simp: f3 log_layout_def)
  have "?ls \<notin> fst ` set (home_writes ?n ?blk ?v)"
    unfolding home_writes_keys using W1_blk(2) by fastforce
  then have v3: "st_view (store_of ?t) ?ls = ?h"
    by (simp add: t3(4) apply_writes_other)
  obtain t4 where t4: "write_head me ?t = Inr t4" "sound t4" "bio_frame ?t t4"
    "store_of t4 = push (commit_writes ?n ?blk ?ls ?v) ?S"
    using head_ok [OF q3, of me] v3 by (auto simp: f1 f2 f3 t3(4) push_push commit_writes_def header_zero)
  have "bio_frame (s\<lparr>lh_n := 0\<rparr>) ?t"
    using bio_frame_lh_n [OF bio_frame_trans [OF t1(3) bio_frame_trans [OF t2(3) t3(3)]]] .
  moreover have "commit me s = Inr t4"
    using t1(1) t2(1) t3(1) t4(1) pos by (simp add: commit_def)
  ultimately show ?thesis
    using t4(2,4) bio_frame_trans [OF _ t4(3)] by (intro exI [of _ t4] conjI) simp_all
qed

lemma commit_writes_keys:
  assumes "log_layout n blk ls sz" and "x \<in> fst ` set (commit_writes n blk ls v)"
  shows "in_log ls x \<or> x \<in> blk ` {0..<n}"
proof -
  have n: "n \<le> LOGSIZE"
    using assms(1) by (simp add: log_layout_def)
  have "x \<in> fst ` set (log_writes n blk ls v) \<or> x = ls \<or> x \<in> fst ` set (home_writes n blk v)"
    using assms(2) by (auto simp: commit_writes_def image_Un)
  then show ?thesis
    using log_writes_keys [OF n] home_writes_keys by (metis head_in_log)
qed

section \<open>Recovery\<close>

abbreviation entry :: "block \<Rightarrow> nat \<Rightarrow> u32" where
  "entry d i \<equiv> load32 d (4 + 4 * of_nat i)"

definition recover_writes :: "u32 \<Rightarrow> (u32 \<Rightarrow> block) \<Rightarrow> (u32 \<times> block) list" where
  "recover_writes ls D = map (\<lambda>i. (entry (D ls) i, D (slot ls i))) [0..<unat (load32 (D ls) 0)] @ [(ls, store32 0 0 (D ls))]"

definition clean :: "'a bio_state_scheme \<Rightarrow> bool" where
  "clean s \<longleftrightarrow> (\<exists>bs. cache_ok bs s) \<and> st_locked (store_of s) = {} \<and> st_dirty (store_of s) = {}"

lemma cleanD:
  assumes "clean s"
  shows "sound s" "st_locked (store_of s) = {}" "st_dirty (store_of s) = {}" "st_view (store_of s) n = disk s n" "st_disk (store_of s) = disk s"
proof -
  show S: "sound s" "st_locked (store_of s) = {}" "st_dirty (store_of s) = {}" "st_disk (store_of s) = disk s"
    using assms by (auto simp: clean_def store_of_def)
  show "st_view (store_of s) n = disk s n"
    using bc.transparent [OF S(1), of n] S(2-4) by simp
qed

lemma log_layout_cong: "(\<And>i. i < n \<Longrightarrow> f i = g i) \<Longrightarrow> log_layout n f ls sz \<longleftrightarrow> log_layout n g ls sz"
  by (simp add: log_layout_def)

lemma recover_ok:
  assumes "clean s" and "log_dev s = 1"
    and "log_layout (unat (load32 (disk s (log_start s)) 0)) (entry (disk s (log_start s))) (log_start s) (disksize s)"
  shows "\<exists>t. recover_from_log me s = Inr t \<and> sound t \<and> bio_frame (s\<lparr>lh_block := lh_block t, lh_n := 0\<rparr>) t
    \<and> store_of t = push (recover_writes (log_start s) (disk s)) (store_of s)"
proof -
  let ?ls = "log_start s" and ?D = "disk s"
  let ?n = "load32 (?D ?ls) 0" and ?S = "store_of s"
  note S = cleanD [OF assms(1)]
  obtain t1 B where t1: "read_head me s = Inr t1" "sound t1" "store_of t1 = ?S" "bio_frame (s\<lparr>lh_n := ?n, lh_block := B\<rparr>) t1"
    "\<And>i. i < unat ?n \<Longrightarrow> B i = entry (?D ?ls) i"
    using read_head_ok [OF S(1) assms(2) S(2,3) head_in_range [OF assms(3)], of me] assms(3) S(5)
    by (auto simp: log_layout_def)
  note f1 = bio_frame_log [OF t1(4), simplified]
  have q1: "quiet_log (unat (lh_n t1)) t1"
    using t1(2,3,5) S assms(2,3) bio_frame_disksize [OF t1(4)] log_layout_cong [of "unat ?n" B] by (simp add: f1)
  have "map (\<lambda>i. (B i, ?D (slot ?ls i))) [0..<unat ?n] = map (\<lambda>i. (entry (?D ?ls) i, ?D (slot ?ls i))) [0..<unat ?n]"
    using t1(5) by simp
  with install_ok [OF q1, of me] obtain t2 where t2: "install_trans me t1 = Inr t2" "sound t2" "bio_frame t1 t2"
    "store_of t2 = push (map (\<lambda>i. (entry (?D ?ls) i, ?D (slot ?ls i))) [0..<unat ?n]) ?S"
    using S(3,4) by (auto simp: f1 t1(3))
  note f2 = bio_frame_log [OF t2(3)]
  let ?t = "t2\<lparr>lh_n := 0\<rparr>"
  have q2: "quiet_log (unat (lh_n ?t)) ?t" "card (st_dirty (store_of ?t)) < NBUF"
    using q1 t2(2) S bio_frame_disksize [OF t2(3)] by (auto simp: t2(4) f2 log_layout_def)
  have "?ls \<notin> fst ` set (map (\<lambda>i. (entry (?D ?ls) i, ?D (slot ?ls i))) [0..<unat ?n])"
    using log_layoutD(6) [OF assms(3)] by fastforce
  then have "st_view (store_of ?t) ?ls = ?D ?ls"
    using S(4) by (simp add: t2(4) apply_writes_other)
  then obtain t3 where t3: "write_head me ?t = Inr t3" "sound t3" "bio_frame ?t t3"
    "store_of t3 = push (recover_writes ?ls ?D) ?S"
    using head_ok [OF q2, of me] by (auto simp: f1 f2 t2(4) push_push recover_writes_def header_zero)
  have "lh_block t3 = B"
    using bio_frame_log [OF t3(3)] by (simp add: f1 f2)
  then have "bio_frame (s\<lparr>lh_block := lh_block t3, lh_n := 0\<rparr>) t3"
    using bio_frame_trans [OF bio_frame_lh_n [OF bio_frame_trans [OF t1(4) t2(3)], of 0] t3(3)] by simp
  then show ?thesis
    using t1(1) t2(1) t3 by (intro exI [of _ t3] conjI) (simp_all add: recover_from_log_def)
qed

definition superblock_at :: "u32 \<Rightarrow> u32 \<Rightarrow> (u32 \<Rightarrow> block) \<Rightarrow> bool" where
  "superblock_at ls nlog D \<longleftrightarrow> load32 (D 1) 16 = ls \<and> load32 (D 1) 12 = nlog"

lemma initlog_ok:
  assumes "clean s" and "superblock_at ls nlog (disk s)" and "1 < disksize s"
    and "log_layout (unat (load32 (disk s ls) 0)) (entry (disk s ls)) ls (disksize s)"
  shows "\<exists>t. initlog me 1 s = Inr t \<and> sound t \<and> store_of t = push (recover_writes ls (disk s)) (store_of s)
    \<and> log_start t = ls \<and> log_size t = nlog \<and> log_dev t = 1 \<and> lh_n t = 0 \<and> log_outstanding t = log_outstanding s
    \<and> log_committing t = log_committing s \<and> disksize t = disksize s"
proof -
  note S = cleanD [OF assms(1)]
  have "readable 1 (store_of s)" "settled 1 (store_of s)"
    using S by (simp_all add: readable_def settled_def)
  from bc.peek [OF S(1) assms(3) this, of me] obtain b t u where r: "bread me 1 1 s = Inr (b, t)" "bdata (bbuf t b) = disk s 1"
    "brelse me b t = Inr u" "sound u" "store_of u = store_of s" "bio_frame s u"
    using S(4) by auto
  let ?u = "u\<lparr>log_start := ls, log_size := nlog, log_dev := 1\<rparr>"
  have "disk u = disk s"
    using arg_cong [OF r(5), of st_disk] by (simp add: store_of_def)
  then have c: "clean ?u" "log_dev ?u = 1"
    "log_layout (unat (load32 (disk ?u (log_start ?u)) 0)) (entry (disk ?u (log_start ?u))) (log_start ?u) (disksize ?u)"
    using assms(4) bio_frame_disksize [OF r(6)] r(4,5) S(2,3) by (simp_all add: clean_def)
  from recover_ok [OF c, of me] obtain v where v: "recover_from_log me ?u = Inr v" "sound v"
    "bio_frame (?u\<lparr>lh_block := lh_block v, lh_n := 0\<rparr>) v" "store_of v = push (recover_writes ls (disk s)) (store_of s)"
    using \<open>disk u = disk s\<close> r(5) by auto
  have "initlog me 1 s = Inr v"
    using r(1-3) v(1) assms(2) by (simp add: initlog_def readsb_def Let_def superblock_at_def)
  then show ?thesis
    using v(2,4) bio_frame_log [OF v(3)] bio_frame_log [OF r(6)] bio_frame_disksize [OF v(3)] bio_frame_disksize [OF r(6)]
    by (intro exI [of _ v] conjI) simp_all
qed

section \<open>Crashes\<close>

lemma unat_entry: "j < LOGSIZE \<Longrightarrow> unat (4 + 4 * of_nat j :: u32) = 4 + 4 * j"
proof -
  assume "j < LOGSIZE"
  have "(4 + 4 * of_nat j :: u32) = of_nat (4 + 4 * j)"
    by simp
  with \<open>j < LOGSIZE\<close> show ?thesis
    by (simp add: unat_of_nat del: of_nat_add of_nat_mult)
qed

lemma entry_offsets:
  assumes "j < LOGSIZE"
  shows "(4 + 4 * of_nat j :: u32) mod 4 = 0" and "(4 + 4 * of_nat j :: u32) \<noteq> 0"
    and "k < LOGSIZE \<Longrightarrow> (4 + 4 * of_nat j :: u32) = 4 + 4 * of_nat k \<longleftrightarrow> j = k"
proof -
  show "(4 + 4 * of_nat j :: u32) mod 4 = 0"
    using unat_entry [OF assms] by (intro word_unat_eqI) (simp add: unat_mod)
  show "(4 + 4 * of_nat j :: u32) \<noteq> 0"
    using unat_entry [OF assms] by fastforce
  assume "k < LOGSIZE"
  show "(4 + 4 * of_nat j :: u32) = 4 + 4 * of_nat k \<longleftrightarrow> j = k"
    using unat_entry [OF assms] unat_entry [OF \<open>k < LOGSIZE\<close>] by (metis Suc_mult_cancel1 add_left_cancel mult_cancel1 zero_neq_numeral)
qed

lemma header_loads:
  assumes "n \<le> LOGSIZE"
  shows "load32 (header n blk d) 0 = of_nat n" and "i < n \<Longrightarrow> entry (header n blk d) i = blk i"
proof -
  have "load32 (fold (\<lambda>i. store32 (4 + 4 * of_nat i) (blk i)) [0..<n] e) 0 = load32 e 0
    \<and> (\<forall>i<n. entry (fold (\<lambda>i. store32 (4 + 4 * of_nat i) (blk i)) [0..<n] e) i = blk i)" for e
    using assms
  proof (induction n)
    case (Suc n)
    have "entry (store32 (4 + 4 * of_nat n) (blk n) f) i = entry f i" if "i < n" for i f
    proof (rule load32_store32_other)
      show "(4 + 4 * of_nat n :: u32) \<noteq> 4 + 4 * of_nat i"
        using entry_offsets(3) [of n i] that Suc.prems by simp
    qed (use that Suc.prems entry_offsets(1) in simp_all)
    moreover have "load32 (store32 (4 + 4 * of_nat n) (blk n) f) 0 = load32 f 0" for f
      using Suc.prems entry_offsets(1,2) [of n] by (intro load32_store32_other) simp_all
    ultimately show ?case
      using Suc by (auto simp: less_Suc_eq)
  qed simp
  then show "load32 (header n blk d) 0 = of_nat n" "i < n \<Longrightarrow> entry (header n blk d) i = blk i"
    by (simp_all add: header_def)
qed

lemma recover_none:
  assumes "load32 (D ls) 0 = 0" and "x \<noteq> ls"
  shows "apply_writes (recover_writes ls D) D x = D x"
  using assms by (simp add: recover_writes_def)

lemma log_layout_0: "log_layout n blk ls sz \<Longrightarrow> log_layout 0 f ls sz"
  by (simp add: log_layout_def)

text \<open>After the header is written, recovery repeats the installation, however far it came.\<close>

lemma recover_all:
  assumes "log_layout n blk ls sz" and "set W \<subseteq> set (home_writes n blk v)"
    and D'_def: "D' = apply_writes (log_writes n blk ls v @ [(ls, header n blk d)] @ W) D"
  shows "recover_writes ls D' = home_writes n blk v @ [(ls, store32 0 0 (header n blk d))]"
    and "log_layout (unat (load32 (D' ls) 0)) (entry (D' ls)) ls sz"
    and "\<not> in_log ls x \<Longrightarrow> x \<notin> blk ` {0..<n} \<Longrightarrow> D' x = D x"
proof -
  note lay = log_layoutD [OF assms(1)]
  have n: "n \<le> LOGSIZE"
    using assms(1) by (simp add: log_layout_def)
  have keys: "fst ` set W \<subseteq> blk ` {0..<n}"
    using assms(2) home_writes_keys [of n blk v] by blast
  have ls: "ls \<notin> fst ` set W"
    using keys lay(6) by fastforce
  have sl: "slot ls i \<notin> fst ` set W" if "i < n" for i
    using keys lay(5) lay(1) [OF that] by fastforce
  have head: "D' ls = header n blk d"
    using ls by (simp add: D'_def apply_writes_other)
  have slots: "D' (slot ls i) = v (blk i)" if "i < n" for i
    using sl [OF that] slot_ne_head [OF lay(1) [OF that]] log_writes_at [OF that n] by (simp add: D'_def apply_writes_other)
  have cnt: "unat (load32 (D' ls) 0) = n" "unat (load32 (header n blk d) 0) = n"
    using header_loads(1) [OF n] n head by (simp_all add: unat_of_nat)
  show "recover_writes ls D' = home_writes n blk v @ [(ls, store32 0 0 (header n blk d))]"
    using slots header_loads(2) [OF n] by (simp add: recover_writes_def home_writes_def cnt(2) head)
  show "log_layout (unat (load32 (D' ls) 0)) (entry (D' ls)) ls sz"
    using log_layout_cong [of n "entry (header n blk d)" blk] header_loads(2) [OF n, of _ blk d] assms(1)
    unfolding head cnt(2) by blast
  show "D' x = D x" if "\<not> in_log ls x" "x \<notin> blk ` {0..<n}"
  proof -
    have "x \<notin> fst ` set W" "x \<noteq> ls" "x \<notin> fst ` set (log_writes n blk ls v)"
      using that keys log_writes_keys [OF n, of x blk ls v] head_in_log [of ls] by blast+
    then show ?thesis
      by (simp add: D'_def apply_writes_other)
  qed
qed

lemma crash_point:
  assumes "log_layout n blk ls sz" and "load32 (D ls) 0 = 0" and "D' = apply_writes (take k (commit_writes n blk ls v)) D"
  shows "log_layout (unat (load32 (D' ls) 0)) (entry (D' ls)) ls sz"
    and "\<not> in_log ls x \<Longrightarrow>
      apply_writes (recover_writes ls D') D' x = (if n < k \<and> x \<in> blk ` {0..<n} then v x else D x)"
proof -
  let ?L = "log_writes n blk ls v" and ?H = "home_writes n blk v" and ?h = "header n blk (v ls)"
  have n: "n \<le> LOGSIZE"
    using assms(1) by (simp add: log_layout_def)
  have xne: "\<not> in_log ls x \<Longrightarrow> x \<noteq> ls"
    by auto
  have len: "length ?L = n" "length ?H = n"
    by (simp_all add: log_writes_def home_writes_def)
  have "log_layout (unat (load32 (D' ls) 0)) (entry (D' ls)) ls sz \<and> (\<not> in_log ls x \<longrightarrow>
      apply_writes (recover_writes ls D') D' x = (if n < k \<and> x \<in> blk ` {0..<n} then v x else D x))"
  proof -
    consider (early) "k \<le> n" | (logged) "n < k" "k \<le> 2 * n + 1" | (finished) "2 * n + 1 < k"
      by linarith
    then show ?thesis
    proof cases
      case early
      then have D': "D' = apply_writes (take k ?L) D"
        using len by (simp add: assms(3) commit_writes_def)
      have "y \<notin> fst ` set (take k ?L)" if "\<not> in_log ls y \<or> y = ls" for y
        using that log_writes_keys [OF n, of y blk ls v] image_mono [OF set_take_subset, of fst k ?L] by blast
      then have same: "D' y = D y" if "\<not> in_log ls y \<or> y = ls" for y
        using that by (simp add: D' apply_writes_other)
      show ?thesis
        using early xne same [of ls] same [of x] assms(2) log_layout_0 [OF assms(1)] recover_none [of D' ls x] by auto
    next
      case logged
      have sub: "set (take (k - n - 1) ?H) \<subseteq> set ?H"
        by (rule set_take_subset)
      have "D' = apply_writes (?L @ [(ls, ?h)] @ take (k - n - 1) ?H) D"
        using logged len by (simp add: assms(3) commit_writes_def take_Cons')
      note r = recover_all [OF assms(1) sub this]
      have "apply_writes (recover_writes ls D') D' x = (if x \<in> blk ` {0..<n} then v x else D x)" if "\<not> in_log ls x"
        using that r(3) [OF that] home_writes_at [of x blk n v D'] apply_writes_other [of x ?H D'] head_in_log [of ls]
        by (auto simp: r(1) home_writes_keys)
      then show ?thesis
        using r(2) logged(1) by simp
    next
      case finished
      let ?E = "apply_writes (?L @ [(ls, ?h)] @ ?H) D"
      have D': "D' = ?E(ls := store32 0 0 ?h)"
        using finished len by (simp add: assms(3) commit_writes_def)
      then have "load32 (D' ls) 0 = 0"
        by simp
      moreover have "D' x = (if x \<in> blk ` {0..<n} then v x else D x)" if "\<not> in_log ls x"
        using xne [OF that] recover_all(3) [OF assms(1) order_refl refl that] home_writes_at [of x blk n v] by (auto simp: D')
      ultimately show ?thesis
        using finished xne recover_none [of D' ls x] log_layout_0 [OF assms(1)] by simp
    qed
  qed
  then show "log_layout (unat (load32 (D' ls) 0)) (entry (D' ls)) ls sz"
    and "\<not> in_log ls x \<Longrightarrow>
      apply_writes (recover_writes ls D') D' x = (if n < k \<and> x \<in> blk ` {0..<n} then v x else D x)"
    by blast+
qed

lemma clean_binit:
  assumes "zeroed r"
  shows "clean (binit r)" "disk (binit r) = disk r" "store_of (binit r) = (store_of (binit r))\<lparr>st_disk := disk r\<rparr>"
proof -
  note ok = binit_ok [of r, OF assms [unfolded zeroed_def, rule_format]]
  show "clean (binit r)" "disk (binit r) = disk r" "store_of (binit r) = (store_of (binit r))\<lparr>st_disk := disk r\<rparr>"
    using ok(1-4) by (auto simp: clean_def store_of_def)
qed

lemma store_disk: "st_disk (store_of s) = disk s" "st_writes (store_of s) = disk_writes s"
  by (simp_all add: store_of_def)

lemma boot_ok:
  assumes "zeroed r" and "superblock_at ls nlog (disk r)" and "1 < disksize r"
    and "log_layout (unat (load32 (disk r ls) 0)) (entry (disk r ls)) ls (disksize r)"
  shows "\<exists>u. initlog me 1 (binit r) = Inr u \<and> disk u = apply_writes (recover_writes ls (disk r)) (disk r)
    \<and> disk_writes u = disk_writes (binit r) @ recover_writes ls (disk r) \<and> lh_n u = 0 \<and> log_start u = ls"
proof -
  note b = clean_binit [OF assms(1)]
  obtain u where u: "initlog me 1 (binit r) = Inr u" "store_of u = push (recover_writes ls (disk r)) (store_of (binit r))"
    "lh_n u = 0" "log_start u = ls"
    using initlog_ok [OF b(1), of ls nlog me] assms(2-4) by (auto simp: b(2))
  have "disk u = apply_writes (recover_writes ls (disk r)) (disk r)"
    "disk_writes u = disk_writes (binit r) @ recover_writes ls (disk r)"
    using arg_cong [OF u(2), of st_disk] arg_cong [OF u(2), of st_writes] by (simp_all add: store_disk b(2))
  with u show ?thesis
    by blast
qed

text \<open>Interrupted recovery: what a sequence of writes stores does not depend on what was there.\<close>

lemma apply_writes_covers: "x \<in> fst ` set W \<Longrightarrow> apply_writes W D x = apply_writes W E x"
proof (induction W arbitrary: D E)
  case (Cons w W)
  obtain n d where w: "w = (n, d)"
    by (cases w)
  show ?case
  proof (cases "x \<in> fst ` set W")
    case True
    then show ?thesis
      using Cons.IH w by simp
  next
    case False
    then show ?thesis
      using Cons.prems w by (simp add: apply_writes_other)
  qed
qed simp

lemma apply_writes_again:
  assumes "fst ` set V \<subseteq> fst ` set W"
  shows "apply_writes W (apply_writes V D) x = apply_writes W D x"
proof (cases "x \<in> fst ` set W")
  case True
  then show ?thesis
    by (rule apply_writes_covers)
next
  case False
  moreover from this have "x \<notin> fst ` set V"
    using assms by blast
  ultimately show ?thesis
    by (simp add: apply_writes_other)
qed

lemma recover_again:
  assumes "log_layout (unat (load32 (D ls) 0)) (entry (D ls)) ls sz" and "D' = apply_writes (take k (recover_writes ls D)) D"
  shows "log_layout (unat (load32 (D' ls) 0)) (entry (D' ls)) ls sz"
    and "x \<noteq> ls \<Longrightarrow> apply_writes (recover_writes ls D') D' x = apply_writes (recover_writes ls D) D x"
proof -
  let ?n = "unat (load32 (D ls) 0)"
  let ?H = "map (\<lambda>i. (entry (D ls) i, D (slot ls i))) [0..<?n]"
  note lay = log_layoutD [OF assms(1)]
  have "log_layout (unat (load32 (D' ls) 0)) (entry (D' ls)) ls sz \<and>
    (x \<noteq> ls \<longrightarrow> apply_writes (recover_writes ls D') D' x = apply_writes (recover_writes ls D) D x)"
  proof (cases "k \<le> ?n")
    case True
    then have D': "D' = apply_writes (take k ?H) D"
      by (simp add: assms(2) recover_writes_def)
    have keys: "fst ` set (take k ?H) \<subseteq> entry (D ls) ` {0..<?n}"
      using image_mono [OF set_take_subset, of fst k ?H] by auto
    have other: "D' y = D y" if "y \<notin> entry (D ls) ` {0..<?n}" for y
      unfolding D' using that keys by (intro apply_writes_other) blast
    have same: "D' ls = D ls"
      using image_disjoint [of ?n "entry (D ls)" "{ls}"] lay(6) by (intro other) blast
    have "D' (slot ls i) = D (slot ls i)" if "i < ?n" for i
    proof (rule other, rule notI, elim imageE)
      fix j
      assume "slot ls i = entry (D ls) j" "j \<in> {0..<?n}"
      then show False
        using lay(5) [of j i] lay(1) [OF that] by simp
    qed
    then have "recover_writes ls D' = recover_writes ls D"
      using same by (simp add: recover_writes_def)
    moreover have "fst ` set (take k ?H) \<subseteq> fst ` set (recover_writes ls D)"
      using image_mono [OF set_take_subset, of fst k ?H] by (auto simp: recover_writes_def image_Un)
    ultimately show ?thesis
      using assms(1) same apply_writes_again [of "take k ?H" "recover_writes ls D" D x] unfolding D' by simp
  next
    case False
    then have D': "D' = apply_writes (recover_writes ls D) D"
      by (simp add: assms(2) recover_writes_def)
    then have "load32 (D' ls) 0 = 0"
      by (simp add: recover_writes_def)
    then show ?thesis
      using recover_none [of D' ls x] log_layout_0 [OF assms(1)] D' by simp
  qed
  then show "log_layout (unat (load32 (D' ls) 0)) (entry (D' ls)) ls sz"
    and "x \<noteq> ls \<Longrightarrow> apply_writes (recover_writes ls D') D' x = apply_writes (recover_writes ls D) D x"
    by blast+
qed

section \<open>Properties\<close>

text \<open>
  C24. Commit is atomic under crashes. Take a transaction ready to be committed: its blocks are exactly
  the dirty ones, listed in the header, and the header on the disk is empty. Then \<^verbatim>\<open>commit\<close> returns, having
  written \<open>2n + 2\<close> blocks. If the machine stops after any number \<open>k\<close> of these writes and boots again,
  \<^verbatim>\<open>initlog\<close> returns and every block outside the log has its old contents if at most \<open>n\<close> writes were done
  (the header was not written yet), and the contents of the transaction otherwise.
\<close>

theorem commit_atomic:
  assumes "commit_ready s" and "load32 (disk s (log_start s)) 0 = 0" and "superblock_at (log_start s) nlog (disk s)"
    and "1 < disksize s" and "\<not> in_log (log_start s) 1" and "1 \<notin> lh_block s ` {0..<unat (lh_n s)}"
  shows "\<exists>t W. commit me s = Inr t \<and> lh_n t = 0 \<and> disk_writes t = disk_writes s @ W \<and> length W = 2 * unat (lh_n s) + 2
    \<and> (\<forall>k r. zeroed (r :: 'a log_state_scheme) \<and> disksize r = disksize s \<and> disk r = apply_writes (take k W) (disk s) \<longrightarrow>
        (\<exists>u. initlog p 1 (binit r) = Inr u \<and> (\<forall>x. \<not> in_log (log_start s) x \<longrightarrow>
           disk u x = (if unat (lh_n s) < k \<and> x \<in> lh_block s ` {0..<unat (lh_n s)} then view s x else disk s x))))"
proof -
  let ?n = "unat (lh_n s)" and ?ls = "log_start s" and ?blk = "lh_block s"
  let ?W = "commit_writes ?n ?blk ?ls (view s)"
  obtain t where t: "commit me s = Inr t" "bio_frame (s\<lparr>lh_n := 0\<rparr>) t" "store_of t = push ?W (store_of s)"
    using commit_ok [OF assms(1), of me] by blast
  have lay: "log_layout ?n ?blk ?ls (disksize s)"
    using assms(1) by (simp add: commit_ready_def)
  have "\<exists>u. initlog p 1 (binit r) = Inr u \<and> (\<forall>x. \<not> in_log ?ls x \<longrightarrow>
      disk u x = (if ?n < k \<and> x \<in> ?blk ` {0..<?n} then view s x else disk s x))"
    if r: "zeroed r" "disksize r = disksize s" "disk r = apply_writes (take k ?W) (disk s)" for k and r :: "'a log_state_scheme"
  proof -
    note c = crash_point [OF lay assms(2) r(3)]
    have "1 \<notin> fst ` set (take k ?W)"
      using commit_writes_keys [OF lay, of 1 "view s"] assms(5,6) image_mono [OF set_take_subset, of fst k ?W] by blast
    then have "superblock_at ?ls nlog (disk r)"
      using assms(3) by (simp add: superblock_at_def r(3) apply_writes_other)
    from boot_ok [OF r(1) this, of p] assms(4) c(1) obtain u where "initlog p 1 (binit r) = Inr u"
      "disk u = apply_writes (recover_writes ?ls (disk r)) (disk r)"
      by (auto simp: r(2))
    then show ?thesis
      using c(2) by auto
  qed
  moreover have "lh_n t = 0" "disk_writes t = disk_writes s @ ?W" "length ?W = 2 * ?n + 2"
    using bio_frame_log [OF t(2)] arg_cong [OF t(3), of st_writes]
    by (simp_all add: store_disk commit_writes_def log_writes_def home_writes_def)
  ultimately show ?thesis
    using t(1) by (intro exI [of _ t] exI [of _ ?W]) blast
qed

text \<open>A disk with a superblock, and a transaction of one block on it.\<close>

definition demo :: file_state where
  "demo = machine\<lparr>disk := (\<lambda>n. if n = 1 then store32 12 30 (store32 16 2 (\<lambda>_. 0)) else (\<lambda>_. 0))\<rparr>"

lemma demo_disk: "superblock_at 2 30 (disk demo)" "load32 (disk demo 2) 0 = 0" "disksize demo = 1000" "zeroed demo"
  by (simp_all add: demo_def superblock_at_def load32_store32_other zeroed_def free_buf_def) (simp add: load32_def)

lemma demo_ready:
  "\<exists>s :: file_state. commit_ready s \<and> lh_n s = 1 \<and> lh_block s 0 = 100 \<and> log_start s = 2 \<and> disk s = disk demo \<and> disksize s = 1000"
proof -
  let ?s = "binit demo"
  note S = cleanD [OF clean_binit(1) [OF demo_disk(4)]]
  have "100 < disksize ?s" "readable 100 (store_of ?s)"
    using S by (simp_all add: demo_disk readable_def)
  from bc.br_law [OF S(1) this, of 0] obtain b t where t: "sound t" "holds 0 b 100 t" "bio_frame ?s t"
    "store_of t = (store_of ?s)\<lparr>st_locked := {100}\<rparr>"
    using S(2) by auto
  note m = bc.mark_law [OF t(1,2)]
  then have "settled 100 (store_of (mark_dirty b t))" "holds 0 b 100 (mark_dirty b t)"
    using t(2) by (auto simp: settled_def)
  from bc.rel_law [OF _ this(2,1)] m obtain u where u: "sound u" "bio_frame (mark_dirty b t) u"
    "store_of u = (store_of (mark_dirty b t))\<lparr>st_locked := st_locked (store_of (mark_dirty b t)) - {100}\<rparr>"
    by blast
  have fr: "bio_frame ?s u"
    using t(3) m u(2) bio_frame_trans by blast
  have su: "st_locked (store_of u) = {}" "st_dirty (store_of u) = {100}" "st_disk (store_of u) = disk demo"
    using u(3) m t(4) S by (simp_all add: clean_binit(2) [OF demo_disk(4)])
  let ?u = "u\<lparr>lh_n := 1, lh_block := (\<lambda>_. 100)\<rparr>"
  have "busy u = {}" "dirty u = {100}" "disk u = disk demo"
    using su by (auto simp: store_of_def)
  moreover have fields: "log_start u = 2" "log_dev u = 1" "disksize u = 1000"
    using bio_frame_log [OF bio_frame_trans [OF bio_frame_binit fr]] bio_frame_disksize [OF bio_frame_trans [OF bio_frame_binit fr]]
    by (simp_all add: demo_def)
  ultimately have "commit_ready ?u"
    using u(1) by (auto simp: commit_ready_def log_layout_def in_log_def busy_def dirty_def)
  then show ?thesis
    using fields \<open>disk u = disk demo\<close> by (intro exI [of _ ?u]) simp
qed

theorem commit_atomic_witness:
  "\<exists>(s :: file_state) t W. commit_ready s \<and> commit 0 s = Inr t \<and> lh_n t = 0 \<and> disk_writes t = disk_writes s @ W \<and> length W = 4"
proof -
  obtain s :: file_state where s: "commit_ready s" "lh_n s = 1" "lh_block s 0 = 100" "log_start s = 2" "disk s = disk demo"
    "disksize s = 1000"
    using demo_ready by blast
  have "\<not> in_log 2 1"
    by code_simp
  then show ?thesis
    using commit_atomic [OF s(1), of 30 0 0] demo_disk s by auto
qed



end
