(* ===== verification/LogUse.thy ===== *)
theory LogUse
  imports LogSafe
begin

text \<open>
  The log as its users see it: what \<^verbatim>\<open>log_write\<close> records, and how far the reservation of \<^verbatim>\<open>begin_op\<close> goes.
\<close>

definition entries :: "'a log_state_scheme \<Rightarrow> u32 list" where
  "entries s = map (lh_block s) [0..<unat (lh_n s)]"

lemma length_entries [simp]: "length (entries s) = unat (lh_n s)"
  by (simp add: entries_def)

lemma find_upt_first: "find P [0..<n] = Some i \<Longrightarrow> i < n \<and> P i"
  by (auto simp: find_Some_iff)

lemma find_upt_none: "find P [0..<n] = None \<longleftrightarrow> (\<forall>i<n. \<not> P i)"
  by (auto simp: find_None_iff)

text \<open>The result of a call of \<^verbatim>\<open>log_write\<close> on a log with room.\<close>

lemma log_write_eq:
  assumes "unat (lh_n s) < LOGSIZE" and "unat (lh_n s) < unat (log_size s) - 1" and "unat (log_size s) < 0x80000000"
    and "0 < unat (log_outstanding s)" and "unat (log_outstanding s) < 0x80000000"
  shows "\<exists>t. log_write b s = Inr (mark_dirty b t) \<and> bbuf t = bbuf s \<and> log_size t = log_size s
    \<and> log_outstanding t = log_outstanding s \<and> log_committing t = log_committing s
    \<and> entries t = (if bblockno (bbuf s b) \<in> set (entries s) then entries s else entries s @ [bblockno (bbuf s b)])"
proof -
  let ?n = "unat (lh_n s)" and ?x = "bblockno (bbuf s b)"
  have small: "?n < 0x80000000"
    using assms(1) by simp
  have "unat (log_size s - 1) = unat (log_size s) - 1"
    using assms(2) by (intro unat_minus_one) auto
  then have guards: "\<not> of_nat LOGSIZE \<le>s lh_n s" "\<not> log_size s - 1 \<le>s lh_n s" "\<not> log_outstanding s <s 1"
    using assms small by (simp_all add: sle_nat sless_nat)
  show ?thesis
  proof (cases "find (\<lambda>i. lh_block s i = ?x) [0..<?n]")
    case (Some i)
    note i = find_upt_first [OF Some]
    have "?x \<in> set (entries s)"
      using i image_eqI [of ?x "lh_block s" i] by (simp add: entries_def)
    moreover have "of_nat i \<noteq> lh_n s"
    proof
      assume "of_nat i = lh_n s"
      moreover have "unat (of_nat i :: u32) = i"
        using i small by (simp add: unat_of_nat)
      ultimately show False
        using i by simp
    qed
    moreover have "(lh_block s)(i := ?x) = lh_block s"
      using i by auto
    ultimately show ?thesis
      using Some guards
      by (intro exI [of _ s]) (simp add: log_write_def below_small [OF small] mark_dirty_def Let_def)
  next
    case None
    then have "?x \<notin> set (entries s)"
      by (auto simp: entries_def find_upt_none)
    let ?t = "s\<lparr>lh_block := (lh_block s)(?n := ?x), lh_n := lh_n s + 1\<rparr>"
    have "unat (lh_n s + 1) = Suc ?n"
      using assms(1) by (subst unat_add_lem [THEN iffD1]) simp_all
    then have "entries ?t = entries s @ [?x]"
      by (simp add: entries_def)
    then show ?thesis
      using None guards \<open>?x \<notin> set (entries s)\<close> sint_small [OF small]
      by (intro exI [of _ ?t]) (simp add: log_write_def below_small [OF small] mark_dirty_def Let_def)
  qed
qed

lemma entries_mark [simp]: "entries (mark_dirty b s) = entries s" "log_size (mark_dirty b s) = log_size s" "lh_n (mark_dirty b s) = lh_n s"
  "log_outstanding (mark_dirty b s) = log_outstanding s" "bblockno (bbuf (mark_dirty b s) c) = bblockno (bbuf s c)"
  by (simp_all add: entries_def mark_dirty_def upd_buf_def)

section \<open>Properties\<close>

text \<open>
  C26. \<^verbatim>\<open>log_write\<close> on a log of at least two blocks whose header lists \<open>n\<close> different blocks: it panics exactly
  when \<open>n\<close> has reached \<^verbatim>\<open>LOGSIZE\<close> or \<^verbatim>\<open>log.size - 1\<close>, or when no operation is outstanding. Otherwise the
  block is listed afterwards, once, at its old place or at the end, and the header still fits both the
  array and the log; the buffer is marked dirty and no other buffer changes.
\<close>

theorem log_write_records:
  assumes "unat (lh_n s) \<le> LOGSIZE" and "distinct (entries s)" and "2 \<le> unat (log_size s)" and "unat (log_size s) < 0x80000000"
    and "unat (log_outstanding s) < 0x80000000"
  shows "case log_write b s of
      Inl e \<Rightarrow> unat (lh_n s) \<ge> min LOGSIZE (unat (log_size s) - 1) \<and> e = Panic ''too big a transaction''
        \<or> log_outstanding s = 0 \<and> e = Panic ''log_write outside of trans''
    | Inr t \<Rightarrow> unat (lh_n s) < min LOGSIZE (unat (log_size s) - 1) \<and> log_outstanding s \<noteq> 0
        \<and> entries t = (if bblockno (bbuf s b) \<in> set (entries s) then entries s else entries s @ [bblockno (bbuf s b)])
        \<and> distinct (entries t) \<and> unat (lh_n t) \<le> min LOGSIZE (unat (log_size s) - 1)
        \<and> bflags (bbuf t b) = bflags (bbuf s b) OR B_DIRTY \<and> (\<forall>c. c \<noteq> b \<longrightarrow> bbuf t c = bbuf s c)"
proof -
  let ?n = "unat (lh_n s)"
  have z: "unat (log_size s - 1) = unat (log_size s) - 1"
    using assms(3) by (intro unat_minus_one) auto
  have guards: "of_nat LOGSIZE \<le>s lh_n s \<longleftrightarrow> LOGSIZE \<le> ?n" "log_size s - 1 \<le>s lh_n s \<longleftrightarrow> unat (log_size s) - 1 \<le> ?n"
    "log_outstanding s <s 1 \<longleftrightarrow> log_outstanding s = 0"
    using assms z by (simp_all add: sle_nat sless_nat unat_eq_zero)
  show ?thesis
  proof (cases "?n < min LOGSIZE (unat (log_size s) - 1) \<and> log_outstanding s \<noteq> 0")
    case True
    then obtain t where t: "log_write b s = Inr (mark_dirty b t)" "bbuf t = bbuf s"
      "entries t = (if bblockno (bbuf s b) \<in> set (entries s) then entries s else entries s @ [bblockno (bbuf s b)])"
      using log_write_eq [of s b] assms(4,5) by (auto simp: unat_gt_0)
    have "unat (lh_n t) \<le> Suc ?n"
      using arg_cong [OF t(3), of length] by (auto split: if_splits)
    then show ?thesis
      using t True assms(2) arg_cong [OF t(3), of length]
      by (auto simp: mark_dirty_def upd_buf_def entries_def)
  next
    case False
    then show ?thesis
      using guards by (auto simp: log_write_def)
  qed
qed

theorem log_write_records_witness:
  "\<exists>t. log_write 0 (machine\<lparr>log_outstanding := 1\<rparr>) = Inr t \<and> entries t = [0]"
proof -
  let ?s = "machine\<lparr>log_outstanding := 1\<rparr>"
  have e: "entries ?s = []"
    by (simp add: entries_def)
  show ?thesis
  proof (cases "log_write 0 ?s")
    case (Inl x)
    then show ?thesis
      using log_write_records [of ?s 0] by (simp add: e)
  next
    case (Inr t)
    then show ?thesis
      using log_write_records [of ?s 0] by (simp add: e free_buf_def)
  qed
qed

text \<open>
  C27. The reservation is one block short. On an empty log of \<^verbatim>\<open>LOGSIZE\<close> blocks, as \<^verbatim>\<open>mkfs\<close> makes it, \<^verbatim>\<open>begin_op\<close> admits
  three operations together, each of them for up to \<^verbatim>\<open>MAXOPBLOCKS\<close> blocks, and makes a fourth wait.
  When these three log thirty different blocks, as they may, the first 29 are recorded and the last
  call of \<^verbatim>\<open>log_write\<close> panics.
\<close>

theorem log_reservation_short:
  assumes "\<not> log_committing s" and "lh_n s = 0" and "log_outstanding s = 0" and "log_size s = of_nat LOGSIZE"
    and "length bs = 30" and "distinct (map (\<lambda>b. bblockno (bbuf s b)) bs)"
  shows "\<exists>t u. andthen (begin_op s) (\<lambda>s. andthen (begin_op s) begin_op) = Inr t \<and> begin_op t = Inl (Sleep ChLog)
    \<and> iterate log_write (take 29 bs) t = Inr u \<and> log_write (bs ! 29) u = Inl (Panic ''too big a transaction'')"
proof -
  let ?t = "s\<lparr>log_outstanding := 3\<rparr>"
  have t: "andthen (begin_op s) (\<lambda>s. andthen (begin_op s) begin_op) = Inr ?t" "begin_op ?t = Inl (Sleep ChLog)"
    using assms by (simp_all add: begin_op_def)
  have run: "\<exists>u. iterate log_write cs r = Inr u \<and> entries u = entries r @ map (\<lambda>b. bblockno (bbuf s b)) cs
      \<and> log_size u = of_nat LOGSIZE"
    if "log_size r = of_nat LOGSIZE" "log_outstanding r = 3" "\<And>b. bblockno (bbuf r b) = bblockno (bbuf s b)"
      "unat (lh_n r) + length cs \<le> 29" "distinct (entries r @ map (\<lambda>b. bblockno (bbuf s b)) cs)"
    for cs and r :: "'a log_state_scheme"
    using that
  proof (induction cs arbitrary: r)
    case (Cons b cs)
    obtain v where v: "log_write b r = Inr (mark_dirty b v)" "bbuf v = bbuf r" "log_size v = log_size r"
      "log_outstanding v = log_outstanding r" "entries v = entries r @ [bblockno (bbuf s b)]"
      using log_write_eq [of r b] Cons.prems by auto
    have "unat (lh_n v) = Suc (unat (lh_n r))"
      using arg_cong [OF v(5), of length] by simp
    then have "\<exists>u. iterate log_write cs (mark_dirty b v) = Inr u
        \<and> entries u = entries (mark_dirty b v) @ map (\<lambda>b. bblockno (bbuf s b)) cs \<and> log_size u = of_nat LOGSIZE"
      using Cons.prems v by (intro Cons.IH) simp_all
    then show ?case
      using v by simp
  qed simp
  have "distinct (map (\<lambda>b. bblockno (bbuf s b)) (take 29 bs))"
    using assms(6) by (simp add: distinct_take flip: take_map)
  then obtain u where u: "iterate log_write (take 29 bs) ?t = Inr u"
    "entries u = map (\<lambda>b. bblockno (bbuf s b)) (take 29 bs)" "log_size u = of_nat LOGSIZE"
    using run [of ?t "take 29 bs"] assms(2,4,5) by (auto simp: entries_def)
  have "unat (lh_n u) = 29"
    using arg_cong [OF u(2), of length] assms(5) by simp
  then have "log_size u - 1 \<le>s lh_n u"
    using u(3) by (simp add: sle_nat)
  then show ?thesis
    using t u(1) by (intro exI [of _ ?t] exI [of _ u]) (simp add: log_write_def)
qed

theorem log_reservation_short_witness:
  "\<exists>(s :: file_state) t u. andthen (begin_op s) (\<lambda>s. andthen (begin_op s) begin_op) = Inr t
    \<and> iterate log_write [0..<29] t = Inr u \<and> log_write 29 u = Inl (Panic ''too big a transaction'')"
proof -
  let ?s = "machine\<lparr>bbuf := (\<lambda>b. free_buf\<lparr>bblockno := of_nat b\<rparr>)\<rparr>"
  have "distinct (map (\<lambda>b. bblockno (bbuf ?s b)) [0..<30])"
    by (simp add: upt_conv_Cons)
  from log_reservation_short [of ?s "[0..<30]", OF _ _ _ _ _ this] show ?thesis
    by (simp, blast)
qed

end
