(* ===== verification/FsStable.thy ===== *)
theory FsStable
  imports File VmFrame
begin

text \<open>
  Properties that the file system keeps. A property of the state that survives the elementary steps
  of a layer (the calls of the buffer cache and a wakeup; the log's fields; the inode cache; the
  console; the file table) survives every function of the layer, and the function stops only for a
  reason it may stop for. Each layer's locale extends the one below. The lemmas are used once for what
  the file system leaves alone and once for the ring of buffers, on which every walk ends.
\<close>

section \<open>Results\<close>

definition ensures :: "(stop \<Rightarrow> bool) \<Rightarrow> ('s \<Rightarrow> bool) \<Rightarrow> ('b \<Rightarrow> 's) \<Rightarrow> 'b result \<Rightarrow> bool" where
  "ensures E P st m \<longleftrightarrow> (case m of Inl e \<Rightarrow> E e | Inr x \<Rightarrow> P (st x))"

abbreviation third :: "'b \<times> 'c \<times> 's \<Rightarrow> 's" where
  "third x \<equiv> snd (snd x)"

lemma ensuresD: "ensures E P st m \<Longrightarrow> m = Inr x \<Longrightarrow> P (st x)"
  by (simp add: ensures_def)

lemma ensures_Inl: "E e \<Longrightarrow> ensures E P st (Inl e)"
  by (simp add: ensures_def)

lemma ensures_Inr: "P (st x) \<Longrightarrow> ensures E P st (Inr x)"
  by (simp add: ensures_def)

lemma ensures_andthen:
  "ensures E Q id m \<Longrightarrow> (\<And>x. Q x \<Longrightarrow> ensures E P st (f x)) \<Longrightarrow> ensures E P st (andthen m f)"
  by (cases m) (simp_all add: ensures_def)

text \<open>A step that only looks at the state, where every stop is admissible.\<close>

lemma ensures_query: "(\<And>x. ensures (\<lambda>_. True) P st (f x)) \<Longrightarrow> ensures (\<lambda>_. True) P st (andthen m f)"
  by (cases m) (simp_all add: ensures_def)

lemma ensures_andthen1:
  "ensures E P id m \<Longrightarrow> (\<And>t. P t \<Longrightarrow> ensures E P st (f t)) \<Longrightarrow> ensures E P st (andthen m f)"
  by (rule ensures_andthen)

lemma ensures_andthen2:
  "ensures E P snd m \<Longrightarrow> (\<And>b t. P t \<Longrightarrow> ensures E P st (f (b, t))) \<Longrightarrow> ensures E P st (andthen m f)"
  by (cases m) (auto simp: ensures_def)

lemma ensures_andthen3:
  "ensures E P third m \<Longrightarrow> (\<And>a b t. P t \<Longrightarrow> ensures E P st (f (a, b, t))) \<Longrightarrow> ensures E P st (andthen m f)"
  by (cases m) (auto simp: ensures_def)

lemma ensures_flow:
  assumes "ensures E P flow_state m"
    and "\<And>t. P t \<Longrightarrow> ensures E P st (f t)" and "\<And>r t. P t \<Longrightarrow> ensures E P st (g r t)"
  shows "ensures E P st (andthen m (\<lambda>fl. case fl of Next t \<Rightarrow> f t | Leave r t \<Rightarrow> g r t))"
  using assms by (cases m) (auto simp: ensures_def split: flow.split)

lemma ensures_if:
  "(c \<Longrightarrow> ensures E P st a) \<Longrightarrow> (\<not> c \<Longrightarrow> ensures E P st b) \<Longrightarrow> ensures E P st (if c then a else b)"
  by simp

lemma ensures_if_andthen:
  "ensures E P id (if c then a else b) \<Longrightarrow> (\<And>t. P t \<Longrightarrow> ensures E P st (f t)) \<Longrightarrow>
    ensures E P st (andthen (if c then a else b) f)"
  by (rule ensures_andthen1)

lemma ensures_if_andthen2:
  "ensures E P snd (if c then a else b) \<Longrightarrow> (\<And>x t. P t \<Longrightarrow> ensures E P st (f (x, t))) \<Longrightarrow>
    ensures E P st (andthen (if c then a else b) f)"
  by (rule ensures_andthen2)

lemma ensures_nested:
  "ensures E P id (andthen m g) \<Longrightarrow> (\<And>t. P t \<Longrightarrow> ensures E P st (f t)) \<Longrightarrow>
    ensures E P st (andthen (andthen m g) f)"
  by (rule ensures_andthen1)

lemma ensures_nested2:
  "ensures E P snd (andthen m g) \<Longrightarrow> (\<And>x t. P t \<Longrightarrow> ensures E P st (f (x, t))) \<Longrightarrow>
    ensures E P st (andthen (andthen m g) f)"
  by (rule ensures_andthen2)

lemma ensures_option:
  "(x = None \<Longrightarrow> ensures E P st a) \<Longrightarrow> (\<And>y. x = Some y \<Longrightarrow> ensures E P st (b y)) \<Longrightarrow>
    ensures E P st (case x of None \<Rightarrow> a | Some y \<Rightarrow> b y)"
  by (cases x) simp_all

lemma ensures_prod: "(\<And>a b. x = (a, b) \<Longrightarrow> ensures E P st (f a b)) \<Longrightarrow> ensures E P st (case x of (a, b) \<Rightarrow> f a b)"
  by (cases x) simp

lemma ensures_acquire:
  assumes "\<And>e. e \<noteq> Diverges \<Longrightarrow> E e" and "\<And>l. ensures E P st (f l)"
  shows "ensures E P st (andthen (acquiresleep ch me l0 s) f)"
  using assms by (simp add: acquiresleep_def ensures_def)

lemma ensures_iterate:
  assumes "P t" and "\<And>i t. P t \<Longrightarrow> ensures E P id (f i t)"
  shows "ensures E P id (iterate f is t)"
  using assms(1)
proof (induction "is" arbitrary: t)
  case (Cons i "is")
  then show ?case
    using assms(2) by (auto intro!: ensures_andthen1)
qed (simp add: ensures_def)

lemma ensures_for_each:
  assumes "P t" and "\<And>i t. P t \<Longrightarrow> ensures E P flow_state (f i t)"
  shows "ensures E P flow_state (for_each f is t)"
  using assms(1)
proof (induction "is" arbitrary: t)
  case (Cons i "is")
  then show ?case
    using assms(2) [OF Cons.prems, of i] by (cases "f i t") (auto simp: ensures_def split: flow.split)
qed (simp add: ensures_def)

lemmas ensures_rules = ensures_Inl ensures_Inr ensures_if ensures_if_andthen ensures_if_andthen2
  ensures_nested ensures_nested2 ensures_option ensures_flow

section \<open>Buffers\<close>

text \<open>\<open>valid\<close> is what is known of a buffer that was read; \<open>E\<close> are the admissible reasons to stop.\<close>

locale bio_calls =
  fixes E :: "stop \<Rightarrow> bool" and valid :: "nat \<Rightarrow> bool" and P :: "'a bio_state_scheme \<Rightarrow> bool"
  assumes stops: "e \<noteq> Diverges \<Longrightarrow> E e"
    and wake: "P s \<Longrightarrow> P (wakeup ch s)"
    and set_data_stable: "P s \<Longrightarrow> P (set_data b d s)"
    and mark_stable: "P s \<Longrightarrow> P (upd_buf b (\<lambda>k. k\<lparr>bflags := bflags k OR B_DIRTY\<rparr>) s)"
    and bread_law: "P s \<Longrightarrow> ensures E (\<lambda>(b, t). valid b \<and> P t) id (bread me dev n s)"
    and bwrite_stable: "P s \<Longrightarrow> ensures E P id (bwrite me b s)"
    and brelse_stable: "P s \<Longrightarrow> valid b \<Longrightarrow> ensures E P id (brelse me b s)"
begin

lemma bread_bind:
  assumes "P s" and "\<And>b t. valid b \<Longrightarrow> P t \<Longrightarrow> ensures E P st (f (b, t))"
  shows "ensures E P st (andthen (bread me dev n s) f)"
  by (rule ensures_andthen [OF bread_law [OF assms(1)]]) (use assms(2) in auto)

lemmas bio_bind = ensures_rules stops wake set_data_stable mark_stable bread_bind ensures_andthen1 [OF bwrite_stable] bwrite_stable
  ensures_andthen1 [OF brelse_stable] brelse_stable ensures_andthen1 [OF ensures_iterate] ensures_iterate

end

text \<open>A property that does not depend on the buffers and the disk.\<close>

locale bio_stable =
  fixes P :: "'a bio_state_scheme \<Rightarrow> bool"
  assumes wake: "P s \<Longrightarrow> P (wakeup ch s)"
    and buf: "P s \<Longrightarrow> P (s\<lparr>bbuf := B\<rparr>)"
    and dsk: "P s \<Longrightarrow> P (s\<lparr>disk := D, disk_writes := W\<rparr>)"
begin

lemma upd_buf_stable: "P s \<Longrightarrow> P (upd_buf b f s)"
  by (simp add: upd_buf_def buf)

lemma link_buf_stable: "P s \<Longrightarrow> P (link_buf b s)"
  by (simp add: link_buf_def Let_def upd_buf_stable)

abbreviation leaves :: "('b \<Rightarrow> 'a bio_state_scheme) \<Rightarrow> 'b result \<Rightarrow> bool" where
  "leaves \<equiv> ensures (\<lambda>_. True) P"

lemma iderw_stable: "P s \<Longrightarrow> leaves id (iderw me b s)"
  unfolding iderw_def Let_def set_data_def by (intro ensures_rules) (simp_all add: upd_buf_stable dsk)

lemma bget_stable: "P s \<Longrightarrow> leaves snd (bget me dev n s)"
  unfolding bget_def lock_buf_def by (intro ensures_query ensures_rules) (simp_all add: upd_buf_stable)

lemma bread_stable: "P s \<Longrightarrow> leaves snd (bread me dev n s)"
  unfolding bread_def
  by (rule ensures_andthen2 [OF bget_stable]) (auto intro!: ensures_rules ensures_andthen1 [OF iderw_stable])

lemma bwrite_leaves: "P s \<Longrightarrow> leaves id (bwrite me b s)"
  unfolding bwrite_def by (intro ensures_rules iderw_stable upd_buf_stable) simp

lemma brelse_leaves: "P s \<Longrightarrow> leaves id (brelse me b s)"
  unfolding brelse_def releasesleep_def Let_def prod.case
  by (intro ensures_rules) (simp_all add: link_buf_stable upd_buf_stable wake)

end

sublocale bio_stable \<subseteq> calls: bio_calls "\<lambda>_. True" "\<lambda>_. True" P
proof
  show "P s \<Longrightarrow> ensures (\<lambda>_. True) (\<lambda>(b, t). True \<and> P t) id (bread me dev n s)" for s me dev n
    using bread_stable [of s me dev n] by (auto simp: ensures_def split: sum.splits)
qed (simp_all add: wake set_data_def upd_buf_stable bwrite_leaves brelse_leaves)

section \<open>The log\<close>

locale log_stable = bio_calls E valid P for E valid and P :: "'a log_state_scheme \<Rightarrow> bool" +
  assumes log_head: "P s \<Longrightarrow> P (s\<lparr>lh_n := n\<rparr>)" "P s \<Longrightarrow> P (s\<lparr>lh_block := B\<rparr>)"
    and log_ops: "P s \<Longrightarrow> P (s\<lparr>log_outstanding := k\<rparr>)" "P s \<Longrightarrow> P (s\<lparr>log_committing := c\<rparr>)"
begin

lemmas log_bind = bio_bind log_head log_ops

lemma install_trans_stable: "P s \<Longrightarrow> ensures E P id (install_trans me s)"
  unfolding install_trans_def install_step_def by (auto simp: Let_def intro!: log_bind)

lemma write_head_stable: "P s \<Longrightarrow> ensures E P id (write_head me s)"
  unfolding write_head_def by (auto simp: Let_def intro!: log_bind)

lemma write_log_stable: "P s \<Longrightarrow> ensures E P id (write_log me s)"
  unfolding write_log_def write_log_step_def by (auto simp: Let_def intro!: log_bind)

lemma commit_stable: "P s \<Longrightarrow> ensures E P id (commit me s)"
  unfolding commit_def
  by (auto intro!: log_bind write_head_stable ensures_andthen1 [OF write_log_stable] ensures_andthen1 [OF write_head_stable]
      ensures_andthen1 [OF install_trans_stable])

lemma begin_op_stable: "P s \<Longrightarrow> ensures E P id (begin_op s)"
  unfolding begin_op_def by (auto intro!: log_bind)

lemma end_op_stable: "P s \<Longrightarrow> ensures E P id (end_op me s)"
  unfolding end_op_def by (auto simp: Let_def intro!: log_bind ensures_andthen1 [OF commit_stable])

lemma log_write_stable: "P s \<Longrightarrow> ensures E P id (log_write b s)"
  unfolding log_write_def by (auto simp: Let_def intro!: log_bind)

lemmas log_calls = log_bind ensures_andthen1 [OF begin_op_stable] end_op_stable ensures_andthen1 [OF end_op_stable]
  log_write_stable ensures_andthen1 [OF log_write_stable]

end

section \<open>Inodes\<close>

locale fs_stable = log_stable E valid P for E valid and P :: "'a fs_state_scheme \<Rightarrow> bool" +
  assumes inodes: "P s \<Longrightarrow> P (s\<lparr>icache := C\<rparr>)"
begin

lemma upd_inode_stable: "P s \<Longrightarrow> P (upd_inode p f s)"
  by (simp add: upd_inode_def inodes)

lemmas fs_bind = log_calls upd_inode_stable ensures_for_each ensures_acquire [OF stops]

lemma bzero_stable: "P s \<Longrightarrow> ensures E P id (bzero me dev n s)"
  unfolding bzero_def by (auto intro!: fs_bind)

lemma balloc_stable: "P s \<Longrightarrow> ensures E P snd (balloc me dev s)"
  unfolding balloc_def balloc_body_def by (auto simp: Let_def intro!: fs_bind ensures_andthen1 [OF bzero_stable])

lemma bfree_stable: "P s \<Longrightarrow> ensures E P id (bfree me dev n s)"
  unfolding bfree_def by (auto simp: Let_def intro!: fs_bind)

lemma iget_stable: "P s \<Longrightarrow> ensures E P snd (iget dev i s)"
  unfolding iget_def by (auto intro!: fs_bind)

lemma ialloc_stable: "P s \<Longrightarrow> ensures E P snd (ialloc me dev ty s)"
  unfolding ialloc_def ialloc_body_def by (auto simp: Let_def intro!: fs_bind ensures_andthen2 [OF iget_stable])

lemma iupdate_stable: "P s \<Longrightarrow> ensures E P id (iupdate me p s)"
  unfolding iupdate_def by (auto simp: Let_def intro!: fs_bind)

lemma ilock_stable: "P s \<Longrightarrow> ensures E P id (ilock me p s)"
  unfolding ilock_def by (auto simp: Let_def intro!: fs_bind)

lemma iunlock_stable: "P s \<Longrightarrow> ensures E P id (iunlock me p s)"
  unfolding iunlock_def releasesleep_def by (auto simp: Let_def intro!: fs_bind)

lemma bmap_stable: "P s \<Longrightarrow> ensures E P snd (bmap me p bn s)"
  unfolding bmap_def by (auto simp: Let_def intro!: fs_bind ensures_andthen2 [OF balloc_stable])

lemma itrunc_stable: "P s \<Longrightarrow> ensures E P id (itrunc me p s)"
  unfolding itrunc_def itrunc_direct_def itrunc_indirect_def
  by (auto simp: Let_def intro!: fs_bind bfree_stable ensures_andthen1 [OF bfree_stable] iupdate_stable)

lemma iput_stable: "P s \<Longrightarrow> ensures E P id (iput me p s)"
  unfolding iput_def releasesleep_def
  by (auto simp: Let_def intro!: fs_bind ensures_andthen1 [OF itrunc_stable] ensures_andthen1 [OF iupdate_stable])

lemma iunlockput_stable: "P s \<Longrightarrow> ensures E P id (iunlockput me p s)"
  unfolding iunlockput_def by (auto intro!: fs_bind iput_stable ensures_andthen1 [OF iunlock_stable])

lemmas fs_calls = fs_bind ensures_andthen2 [OF iget_stable] ensures_andthen2 [OF bmap_stable]
  ensures_andthen1 [OF iupdate_stable] iput_stable ensures_andthen1 [OF iput_stable]
  ilock_stable ensures_andthen1 [OF ilock_stable] iunlock_stable ensures_andthen1 [OF iunlock_stable]
  ensures_andthen1 [OF iunlockput_stable]

end

section \<open>Console, files and directories\<close>

locale cons_stable = fs_stable E valid P for E valid and P :: "'a cons_state_scheme \<Rightarrow> bool" +
  assumes screen: "P s \<Longrightarrow> P (s\<lparr>crt := C\<rparr>)" "P s \<Longrightarrow> P (s\<lparr>crt_pos := pos\<rparr>)" "P s \<Longrightarrow> P (s\<lparr>uart_out := U\<rparr>)"
    and keys: "P s \<Longrightarrow> P (s\<lparr>input_r := r\<rparr>)"
begin

lemma uartputc_stable: "P s \<Longrightarrow> P (uartputc c s)"
  by (simp add: uartputc_def screen)

lemma cgaputc_stable: "P s \<Longrightarrow> ensures E P id (cgaputc c s)"
  unfolding cgaputc_def Let_def by (intro ensures_rules ensures_prod) (auto simp: screen stops split: if_splits)

lemma consputc_stable: "P s \<Longrightarrow> ensures E P id (consputc c s)"
  unfolding consputc_def Let_def by (intro ensures_rules cgaputc_stable) (simp_all add: uartputc_stable stops)

lemma consputs_stable: "P s \<Longrightarrow> ensures E P id (consputs cs s)"
  by (induction cs arbitrary: s) (auto intro!: ensures_rules ensures_andthen1 [OF consputc_stable])

lemma consoleread_loop_stable: "P s \<Longrightarrow> ensures E P snd (consoleread_loop me n got s)"
  by (induction n arbitrary: got s) (auto simp: Let_def intro!: ensures_rules keys stops)



lemma consoleread_stable: "P s \<Longrightarrow> ensures E P third (consoleread me ip n s)"
  unfolding consoleread_def by (auto intro!: fs_calls ensures_andthen2 [OF consoleread_loop_stable])

lemma consolewrite_stable: "P s \<Longrightarrow> ensures E P snd (consolewrite me ip bytes n s)"
  unfolding consolewrite_def by (auto intro!: fs_calls ensures_andthen1 [OF consputs_stable])

lemma readi_loop_stable: "P s \<Longrightarrow> ensures E P snd (readi_loop me p off left s)"
proof (induction "unat left" arbitrary: off left s rule: less_induct)
  case less
  note IH = ensures_andthen2 [OF less.hyps]
  show ?case
    using less.prems by (subst readi_loop.simps) (auto simp: Let_def io_chunk_decreases intro!: fs_calls IH)
qed

lemma readi_stable: "P s \<Longrightarrow> ensures E P third (readi me p off n s)"
  unfolding readi_def by (auto simp: Let_def intro!: fs_calls ensures_andthen2 [OF readi_loop_stable] consoleread_stable)

lemma writei_loop_stable: "P s \<Longrightarrow> ensures E P id (writei_loop me p src off left s)"
proof (induction "unat left" arbitrary: src off left s rule: less_induct)
  case less
  then show ?case
    by (subst writei_loop.simps) (auto simp: Let_def io_chunk_decreases intro!: fs_calls)
qed

lemma writei_stable: "P s \<Longrightarrow> ensures E P snd (writei me p src off n s)"
  unfolding writei_def by (auto simp: Let_def intro!: fs_calls ensures_andthen1 [OF writei_loop_stable] consolewrite_stable)

lemma dir_scan_stable: "P s \<Longrightarrow> ensures E P third (dir_scan msg hit me dp off sz s)"
proof (induction "unat sz - unat off" arbitrary: off s rule: less_induct)
  case less
  have "unat sz - unat (off + 16) < unat sz - unat off" if "off < sz" "\<not> off + 16 < off"
    using that step16_no_wrap [of off] by (simp add: word_less_nat_alt)
  with less show ?case
    by (subst dir_scan.simps) (auto intro!: fs_calls ensures_andthen3 [OF readi_stable])
qed

lemma dirlookup_stable: "P s \<Longrightarrow> ensures E P snd (dirlookup me dp name s)"
  unfolding dirlookup_def by (auto intro!: fs_calls ensures_andthen3 [OF dir_scan_stable])

lemma dirlink_stable: "P s \<Longrightarrow> ensures E P snd (dirlink me dp name i s)"
  unfolding dirlink_def by (auto intro!: fs_calls ensures_andthen3 [OF dir_scan_stable] ensures_andthen2 [OF dirlookup_stable] ensures_andthen2 [OF writei_stable])

lemma namex_loop_stable: "P s \<Longrightarrow> ensures E P third (namex_loop me parent ip path name s)"
proof (induction "length path" arbitrary: ip path name s rule: less_induct)
  case less
  then show ?case
    by (subst namex_loop.simps) (auto intro!: fs_calls ensures_andthen2 [OF dirlookup_stable] dest!: skipelem_shorter)
qed

lemma namex_stable: "P s \<Longrightarrow> ensures E P third (namex me path parent s)"
  unfolding namex_def idup_def by (auto simp: Let_def intro!: fs_calls namex_loop_stable)

end

lemma write_pos:
  fixes i n :: u32
  assumes "unat n < 0x80000000" and "unat i \<le> unat n"
  shows "i <s n \<longleftrightarrow> unat i < unat n"
  using assms by (simp add: sless_nat)

lemma write_chunk:
  fixes i n :: u32
  assumes "unat n < 0x80000000" and "i <s n" and "unat i \<le> unat n"
  defines "m \<equiv> if WRITE_MAX <s n - i then WRITE_MAX else n - i"
  shows "unat i < unat (i + m)" and "unat (i + m) \<le> unat n"
proof -
  have d: "unat (n - i) = unat n - unat i"
    using assms(3) by (simp add: unat_sub word_le_nat_alt)
  have "unat m \<le> unat n - unat i" "0 < unat m"
    using assms(1-3) d write_pos [OF assms(1,3)] sless_nat [of WRITE_MAX "n - i"] by (auto simp: m_def)
  moreover from this have "unat (i + m) = unat i + unat m"
    using assms(1,3) by (subst unat_add_lem [THEN iffD1]) auto
  ultimately show "unat i < unat (i + m)" "unat (i + m) \<le> unat n"
    using assms(3) by auto
qed

locale file_stable = cons_stable E valid P for E valid and P :: "'a file_state_scheme \<Rightarrow> bool" +
  assumes files: "P s \<Longrightarrow> P (s\<lparr>ftable := F\<rparr>)"
    and pipe_ends: "P s \<Longrightarrow> P (s\<lparr>pipes := G\<rparr>)"
begin

lemma upd_file_stable: "P s \<Longrightarrow> P (upd_file f g s)"
  by (simp add: upd_file_def files)

lemma upd_pipe_stable: "P s \<Longrightarrow> P (upd_pipe f g s)"
  by (simp add: upd_pipe_def pipe_ends)

lemma filedup_stable: "P s \<Longrightarrow> ensures E P id (filedup f s)"
  unfolding filedup_def by (auto intro!: ensures_rules upd_file_stable stops)

lemma pipewrite_stable: "P s \<Longrightarrow> P (third (pipewrite me p n bytes s))"
  by (induction bytes arbitrary: s) (auto simp: Let_def intro!: wake upd_pipe_stable)

lemma piperead_loop_stable: "P s \<Longrightarrow> P (snd (piperead_loop p n s))"
  by (induction n arbitrary: s) (auto simp: Let_def split_def intro!: upd_pipe_stable)

lemma piperead_stable: "P s \<Longrightarrow> P (third (piperead me p n s))"
  using piperead_loop_stable by (auto simp: piperead_def Let_def split_def intro!: wake)

lemma fileread_stable: "P s \<Longrightarrow> ensures E P third (fileread me f n s)"
  unfolding fileread_def
  by (auto simp: Let_def intro!: fs_calls ensures_andthen3 [OF readi_stable] upd_file_stable piperead_stable split: ftype.split)

text \<open>Every pass of the loop of \<^verbatim>\<open>filewrite\<close> moves \<open>i\<close> towards \<open>n\<close>, so \<open>n - i\<close> passes are enough.\<close>

lemma filewrite_enough:
  "P s \<Longrightarrow> unat n < 0x80000000 \<Longrightarrow> unat i \<le> unat n \<Longrightarrow> unat n - unat i \<le> k \<Longrightarrow>
    ensures E P snd (filewrite_loop k me f bytes n i s)"
proof (induction k arbitrary: i s)
  case 0
  then show ?case
    by (auto simp: write_pos intro!: ensures_rules)
next
  case (Suc k)
  define n1 where "n1 = (if WRITE_MAX <s n - i then WRITE_MAX else n - i)"
  have IH: "ensures E P snd (filewrite_loop k me f bytes n (i + n1) t)" if "P t" "i <s n" for t
    using write_chunk [OF Suc.prems(2) that(2) Suc.prems(3)] Suc.prems(2,4) that(1)
    by (intro Suc.IH) (auto simp: n1_def)
  show ?case
    using Suc.prems(1) IH unfolding filewrite_loop.simps Let_def n1_def [symmetric]
    by (auto intro!: fs_calls ensures_andthen2 [OF writei_stable] upd_file_stable)
qed

lemma filewrite_stable: "P s \<Longrightarrow> ensures E P third (filewrite me f bytes n s)"
proof -
  assume P: "P s"
  have "ensures E P snd (filewrite_loop (nat (sint n)) me f bytes n 0 s)"
  proof (cases "unat n < 0x80000000")
    case True
    then show ?thesis
      using P by (intro filewrite_enough) (simp_all add: sint_small)
  next
    case False
    then have "sint n < 0"
      using sless_zero_iff [of n] by (simp add: word_sless_alt)
    then show ?thesis
      using P by (auto simp: word_sless_alt intro!: ensures_rules)
  qed
  then show ?thesis
    using P unfolding filewrite_def
    by (auto simp: Let_def intro!: fs_calls ensures_andthen2 pipewrite_stable split: ftype.split)
qed

end

text \<open>With the pages of the allocator free to change as well.\<close>

locale kernel_stable = file_stable E valid P for E valid and P :: "'a file_state_scheme \<Rightarrow> bool" +
  assumes pages: "P s \<Longrightarrow> keeps s t \<Longrightarrow> P t"
begin

lemma kfree_stable: "P s \<Longrightarrow> ensures E P id (kfree v s)"
proof (cases "kfree v s")
  case (Inl e)
  then show ?thesis
    by (auto simp: ensures_def kfree_def get_ref_count_def andthen_eq_Inl intro!: stops split: if_splits)
next
  case (Inr t)
  then show "P s \<Longrightarrow> ?thesis"
    by (auto simp: ensures_def dest: kfree_keeps pages)
qed

lemma pipeclose_stable: "P s \<Longrightarrow> ensures E P id (pipeclose p w s)"
  unfolding pipeclose_def by (auto simp: Let_def intro!: ensures_rules kfree_stable wake upd_pipe_stable)

lemma fileclose_stable: "P s \<Longrightarrow> ensures E P id (fileclose me f s)"
  unfolding fileclose_def
  by (auto simp: Let_def intro!: fs_calls upd_file_stable pipeclose_stable split: ftype.split)

end

end
