(* ===== verification/WmapSafe.thy ===== *)
theory WmapSafe
  imports Wmap Machine FsStable
begin

text \<open>
  The table of mappings of a process: its regions stay in the mapping area and share no page, the
  search for free space finds the lowest one, and what the checks of \<^verbatim>\<open>wmap\<close> miss.
\<close>

section \<open>Regions as sets of addresses\<close>

definition span :: "addr \<Rightarrow> u32 \<Rightarrow> nat set" where
  "span a len = {unat a ..< unat a + unat len}"

definition pages_of :: "addr \<Rightarrow> u32 \<Rightarrow> nat set" where
  "pages_of a len = (\<lambda>x. x div 4096) ` span a len"

definition region_ok :: "mmap_region \<Rightarrow> bool" where
  "region_ok r \<longleftrightarrow> r_addr r mod PGSIZE = 0 \<and> WMAP_START \<le> r_addr r \<and> 0 < r_length r
     \<and> unat (r_addr r) + unat (r_length r) \<le> 0x80000000"

definition regions_ok :: "proc \<Rightarrow> bool" where
  "regions_ok p \<longleftrightarrow> (\<forall>i<MAX_MMAPS. r_used (pmmap p i) \<longrightarrow> region_ok (pmmap p i))
     \<and> (\<forall>i<MAX_MMAPS. \<forall>j<MAX_MMAPS. i \<noteq> j \<and> r_used (pmmap p i) \<and> r_used (pmmap p j)
          \<longrightarrow> pages_of (r_addr (pmmap p i)) (r_length (pmmap p i)) \<inter> pages_of (r_addr (pmmap p j)) (r_length (pmmap p j)) = {})"

text \<open>An address is free for a mapping of \<open>len\<close> bytes.\<close>

definition fits :: "proc \<Rightarrow> u32 \<Rightarrow> addr \<Rightarrow> bool" where
  "fits p len a \<longleftrightarrow> a mod PGSIZE = 0 \<and> WMAP_START \<le> a \<and> unat a + unat len \<le> 0x80000000
     \<and> (\<forall>i<MAX_MMAPS. r_used (pmmap p i) \<longrightarrow> pages_of a len \<inter> pages_of (r_addr (pmmap p i)) (r_length (pmmap p i)) = {})"

text \<open>For page-aligned addresses, not overlapping and not sharing a page are the same.\<close>

lemma aligned_disjoint:
  assumes "a mod PGSIZE = 0" and "b mod PGSIZE = 0" and "0 < unat l" and "0 < unat k"
  shows "pages_of a l \<inter> pages_of b k = {} \<longleftrightarrow> unat a + unat l \<le> unat b \<or> unat b + unat k \<le> unat a"
proof -
  obtain x y where xy: "unat a = 4096 * x" "unat b = 4096 * y"
    using arg_cong [OF assms(1), of unat] arg_cong [OF assms(2), of unat] by (auto simp: unat_mod mod_eq_0_iff_dvd elim!: dvdE)
  have pages: "pages_of c m = {c' ..< c' + (unat m + 4095) div 4096}" if "unat c = 4096 * c'" for c m c'
  proof (rule set_eqI)
    fix n
    have "n \<in> pages_of c m \<longleftrightarrow> (\<exists>z. 4096 * c' \<le> z \<and> z < 4096 * c' + unat m \<and> z div 4096 = n)"
      by (auto simp: pages_of_def span_def that)
    also have "\<dots> \<longleftrightarrow> c' \<le> n \<and> 4096 * n < 4096 * c' + unat m"
    proof
      assume "\<exists>z. 4096 * c' \<le> z \<and> z < 4096 * c' + unat m \<and> z div 4096 = n"
      then show "c' \<le> n \<and> 4096 * n < 4096 * c' + unat m"
        by auto
    next
      assume "c' \<le> n \<and> 4096 * n < 4096 * c' + unat m"
      then show "\<exists>z. 4096 * c' \<le> z \<and> z < 4096 * c' + unat m \<and> z div 4096 = n"
        by (intro exI [of _ "4096 * n"]) auto
    qed
    also have "\<dots> \<longleftrightarrow> n \<in> {c' ..< c' + (unat m + 4095) div 4096}"
      by auto
    finally show "n \<in> pages_of c m \<longleftrightarrow> n \<in> {c' ..< c' + (unat m + 4095) div 4096}" .
  qed
  show ?thesis
    unfolding pages [OF xy(1)] pages [OF xy(2)] using assms(3,4) xy by (auto simp: ivl_disj_int)
qed

lemma regions_okD:
  assumes "regions_ok p" and "i < MAX_MMAPS" and "r_used (pmmap p i)"
  shows "region_ok (pmmap p i)" and "r_addr (pmmap p i) mod PGSIZE = 0" and "0 < unat (r_length (pmmap p i))"
    and "unat (r_addr (pmmap p i) + r_length (pmmap p i)) = unat (r_addr (pmmap p i)) + unat (r_length (pmmap p i))"
    and "0x60000000 \<le> unat (r_addr (pmmap p i))"
proof -
  show r: "region_ok (pmmap p i)"
    using assms by (simp add: regions_ok_def)
  then show "r_addr (pmmap p i) mod PGSIZE = 0" "0 < unat (r_length (pmmap p i))" "0x60000000 \<le> unat (r_addr (pmmap p i))"
    by (simp_all add: region_ok_def word_less_nat_alt word_le_nat_alt)
  show "unat (r_addr (pmmap p i) + r_length (pmmap p i)) = unat (r_addr (pmmap p i)) + unat (r_length (pmmap p i))"
    using r by (intro unat_add_small) (simp add: region_ok_def)
qed

text \<open>The overlap tests of \<^verbatim>\<open>check_fixed\<close> and of \<^verbatim>\<open>find_free_mmap_space\<close> are exact as long as nothing wraps.\<close>

lemma overlaps_iff:
  assumes "regions_ok p" and "i < MAX_MMAPS" and "a mod PGSIZE = 0" and "0 < unat len" and "unat a + unat len < 0x100000000"
  shows "overlaps (pmmap p) a len i \<longleftrightarrow>
    r_used (pmmap p i) \<and> pages_of a len \<inter> pages_of (r_addr (pmmap p i)) (r_length (pmmap p i)) \<noteq> {}"
proof (cases "r_used (pmmap p i)")
  case True
  note r = regions_okD [OF assms(1,2) True]
  show ?thesis
    using aligned_disjoint [OF assms(3) r(2) assms(4) r(3)] True r(4) unat_add_small [OF assms(5)]
    by (auto simp: overlaps_def word_less_nat_alt)
qed (simp add: overlaps_def)

lemma fits_iff:
  assumes "regions_ok p" and "0 < unat len" and "a mod PGSIZE = 0" and "WMAP_START \<le> a" and "unat a + unat len < 0x100000000"
  shows "fits p len a \<longleftrightarrow> a + len \<le> WMAP_LIMIT \<and> (\<forall>i<MAX_MMAPS. \<not> overlaps (pmmap p) a len i)"
  using overlaps_iff [OF assms(1) _ assms(3,2,5)] assms(3,4) unat_add_small [OF assms(5)]
  by (auto simp: fits_def word_le_nat_alt)

lemma check_fixed_eq:
  assumes "regions_ok p" and "0 < unat len" and "unat a + unat len < 0x100000000"
  shows "check_fixed p a len = (if fits p len a then 1 else - 1)"
proof (cases "a \<noteq> 0 \<and> a mod PGSIZE = 0 \<and> WMAP_START \<le> a")
  case True
  then show ?thesis
    using fits_iff [OF assms(1,2) _ _ assms(3)] by (auto simp: check_fixed_def not_le)
next
  case False
  then show ?thesis
    by (auto simp: check_fixed_def fits_def)
qed

section \<open>Finding space\<close>

lemma pos_int: "0 <s len \<longleftrightarrow> 0 < unat len \<and> unat len < 0x80000000" for len :: u32
proof (cases "unat len < 0x80000000")
  case True
  then show ?thesis
    unfolding word_sless_alt sint_0 by (simp only: sint_small of_nat_0_less_iff simp_thms)
next
  case False
  then have "sint len < 0"
    using sless_zero_iff [of len] by (simp add: word_sless_alt)
  with False show ?thesis
    by (simp add: word_sless_alt)
qed

lemma aligned_next:
  fixes a b :: u32
  assumes "a mod PGSIZE = 0" and "b mod PGSIZE = 0" and "a < b"
  shows "unat a + 4096 \<le> unat b"
proof -
  obtain x y where "unat a = 4096 * x" "unat b = 4096 * y"
    using arg_cong [OF assms(1), of unat] arg_cong [OF assms(2), of unat] by (auto simp: unat_mod mod_eq_0_iff_dvd elim!: dvdE)
  then show ?thesis
    using assms(3) by (simp add: word_less_nat_alt)
qed

lemma find_free_loop:
  assumes "regions_ok p" and "0 < unat len" and "unat len < 0x80000000" and "a mod PGSIZE = 0" and "WMAP_START \<le> a"
    and "unat a + unat len \<le> 0x80001000" and "\<And>b. fits p len b \<Longrightarrow> a \<le> b"
  shows "if find_free_mmap_loop (pmmap p) len a = 0 then \<forall>b. \<not> fits p len b
    else fits p len (find_free_mmap_loop (pmmap p) len a) \<and> (\<forall>b. fits p len b \<longrightarrow> find_free_mmap_loop (pmmap p) len a \<le> b)"
  using assms(2-7)
proof (induction "pmmap p" len a rule: find_free_mmap_loop.induct)
  case (1 len a)
  let ?hit = "\<exists>i\<in>set [0..<MAX_MMAPS]. r_used (pmmap p i)
    \<and> \<not> (a + len \<le> r_addr (pmmap p i) \<or> a \<ge> r_addr (pmmap p i) + r_length (pmmap p i))"
  have small: "unat a + unat len < 0x100000000"
    using 1(6) by simp
  note sum = unat_add_small [OF small]
  have hit: "?hit \<longleftrightarrow> (\<exists>i<MAX_MMAPS. overlaps (pmmap p) a len i)"
    by (auto simp: overlaps_def not_le)
  have fit: "fits p len a \<longleftrightarrow> a + len \<le> WMAP_LIMIT \<and> \<not> ?hit"
    unfolding hit using fits_iff [OF assms(1) 1(2,4,5) small] by auto
  show ?case
  proof (cases "a + len \<le> WMAP_LIMIT \<and> ?hit")
    case True
    have next_a: "unat (a + PGSIZE) = unat a + 4096"
      using True sum unat_add_small [of a PGSIZE] by (simp add: word_le_nat_alt)
    have "find_free_mmap_loop (pmmap p) len a = find_free_mmap_loop (pmmap p) len (a + PGSIZE)"
      using True by (subst find_free_mmap_loop.simps) simp
    moreover have "if find_free_mmap_loop (pmmap p) len (a + PGSIZE) = 0 then \<forall>b. \<not> fits p len b
      else fits p len (find_free_mmap_loop (pmmap p) len (a + PGSIZE))
        \<and> (\<forall>b. fits p len b \<longrightarrow> find_free_mmap_loop (pmmap p) len (a + PGSIZE) \<le> b)"
    proof (rule 1(1))
      show "(a + PGSIZE) mod PGSIZE = 0"
        using arg_cong [OF 1(4), of unat] next_a by (intro word_unat_eqI) (simp add: unat_mod)
      show "a + PGSIZE \<le> b" if "fits p len b" for b
      proof -
        have "a \<noteq> b"
          using that True fit by blast
        moreover have "b mod PGSIZE = 0"
          using that unfolding fits_def by blast
        ultimately have "unat a + 4096 \<le> unat b"
          using 1(7) [OF that] by (intro aligned_next [OF 1(4)]) simp_all
        then show ?thesis
          using next_a by (simp add: word_le_nat_alt)
      qed
    qed (use True 1(2,3,5,6) sum next_a in \<open>auto simp: word_le_nat_alt\<close>)
    ultimately show ?thesis
      by simp
  next
    case False
    then have loop: "find_free_mmap_loop (pmmap p) len a = (if a + len \<le> WMAP_LIMIT then a else 0)"
      by (subst find_free_mmap_loop.simps) (simp only: simp_thms if_False split: if_split, blast)
    show ?thesis
    proof (cases "a + len \<le> WMAP_LIMIT")
      case True
      then have "fits p len a" "a \<noteq> 0"
        using False fit 1(5) by auto
      then show ?thesis
        using True 1(7) by (simp add: loop)
    next
      case high: False
      have "\<not> fits p len b" for b
      proof
        assume b: "fits p len b"
        then have "unat b + unat len \<le> 0x80000000"
          unfolding fits_def by blast
        then show False
          using 1(7) [OF b] high sum by (simp add: word_le_nat_alt)
      qed
      then show ?thesis
        using high by (simp add: loop)
    qed
  qed
qed

text \<open>
  C30. \<^verbatim>\<open>find_free_mmap_space\<close> is the search for the lowest free address: for a length that is a positive \<^verbatim>\<open>int\<close>
  and a sound table it returns the least page-aligned address of the mapping area at which the mapping
  fits without sharing a page with a region in use, and 0 exactly when there is none.
\<close>

theorem find_free_lowest:
  assumes "regions_ok p" and "0 <s len"
  shows "if find_free_mmap_space p len = 0 then \<forall>b. \<not> fits p len b
    else fits p len (find_free_mmap_space p len) \<and> (\<forall>b. fits p len b \<longrightarrow> find_free_mmap_space p len \<le> b)"
proof -
  have len: "0 < unat len" "unat len < 0x80000000"
    using assms(2) pos_int by blast+
  show ?thesis
  proof (cases "unat len \<le> 0x20001000")
    case True
    then show ?thesis
      unfolding find_free_mmap_space_def using find_free_loop [OF assms(1) len, of WMAP_START]
      by (simp add: fits_def)
  next
    case False
    then have "find_free_mmap_space p len = 0"
      using len(2) unat_add_small [of WMAP_START len]
      by (simp add: find_free_mmap_space_def find_free_mmap_loop.simps [of _ len] word_le_nat_alt)
    moreover have "\<not> fits p len b" for b
      using False by (auto simp: fits_def word_le_nat_alt)
    ultimately show ?thesis
      by simp
  qed
qed

definition one_map :: proc where
  "one_map = free_proc\<lparr>pmmap := (pmmap free_proc)(3 := \<lparr>r_addr = 0x60000000, r_length = 5000, r_flags = 14,
     r_used = True, r_fd = 0, r_loaded = 0\<rparr>)\<rparr>"

theorem find_free_lowest_witness:
  "fits one_map 4096 (find_free_mmap_space one_map 4096) \<and> find_free_mmap_space one_map 4096 = 0x60002000"
proof -
  have "regions_ok one_map" and "0 <s (4096 :: u32)"
    by (simp_all add: regions_ok_def region_ok_def one_map_def free_proc_def word_sless_alt)
  moreover have "find_free_mmap_space one_map 4096 = 0x60002000"
    by code_simp
  ultimately show ?thesis
    using find_free_lowest [of one_map 4096] by simp
qed

section \<open>The table over time\<close>

definition mmaps :: "'a ptable_state_scheme \<Rightarrow> nat \<Rightarrow> nat \<Rightarrow> mmap_region" where
  "mmaps s q = pmmap (ptable s q)"

lemma mmaps_mem [simp]: "mmaps (s\<lparr>mem := m\<rparr>) = mmaps s"
  by (simp add: mmaps_def fun_eq_iff)

lemma mmaps_wakeup [simp]: "mmaps (wakeup ch s) = mmaps s"
  by (auto simp: mmaps_def wakeup_def wakeup1_ptable fun_eq_iff)

interpretation mmb: bio_stable "\<lambda>s. mmaps s = M" for M
  by unfold_locales (simp_all add: mmaps_def fun_eq_iff)

interpretation mm: kernel_stable "\<lambda>_. True" "\<lambda>_. True" "\<lambda>s. mmaps s = M" for M
  by unfold_locales (auto simp: mmaps_def fun_eq_iff dest!: keeps_ptable)

lemma regions_ok_mmaps: "regions_ok (p\<lparr>pmmap := M\<rparr>) \<Longrightarrow> pmmap q = M \<Longrightarrow> regions_ok q"
  by (simp add: regions_ok_def)

lemma mmaps_upd_region: "mmaps (upd_region me i f s) = (mmaps s)(me := (mmaps s me)(i := f (mmaps s me i)))"
  by (auto simp: mmaps_def upd_region_def upd_proc_def fun_eq_iff)

lemma mmaps_total: "mmaps (upd_proc me (\<lambda>p. p\<lparr>ptotal_mmaps := g p\<rparr>) s) = mmaps s"
  "mmaps (upd_proc me (\<lambda>p. p\<lparr>pofile := h p\<rparr>) s) = mmaps s"
  by (auto simp: mmaps_def upd_proc_def fun_eq_iff)

lemma ofile_bind: "(\<And>r. ensures (\<lambda>_. True) P st (f r)) \<Longrightarrow> ensures (\<lambda>_. True) P st (andthen (ofile_at me fd s) f)"
  by (rule ensures_query)

lemma wunmap_writeback_mmaps: "mmaps s = M \<Longrightarrow> ensures (\<lambda>_. True) (\<lambda>s. mmaps s = M) id (wunmap_writeback me r a pa s)"
  unfolding wunmap_writeback_def
  by (auto simp: Let_def intro!: ofile_bind ensures_rules ensures_andthen3 [OF mm.filewrite_stable] mm.upd_file_stable
      split: waiting.split)

lemma wunmap_body_mmaps: "mmaps s = M \<Longrightarrow> ensures (\<lambda>_. True) (\<lambda>s. mmaps s = M) flow_state (wunmap_body me i a s)"
  unfolding wunmap_body_def
  by (auto simp: Let_def intro!: ensures_rules ensures_andthen1 [OF wunmap_writeback_mmaps]
      ensures_andthen1 [OF mm.kfree_stable])

lemma flow_state_case: "(case fl of Next s \<Rightarrow> s | Leave r s \<Rightarrow> s) = flow_state fl"
  by (cases fl) simp_all

lemma wunmap_mmaps:
  assumes "wunmap me a s = Inr (r, t)"
  shows "mmaps t = mmaps s
    \<or> (\<exists>i<MAX_MMAPS. mmaps t = (mmaps s)(me := (mmaps s me)(i := (mmaps s me i)\<lparr>r_used := False, r_loaded := 0\<rparr>)))"
proof (cases "find_region (ptable s me) a")
  case (Some i)
  then have i: "i < MAX_MMAPS"
    by (auto simp: find_region_def find_Some_iff)
  obtain fl where fl: "page_loop (wunmap_body me i) (PGROUNDDOWN (r_addr (pmmap (ptable s me) i)))
      (r_addr (pmmap (ptable s me) i) + r_length (pmmap (ptable s me) i)) s = Inr fl"
    and t: "mmaps t = (mmaps (flow_state fl))(me := (mmaps (flow_state fl) me)(i :=
      (mmaps (flow_state fl) me i)\<lparr>r_used := False, r_loaded := 0\<rparr>))"
    using assms Some by (auto simp: wunmap_def Let_def andthen_eq_Inr mmaps_upd_region mmaps_total flow_state_case)
  have "mmaps (flow_state fl) = mmaps s"
    using fl by (rule page_loop_inv) (auto dest: ensuresD [OF wunmap_body_mmaps])
  with t i show ?thesis
    by auto
qed (use assms in \<open>auto simp: wunmap_def\<close>)

lemma filedup_mmaps: "filedup f s = Inr t \<Longrightarrow> mmaps t = mmaps s"
  using ensuresD [OF mm.filedup_stable] by fastforce

lemma wmap_file_mmaps:
  assumes "wmap_file me i fd a s = Inr (r, t)"
  shows "mmaps t = mmaps s \<or> (\<exists>k. mmaps t = (mmaps s)(me := (mmaps s me)(i := (mmaps s me i)\<lparr>r_fd := k\<rparr>)))"
  using assms
  by (auto simp: wmap_file_def andthen_eq_Inr Let_def mmaps_upd_region mmaps_total split: option.split_asm dest!: filedup_mmaps)
    blast

lemma wmap_mmaps:
  assumes "wmap_checked me a len flags fd s = Inr (r, t)"
  shows "mmaps t = mmaps s
    \<or> 0 <s len \<and> check_fixed (ptable s me) a len \<noteq> - 1 \<and>
      (\<exists>i<MAX_MMAPS. \<exists>k. mmaps t = (mmaps s)(me := (mmaps s me)(i :=
         (mmaps s me i)\<lparr>r_addr := a, r_length := len, r_flags := flags, r_used := True, r_fd := k\<rparr>)))"
proof -
  consider "mmaps t = mmaps s" | "0 <s len" "check_fixed (ptable s me) a len \<noteq> - 1" "wmap_insert me a len flags fd s = Inr (r, t)"
    using assms by (auto simp: wmap_checked_def Let_def word_sle_eq word_sless_alt split: if_splits)
  then show ?thesis
  proof cases
    case 2
    show ?thesis
    proof (cases "find (\<lambda>i. \<not> r_used (pmmap (ptable s me) i)) [0..<MAX_MMAPS]")
      case (Some i)
      then have i: "i < MAX_MMAPS"
        by (auto simp: find_Some_iff)
      let ?u = "upd_proc me (\<lambda>p. p\<lparr>ptotal_mmaps := ptotal_mmaps p + 1\<rparr>)
        (upd_region me i (\<lambda>r. r\<lparr>r_addr := a, r_length := len, r_flags := flags, r_fd := fd, r_used := True\<rparr>) s)"
      have u: "mmaps ?u = (mmaps s)(me := (mmaps s me)(i :=
          (mmaps s me i)\<lparr>r_addr := a, r_length := len, r_flags := flags, r_used := True, r_fd := fd\<rparr>))"
        by (cases "mmaps s me i") (simp add: mmaps_total mmaps_upd_region)
      have "t = ?u \<or> wmap_file me i fd a ?u = Inr (r, t)"
        using 2(3) Some by (auto simp: wmap_insert_def Let_def split: if_splits)
      then have "\<exists>k. mmaps t = (mmaps s)(me := (mmaps s me)(i :=
          (mmaps s me i)\<lparr>r_addr := a, r_length := len, r_flags := flags, r_used := True, r_fd := k\<rparr>))"
      proof
        assume "wmap_file me i fd a ?u = Inr (r, t)"
        from wmap_file_mmaps [OF this] show ?thesis
          unfolding u by (elim disjE exE) (simp, blast, simp, blast)
      qed (use u in blast)
      then show ?thesis
        using 2(1,2) i by blast
    qed (use 2(3) in \<open>auto simp: wmap_insert_def\<close>)
  qed simp
qed

text \<open>A call of a process that changes a table of mappings.\<close>

inductive mmap_call :: "'a file_state_scheme \<Rightarrow> 'a file_state_scheme \<Rightarrow> bool" where
  map: "wmap_checked me a len flags fd s = Inr (r, t) \<Longrightarrow> a < WMAP_LIMIT \<Longrightarrow> mmap_call s t"
| unmap: "wunmap me a s = Inr (r, t) \<Longrightarrow> mmap_call s t"

definition tables_ok :: "'a ptable_state_scheme \<Rightarrow> bool" where
  "tables_ok s \<longleftrightarrow> (\<forall>q. regions_ok (ptable s q))"

lemma tables_ok_upd:
  assumes "tables_ok s" and "mmaps t = (mmaps s)(me := M)" and "regions_ok ((ptable s me)\<lparr>pmmap := M\<rparr>)"
  shows "tables_ok t"
  unfolding tables_ok_def
proof
  fix q
  show "regions_ok (ptable t q)"
  proof (cases "q = me")
    case True
    then show ?thesis
      using assms(2) by (intro regions_ok_mmaps [OF assms(3)]) (simp add: mmaps_def fun_eq_iff)
  next
    case False
    then have "pmmap (ptable t q) = pmmap (ptable s q)"
      using fun_cong [OF assms(2), of q] by (simp add: mmaps_def)
    then show ?thesis
      using assms(1) by (simp add: tables_ok_def regions_ok_def)
  qed
qed

lemma regions_ok_add:
  assumes "regions_ok p" and "fits p (r_length r) (r_addr r)" and "0 < r_length r"
  shows "regions_ok (p\<lparr>pmmap := (pmmap p)(i := r)\<rparr>)"
  using assms unfolding regions_ok_def fits_def region_ok_def
  by (auto simp: Int_commute)

lemma regions_ok_drop:
  assumes "regions_ok p" and "\<not> r_used r"
  shows "regions_ok (p\<lparr>pmmap := (pmmap p)(i := r)\<rparr>)"
  using assms by (simp add: regions_ok_def)

lemma mmap_call_ok:
  assumes "mmap_call s t" and "tables_ok s"
  shows "tables_ok t"
  using assms
proof cases
  case (map me a len flags fd r)
  show ?thesis
    using wmap_mmaps [OF map(1)]
  proof (elim disjE conjE exE)
    fix i k
    assume len: "0 <s len" and chk: "check_fixed (ptable s me) a len \<noteq> - 1" and i: "i < MAX_MMAPS"
      and t: "mmaps t = (mmaps s)(me := (mmaps s me)(i :=
         (mmaps s me i)\<lparr>r_addr := a, r_length := len, r_flags := flags, r_used := True, r_fd := k\<rparr>))"
    have l: "0 < unat len" "unat len < 0x80000000"
      using len pos_int by blast+
    have ok: "regions_ok (ptable s me)"
      using assms(2) by (simp add: tables_ok_def)
    have "unat a + unat len < 0x100000000"
      using map(2) l(2) by (simp add: word_less_nat_alt)
    then have "fits (ptable s me) len a"
      using chk check_fixed_eq [OF ok l(1)] by (auto split: if_splits)
    then show ?thesis
      using l(1) by (intro tables_ok_upd [OF assms(2) t]) (auto intro!: regions_ok_add [OF ok] simp: mmaps_def word_less_nat_alt)
  next
    assume "mmaps t = mmaps s"
    then show ?thesis
      using assms(2) by (simp add: tables_ok_def regions_ok_def mmaps_def fun_eq_iff)
  qed
next
  case (unmap me a r)
  show ?thesis
    using wunmap_mmaps [OF unmap]
  proof (elim disjE conjE exE)
    fix i
    assume t: "mmaps t = (mmaps s)(me := (mmaps s me)(i := (mmaps s me i)\<lparr>r_used := False, r_loaded := 0\<rparr>))"
    then show ?thesis
      using assms(2) by (intro tables_ok_upd [OF assms(2) t]) (auto intro!: regions_ok_drop simp: mmaps_def tables_ok_def)
  next
    assume "mmaps t = mmaps s"
    then show ?thesis
      using assms(2) by (simp add: tables_ok_def regions_ok_def mmaps_def fun_eq_iff)
  qed
qed



text \<open>
  C28. Whatever sequence of \<^verbatim>\<open>wmap\<close> and \<^verbatim>\<open>wunmap\<close> calls the processes make, as long as the requested addresses lie
  below the end of the mapping area: the regions in use of every process stay page-aligned inside the
  mapping area and no two of them share a page. This covers calls that fail half way, after the slot
  was taken, and the writing back of file pages on \<^verbatim>\<open>wunmap\<close>.
\<close>

theorem wmap_regions_disjoint:
  assumes "mmap_call\<^sup>*\<^sup>* s t" and "tables_ok s"
  shows "tables_ok t"
  using assms by (induction rule: rtranclp_induct) (auto dest: mmap_call_ok)

definition mapped_machine :: file_state where
  "mapped_machine = machine\<lparr>ptable := (\<lambda>_. free_proc)(5 := one_map)\<rparr>"

theorem wmap_regions_disjoint_witness:
  "\<exists>t :: file_state. wmap_checked 5 0x60002000 4096 14 0 mapped_machine = Inr (0x60002000, t) \<and> tables_ok t"
proof -
  obtain t where t: "wmap_checked 5 0x60002000 4096 14 0 mapped_machine = Inr (0x60002000, t)"
    by (simp add: wmap_checked_def check_fixed_def overlaps_def wmap_insert_def mapped_machine_def one_map_def free_proc_def
        Let_def word_sle_eq upt_rec)
  have "mmap_call\<^sup>*\<^sup>* mapped_machine t"
    using mmap_call.map [OF t] by simp
  moreover have "tables_ok mapped_machine"
    by (simp add: tables_ok_def regions_ok_def region_ok_def mapped_machine_def one_map_def free_proc_def)
  ultimately show ?thesis
    using wmap_regions_disjoint t by blast
qed

text \<open>
  C29. Above the mapping area the test of the end of a mapping wraps around: a process without mappings
  that asks for \<^verbatim>\<open>0x7FFFF000\<close> bytes at \<^verbatim>\<open>0x80001000\<close> gets the mapping, which covers the kernel's
  addresses, and its table is no longer inside the mapping area.
\<close>

theorem wmap_kernel_address:
  assumes "\<And>i. i < MAX_MMAPS \<Longrightarrow> \<not> r_used (pmmap (ptable s me) i)"
  shows "\<exists>t. wmap_checked me 0x80001000 0x7FFFF000 14 fd s = Inr (0x80001000, t)
    \<and> r_used (pmmap (ptable t me) 0) \<and> r_addr (pmmap (ptable t me) 0) = 0x80001000
    \<and> r_length (pmmap (ptable t me) 0) = 0x7FFFF000 \<and> \<not> regions_ok (ptable t me)"
proof -
  have "check_fixed (ptable s me) 0x80001000 0x7FFFF000 = 1"
    using assms by (auto simp: check_fixed_def overlaps_def)
  moreover have "find (\<lambda>i. \<not> r_used (pmmap (ptable s me) i)) [0..<MAX_MMAPS] = Some 0"
    using assms [of 0] by (simp add: upt_rec)
  ultimately show ?thesis
    by (auto simp: wmap_checked_def wmap_insert_def Let_def word_sle_eq upd_region_def upd_proc_def regions_ok_def region_ok_def)
qed

theorem wmap_kernel_address_witness:
  "\<exists>t :: file_state. wmap_checked 5 0x80001000 0x7FFFF000 14 0 machine = Inr (0x80001000, t) \<and> \<not> regions_ok (ptable t 5)"
  using wmap_kernel_address [of machine 5 0] by (auto simp: free_proc_def)

end
