(* ===== verification/FsCalls.thy ===== *)
theory FsCalls
  imports Sysfile FsStable BufCache Machine
begin

text \<open>
  The file system calls as a whole. Every walk over the buffers and every loop below a call comes to
  an end, and a call changes nothing of another process but wakes it up. Both follow from the layers
  of \<open>FsStable\<close>, extended here by the calls themselves.
\<close>

section \<open>Arguments\<close>

text \<open>Fetching an argument looks at the state and may fault, but it always ends.\<close>

definition ends :: "'b result \<Rightarrow> bool" where
  "ends m \<longleftrightarrow> m \<noteq> Inl Diverges"

lemma ends_simps [simp]: "ends (Inr x)" "ends (Inl e) \<longleftrightarrow> e \<noteq> Diverges"
  by (simp_all add: ends_def)

lemma ends_andthen: "ends m \<Longrightarrow> (\<And>x. ends (f x)) \<Longrightarrow> ends (andthen m f)"
  by (cases m) simp_all

lemma ends_option: "ends a \<Longrightarrow> (\<And>y. ends (b y)) \<Longrightarrow> ends (case x of None \<Rightarrow> a | Some y \<Rightarrow> b y)"
  by (cases x) simp_all

lemma user_byte_ends: "ends (user_byte pg a s)"
  by (simp add: user_byte_def Let_def)

lemma user_bytes_ends: "ends (user_bytes pg a n s)"
  by (induction n arbitrary: a) (simp_all add: ends_andthen user_byte_ends)

lemma fetchint_ends: "ends (fetchint me a s)"
  by (simp add: fetchint_def Let_def ends_andthen user_bytes_ends del: user_bytes.simps)

lemma fetchstr_loop_ends: "ends (fetchstr_loop pg a n s)"
  by (induction n arbitrary: a) (auto intro!: ends_andthen user_byte_ends)

lemma argint_ends: "ends (argint me n s)"
  by (simp add: argint_def fetchint_ends)

lemma argstr_ends: "ends (argstr me n s)"
  by (auto simp: argstr_def fetchstr_def Let_def intro!: ends_andthen argint_ends ends_option fetchstr_loop_ends)

lemma argptr_ends: "ends (argptr me n sz s)"
  by (auto simp: argptr_def intro!: ends_andthen argint_ends ends_option)

lemma argfd_ends: "ends (argfd me n s)"
  by (auto simp: argfd_def intro!: ends_andthen argint_ends ends_option)

section \<open>Calls\<close>

locale syscall_stable = kernel_stable E valid P for E valid and P :: "'a file_state_scheme \<Rightarrow> bool" +
  fixes me :: nat
  assumes own: "P s \<Longrightarrow> P (upd_proc me (\<lambda>p. p\<lparr>pofile := h p\<rparr>) s)" "P s \<Longrightarrow> P (upd_proc me (\<lambda>p. p\<lparr>pcwd := c\<rparr>) s)"
begin

lemma query_bind: "ends m \<Longrightarrow> (\<And>x. ensures E P st (f x)) \<Longrightarrow> ensures E P st (andthen m f)"
  by (cases m) (auto simp: ensures_def intro: stops)

lemmas arg_bind = query_bind [OF argint_ends] query_bind [OF argstr_ends] query_bind [OF argptr_ends] query_bind [OF argfd_ends]
  query_bind [OF user_bytes_ends]

lemma mem_stable: "P s \<Longrightarrow> P (s\<lparr>mem := m\<rparr>)"
  by (erule pages) (simp add: keeps_def)

lemma user_store_stable: "P s \<Longrightarrow> ensures E P id (user_store pg a bs s)"
proof (induction bs arbitrary: a s)
  case (Cons c cs)
  then show ?case
    by (simp add: Let_def ensures_Inl stops mem_stable)
qed (auto intro: ensures_rules)

lemma fdalloc_stable: "P s \<Longrightarrow> P (snd (fdalloc me f s))"
  by (auto simp: fdalloc_def own split: option.split)

lemma filealloc_stable: "P s \<Longrightarrow> P (snd (filealloc s))"
  by (auto simp: filealloc_def upd_file_stable split: option.split)

lemma fail_op_stable: "P s \<Longrightarrow> ensures E P snd (fail_op me s)"
  unfolding fail_op_def by (auto intro!: fs_calls)

lemma fail_bind:
  "P s \<Longrightarrow> ensures E P snd (andthen (iunlockput me ip s) (fail_op me))"
  by (rule ensures_andthen1 [OF iunlockput_stable fail_op_stable])

lemmas call_bind = fail_bind fs_calls arg_bind own fail_op_stable upd_file_stable
  ensures_andthen1 [OF user_store_stable] user_store_stable ensures_andthen1 [OF fileclose_stable] ensures_andthen1 [OF filedup_stable]
  ensures_andthen2 [OF dirlookup_stable] ensures_andthen2 [OF dirlink_stable] ensures_andthen2 [OF writei_stable]
  ensures_andthen3 [OF dir_scan_stable] ensures_andthen3 [OF namex_stable] ensures_andthen2 [OF ialloc_stable]

lemma sys_dup_stable: "P s \<Longrightarrow> ensures E P snd (sys_dup me s)"
  unfolding sys_dup_def with_arg_def Let_def
  using fdalloc_stable [of s] by (auto simp: split_def intro!: call_bind)

lemma sys_close_stable: "P s \<Longrightarrow> ensures E P snd (sys_close me s)"
  unfolding sys_close_def with_arg_def Let_def by (auto intro!: call_bind)

lemma filestat_stable: "P s \<Longrightarrow> ensures E P third (filestat me f s)"
  unfolding filestat_def by (auto simp: Let_def intro!: call_bind)

lemma stat_store_stable: "P s \<Longrightarrow> ensures E P id (stat_store pg a st s)"
  unfolding stat_store_def by (auto intro!: call_bind)

lemma sys_fstat_stable: "P s \<Longrightarrow> ensures E P snd (sys_fstat me s)"
  unfolding sys_fstat_def with_arg_def
  by (auto intro!: call_bind ensures_andthen3 [OF filestat_stable] ensures_andthen1 [OF stat_store_stable])

lemma sys_read_stable: "P s \<Longrightarrow> ensures E P third (sys_read me s)"
  unfolding sys_read_def by (auto intro!: call_bind ensures_andthen3 [OF fileread_stable] split: option.split)

lemma sys_write_stable: "P s \<Longrightarrow> ensures E P third (sys_write me s)"
  unfolding sys_write_def by (auto intro!: call_bind filewrite_stable split: option.split)

lemma namei_stable: "P s \<Longrightarrow> ensures E P snd (namei me pth s)"
  unfolding namei_def by (auto intro!: call_bind)

lemma link_bad_stable: "P s \<Longrightarrow> ensures E P snd (link_bad me ip s)"
  unfolding link_bad_def by (auto intro!: call_bind)

lemmas name_bind = call_bind ensures_andthen2 [OF namei_stable]

lemma sys_link_stable: "P s \<Longrightarrow> ensures E P snd (sys_link me s)"
  unfolding sys_link_def with_arg_def nameiparent_def
  by (auto intro!: name_bind link_bad_stable ensures_andthen1 [OF iunlockput_stable link_bad_stable])

lemma isdirempty_stable: "P s \<Longrightarrow> ensures E P snd (isdirempty me dp s)"
  unfolding isdirempty_def by (auto intro!: call_bind)

lemma unlink_entry_stable: "P s \<Longrightarrow> ensures E P snd (unlink_entry me dp ip off s)"
  unfolding unlink_entry_def by (auto intro!: call_bind iupdate_stable)

lemma sys_unlink_stable: "P s \<Longrightarrow> ensures E P snd (sys_unlink me s)"
  unfolding sys_unlink_def with_arg_def nameiparent_def unlink_bad_def
  by (auto intro!: name_bind isdirempty_stable unlink_entry_stable ensures_andthen2 [OF isdirempty_stable]
      ensures_andthen1 [OF iunlockput_stable fail_bind])

lemma create_dots_stable: "P s \<Longrightarrow> ensures E P id (create_dots me dp ip s)"
  unfolding create_dots_def by (auto intro!: call_bind)

lemma create_stable: "P s \<Longrightarrow> ensures E P snd (create me pth ty major minor s)"
  unfolding create_def nameiparent_def by (auto intro!: call_bind create_dots_stable ensures_andthen1 [OF create_dots_stable])

lemma open_inode_stable: "P s \<Longrightarrow> ensures E P snd (open_inode me pth omode s)"
  unfolding open_inode_def by (auto intro!: name_bind create_stable)

lemma sys_open_stable: "P s \<Longrightarrow> ensures E P snd (sys_open me s)"
  unfolding sys_open_def with_arg_def
  by (auto simp: Let_def split_def intro!: call_bind ensures_andthen2 [OF open_inode_stable] filealloc_stable fdalloc_stable)

lemma sys_mkdir_stable: "P s \<Longrightarrow> ensures E P snd (sys_mkdir me s)"
  unfolding sys_mkdir_def by (auto intro!: call_bind ensures_andthen2 [OF create_stable])

lemma sys_mknod_stable: "P s \<Longrightarrow> ensures E P snd (sys_mknod me s)"
  unfolding sys_mknod_def by (auto intro!: call_bind ensures_andthen2 [OF create_stable])

lemma sys_chdir_stable: "P s \<Longrightarrow> ensures E P snd (sys_chdir me s)"
  unfolding sys_chdir_def by (auto intro!: name_bind)

lemma pipealloc_bad_stable: "P s \<Longrightarrow> ensures E P snd (pipealloc_bad me f g s)"
  unfolding pipealloc_bad_def
  by (cases f; cases g) (auto intro!: call_bind)

lemma kalloc_stable: "P s \<Longrightarrow> P (snd (kalloc s))"
  using kalloc_keeps [of s] pages by (cases "kalloc s") auto

lemma pipealloc_stable: "P s \<Longrightarrow> ensures E P snd (pipealloc me s)"
  unfolding pipealloc_def
  by (auto simp: Let_def split_def
      intro!: call_bind pipealloc_bad_stable filealloc_stable kalloc_stable upd_pipe_stable)

lemma sys_pipe_stable: "P s \<Longrightarrow> ensures E P snd (sys_pipe me s)"
  unfolding sys_pipe_def with_arg_def
  by (auto simp: Let_def split_def intro!: call_bind ensures_andthen2 [OF pipealloc_stable] fdalloc_stable)

lemmas pair_calls = sys_dup_stable sys_close_stable sys_fstat_stable sys_link_stable sys_unlink_stable sys_open_stable
  sys_mkdir_stable sys_mknod_stable sys_chdir_stable sys_pipe_stable

end

section \<open>The ring of buffers\<close>

definition ring :: "'a bio_state_scheme \<Rightarrow> bool" where
  "ring s \<longleftrightarrow> (\<exists>bs. lru s bs \<and> distinct bs \<and> set bs = {0..<NBUF})"

abbreviation progress :: "stop \<Rightarrow> bool" where
  "progress e \<equiv> e \<noteq> Diverges"

lemma ring_cong: "bbuf t = bbuf s \<Longrightarrow> ring t \<longleftrightarrow> ring s"
  by (simp add: ring_def lru_def)

lemma ring_same: "ring s \<Longrightarrow> bbuf t = bbuf s \<Longrightarrow> ring t"
  by (simp add: ring_def lru_def)

lemma ring_upd [simp]:
  "bnext (f (bbuf s b)) = bnext (bbuf s b) \<Longrightarrow> bprev (f (bbuf s b)) = bprev (bbuf s b) \<Longrightarrow> ring (upd_buf b f s) \<longleftrightarrow> ring s"
  by (simp add: ring_def lru_upd)

lemma ring_wakeup [simp]: "ring (wakeup ch s) \<longleftrightarrow> ring s"
  by (rule ring_cong) simp

lemma ring_disk: "ring (s\<lparr>disk := D, disk_writes := W\<rparr>) \<longleftrightarrow> ring s"
  by (rule ring_cong) simp

lemma keeps_bbuf: "keeps s t \<Longrightarrow> bbuf t = bbuf s" for s t :: "'a bio_state_scheme"
  by (cases s; cases t) (simp add: keeps_def)

lemma ring_length: "distinct bs \<Longrightarrow> set bs = {0..<NBUF} \<Longrightarrow> length bs = NBUF \<and> HEAD \<notin> set bs"
  using distinct_card [of bs] by simp

lemma ring_find:
  assumes "ring s"
  shows "\<exists>r. find_buf (Suc NBUF) bnext Q (bbuf s) (bnext (bbuf s HEAD)) = Inr r \<and> (\<forall>b. r = Some b \<longrightarrow> b < NBUF)"
    and "\<exists>r. find_buf (Suc NBUF) bprev Q (bbuf s) (bprev (bbuf s HEAD)) = Inr r \<and> (\<forall>b. r = Some b \<longrightarrow> b < NBUF)"
proof -
  obtain bs where bs: "lru s bs" "distinct bs" "set bs = {0..<NBUF}"
    using assms by (auto simp: ring_def)
  note len = ring_length [OF bs(2,3)]
  have "find_buf (Suc NBUF) bnext Q (bbuf s) (bnext (bbuf s HEAD)) = Inr (find (\<lambda>b. Q (bbuf s b)) bs)"
    "find_buf (Suc NBUF) bprev Q (bbuf s) (bprev (bbuf s HEAD)) = Inr (find (\<lambda>b. Q (bbuf s b)) (rev bs))"
    using find_buf_lru [OF bs(1)] len by blast+
  moreover have "find R bs = Some b \<Longrightarrow> b < NBUF" "find R (rev bs) = Some b \<Longrightarrow> b < NBUF" for R b
    using bs(3) find_SomeD [of R bs b] find_SomeD [of R "rev bs" b] by auto
  ultimately show "\<exists>r. find_buf (Suc NBUF) bnext Q (bbuf s) (bnext (bbuf s HEAD)) = Inr r \<and> (\<forall>b. r = Some b \<longrightarrow> b < NBUF)"
    "\<exists>r. find_buf (Suc NBUF) bprev Q (bbuf s) (bprev (bbuf s HEAD)) = Inr r \<and> (\<forall>b. r = Some b \<longrightarrow> b < NBUF)"
    by auto
qed

lemma ring_iderw: "ring s \<Longrightarrow> ensures progress ring id (iderw me b s)"
  unfolding iderw_def Let_def set_data_def
  by (intro ensures_rules) (simp_all add: ring_disk)

lemma ring_lock_buf: "ring s \<Longrightarrow> b < NBUF \<Longrightarrow> ensures progress (\<lambda>(b, t). b < NBUF \<and> ring t) id (lock_buf me b s)"
  unfolding lock_buf_def by (intro ensures_acquire ensures_rules) simp_all

lemma ring_bget:
  assumes "ring s"
  shows "ensures progress (\<lambda>(b, t). b < NBUF \<and> ring t) id (bget me dev n s)"
proof -
  let ?Q = "\<lambda>k. bdev k = dev \<and> bblockno k = n"
  obtain r where r: "find_buf (Suc NBUF) bnext ?Q (bbuf s) (bnext (bbuf s HEAD)) = Inr r" "\<And>b. r = Some b \<Longrightarrow> b < NBUF"
    using ring_find(1) [OF assms] by blast
  obtain q where q: "find_buf (Suc NBUF) bprev (\<lambda>k. brefcnt k = 0 \<and> bflags k AND B_DIRTY = 0) (bbuf s) (bprev (bbuf s HEAD)) = Inr q"
    "\<And>b. q = Some b \<Longrightarrow> b < NBUF"
    using ring_find(2) [OF assms] by blast
  show ?thesis
    unfolding bget_def r(1) q(1) andthen_Inr
    by (intro ensures_rules ring_lock_buf) (use assms r(2) q(2) in auto)
qed

lemma ring_relink:
  assumes "ring s" and "b < NBUF"
  shows "ring (link_buf b (unlink_buf b s))"
proof -
  obtain bs where bs: "lru s bs" "distinct bs" "set bs = {0..<NBUF}"
    using assms(1) by (auto simp: ring_def)
  then obtain pre post where split: "bs = pre @ b # post"
    using assms(2) split_list [of b bs] by auto
  have "lru (link_buf b (unlink_buf b s)) (b # pre @ post)"
    using bs split assms(2) ring_length [OF bs(2,3)] by (intro link_buf_lru unlink_buf_lru) auto
  moreover have "distinct (b # pre @ post)" "set (b # pre @ post) = {0..<NBUF}"
    using bs(2,3) split by auto
  ultimately show ?thesis
    unfolding ring_def by blast
qed

lemma ring_brelse:
  assumes "ring s" and "b < NBUF"
  shows "ensures progress ring id (brelse me b s)"
proof -
  let ?w = "upd_buf b (\<lambda>k. k\<lparr>brefcnt := brefcnt k - 1\<rparr>)
    (upd_buf b (\<lambda>k. k\<lparr>block_lock := (block_lock (bbuf s b))\<lparr>sl_locked := False, sl_pid := 0\<rparr>\<rparr>) (wakeup (ChBuf b) s))"
  have w: "ring ?w"
    using assms(1) by simp
  have "ensures progress ring id (if \<not> holdingsleep me (block_lock (bbuf s b)) s then Inl (Panic ''brelse'')
      else if brefcnt (bbuf ?w b) = 0 then Inr (link_buf b (unlink_buf b ?w)) else Inr ?w)"
    by (intro ensures_rules) (simp_all only: id_apply w ring_relink [OF w assms(2)], simp)
  then show ?thesis
    unfolding brelse_def releasesleep_def unlink_buf_def Let_def prod.case .
qed

lemma ring_bread: "ring s \<Longrightarrow> ensures progress (\<lambda>(b, t). b < NBUF \<and> ring t) id (bread me dev n s)"
  unfolding bread_def
  by (rule ensures_andthen [OF ring_bget]) (auto intro!: ensures_rules ensures_andthen [OF ring_iderw])

interpretation rg: bio_calls progress "\<lambda>b. b < NBUF" "ring :: 'a bio_state_scheme \<Rightarrow> bool"
proof
  show "ring s \<Longrightarrow> ensures progress ring id (bwrite me b s)" for me b and s :: "'a bio_state_scheme"
    by (auto simp: bwrite_def intro!: ensures_rules ring_iderw)
qed (simp_all add: set_data_def ring_bread ring_brelse)

interpretation rs: syscall_stable progress "\<lambda>b. b < NBUF" "ring :: 'a file_state_scheme \<Rightarrow> bool" me for me
  by (unfold_locales; erule ring_same; simp add: upd_proc_def keeps_bbuf)

section \<open>Properties\<close>

definition file_calls :: "(nat \<Rightarrow> 'a file_state_scheme \<Rightarrow> (u32 \<times> 'a file_state_scheme) result) list" where
  "file_calls = [sys_dup, sys_close, sys_fstat, sys_link, sys_unlink, sys_open, sys_mkdir, sys_mknod, sys_chdir, sys_pipe]"

definition transfer_calls :: "(nat \<Rightarrow> 'a file_state_scheme \<Rightarrow> (u32 waiting \<times> u8 list \<times> 'a file_state_scheme) result) list" where
  "transfer_calls = [sys_read, sys_write]"

text \<open>
  C31. On a well-formed ring of buffers every file system call comes to an end: it returns, sleeps,
  panics or faults, but no walk over the buffer list, no directory scan, path lookup or transfer loop
  runs for ever, and \<^verbatim>\<open>filewrite\<close> needs no more passes than bytes. The ring is well formed again when the
  call returns, so this holds for all calls that follow.
\<close>

theorem file_calls_end:
  fixes s :: "'a file_state_scheme"
  assumes "ring s"
  shows "(\<forall>call \<in> set file_calls. call me s \<noteq> Inl Diverges \<and> (\<forall>r t. call me s = Inr (r, t) \<longrightarrow> ring t))
    \<and> (\<forall>call \<in> set transfer_calls. call me s \<noteq> Inl Diverges \<and> (\<forall>w l t. call me s = Inr (w, l, t) \<longrightarrow> ring t))"
proof (intro conjI ballI)
  fix call :: "nat \<Rightarrow> 'a file_state_scheme \<Rightarrow> (u32 \<times> 'a file_state_scheme) result"
  assume "call \<in> set file_calls"
  then have "ensures progress ring snd (call me s)"
    using assms by (auto simp: file_calls_def intro: rs.pair_calls)
  then show "call me s \<noteq> Inl Diverges" "\<forall>r t. call me s = Inr (r, t) \<longrightarrow> ring t"
    by (auto simp: ensures_def)
next
  fix call :: "nat \<Rightarrow> 'a file_state_scheme \<Rightarrow> (u32 waiting \<times> u8 list \<times> 'a file_state_scheme) result"
  assume "call \<in> set transfer_calls"
  then have "ensures progress ring third (call me s)"
    using assms by (auto simp: transfer_calls_def intro: rs.sys_read_stable rs.sys_write_stable)
  then show "call me s \<noteq> Inl Diverges" "\<forall>w l t. call me s = Inr (w, l, t) \<longrightarrow> ring t"
    by (auto simp: ensures_def)
qed

theorem file_calls_end_witness:
  "sys_mkdir 0 (binit machine) \<noteq> Inl Diverges \<and> sys_write 0 (binit machine) \<noteq> Inl Diverges"
proof -
  have "ring (binit machine)"
    using binit_ok(1) [of machine] by (auto simp: ring_def cache_ok_def free_buf_def)
  from file_calls_end [OF this, of 0] show ?thesis
    by (simp add: file_calls_def transfer_calls_def)
qed

text \<open>
  What a call of process \<open>me\<close> does to the process table: the new entry \<open>p'\<close> is the old one, with other
  files if it is the caller's, and possibly woken up.
\<close>

definition own_entry :: "bool \<Rightarrow> proc \<Rightarrow> proc \<Rightarrow> bool" where
  "own_entry mine p p' \<longleftrightarrow>
     (let b = (if mine then p\<lparr>pofile := pofile p', pcwd := pcwd p'\<rparr> else p)
      in p' = b \<or> pstate b = SLEEPING \<and> p' = b\<lparr>pstate := RUNNABLE\<rparr>)"

definition own_files :: "nat \<Rightarrow> 'a ptable_state_scheme \<Rightarrow> 'a ptable_state_scheme \<Rightarrow> bool" where
  "own_files me s t \<longleftrightarrow> own_entry True (ptable s me) (ptable t me)
     \<and> (\<forall>q. q \<noteq> me \<longrightarrow> own_entry False (ptable s q) (ptable t q))"

lemma own_entry_refl [simp]: "own_entry m p p"
  by (simp add: own_entry_def)

lemma own_entry_wake: "own_entry m p x \<Longrightarrow> pstate x = SLEEPING \<Longrightarrow> own_entry m p (x\<lparr>pstate := RUNNABLE\<rparr>)"
  by (cases p; cases x) (auto simp: own_entry_def Let_def split: if_splits)

lemma own_entry_upd:
  "own_entry True p x \<Longrightarrow> own_entry True p (x\<lparr>pofile := F\<rparr>)" "own_entry True p x \<Longrightarrow> own_entry True p (x\<lparr>pcwd := c\<rparr>)"
  by (cases p; cases x; auto simp: own_entry_def Let_def)+

lemma own_files_same: "own_files me s0 s \<Longrightarrow> ptable t = ptable s \<Longrightarrow> own_files me s0 t"
  by (simp add: own_files_def)

lemma own_files_wakeup: "own_files me s0 s \<Longrightarrow> own_files me s0 (wakeup ch s)"
  by (simp add: own_files_def wakeup_def wakeup1_ptable own_entry_wake)

lemma own_files_upd:
  "own_files me s0 s \<Longrightarrow> own_files me s0 (upd_proc me (\<lambda>p. p\<lparr>pofile := h p\<rparr>) s)"
  "own_files me s0 s \<Longrightarrow> own_files me s0 (upd_proc me (\<lambda>p. p\<lparr>pcwd := c\<rparr>) s)"
  by (auto simp: own_files_def upd_proc_def intro: own_entry_upd)

interpretation ofb: bio_stable "own_files me s0" for me s0
  by (unfold_locales; (erule own_files_wakeup | erule own_files_same; simp))

interpretation oc: syscall_stable "\<lambda>_. True" "\<lambda>_. True" "own_files me s0" me for me s0
  by (unfold_locales; (erule own_files_upd | erule own_files_same; simp add: keeps_ptable))

text \<open>
  C32. A file system call of one process touches no other entry of the process table, except that it
  may make sleeping processes runnable; of its own entry it changes only the descriptors and the
  current directory. So no file system call reaches the memory size, the page table, the mappings or
  the descriptors of another process.
\<close>

theorem file_calls_isolated:
  fixes s :: "'a file_state_scheme"
  shows "(\<forall>call \<in> set file_calls. \<forall>r t. call me s = Inr (r, t) \<longrightarrow> own_files me s t)
    \<and> (\<forall>call \<in> set transfer_calls. \<forall>w l t. call me s = Inr (w, l, t) \<longrightarrow> own_files me s t)"
proof (intro conjI ballI)
  have refl: "own_files me s s"
    by (simp add: own_files_def)
  fix call :: "nat \<Rightarrow> 'a file_state_scheme \<Rightarrow> (u32 \<times> 'a file_state_scheme) result"
  assume "call \<in> set file_calls"
  then have "ensures (\<lambda>_. True) (own_files me s) snd (call me s)"
    using refl by (auto simp: file_calls_def intro: oc.pair_calls)
  then show "\<forall>r t. call me s = Inr (r, t) \<longrightarrow> own_files me s t"
    by (auto simp: ensures_def)
next
  have refl: "own_files me s s"
    by (simp add: own_files_def)
  fix call :: "nat \<Rightarrow> 'a file_state_scheme \<Rightarrow> (u32 waiting \<times> u8 list \<times> 'a file_state_scheme) result"
  assume "call \<in> set transfer_calls"
  then have "ensures (\<lambda>_. True) (own_files me s) third (call me s)"
    using refl by (auto simp: transfer_calls_def intro: oc.sys_read_stable oc.sys_write_stable)
  then show "\<forall>w l t. call me s = Inr (w, l, t) \<longrightarrow> own_files me s t"
    by (auto simp: ensures_def)
qed

theorem file_calls_isolated_witness:
  "\<exists>t :: file_state. sys_mkdir 7 machine = Inr (- 1, t) \<and> own_files 7 machine t"
proof -
  obtain t where t: "sys_mkdir 7 machine = Inr (- 1, t)"
    by (simp add: sys_mkdir_def begin_op_def argstr_def argint_def fetchint_def fail_op_def end_op_def commit_def free_proc_def
        Let_def word_sless_alt)
  moreover have "sys_mkdir \<in> set (file_calls :: (nat \<Rightarrow> file_state \<Rightarrow> _) list)"
    by (simp add: file_calls_def)
  ultimately show ?thesis
    using file_calls_isolated [of 7 machine] by blast
qed

end
