(* ===== verification/CowFault.thy ===== *)
theory CowFault
  imports Trap Cow Machine
begin

text \<open>
  The page fault handler on a copy-on-write page: the writer gets a page of its own with the same
  contents, and nobody else sees a difference.
\<close>

section \<open>Copying a page\<close>

lemma unat_kpage:
  assumes "kpage s v"
  shows "unat v < 0x8E000000" and "0x80000000 \<le> unat v"
proof -
  have "v - 0x80000000 < 0xE000000"
    using assms by (simp add: kpage_def V2P_def)
  then show "unat v < 0x8E000000" "0x80000000 \<le> unat v"
    by (simp_all add: word_less_nat_alt unat_sub_if' split: if_splits)
qed

lemma memmove_page:
  assumes "kpage s v" and "kpage s u"
  shows "memmove v u PGSIZE m = blit v u 4096 m"
  using unat_kpage [OF assms(1)] unat_kpage [OF assms(2)] by (subst memmove_blit) simp_all

lemma blit_page:
  assumes "page_aligned v"
  shows "PGROUNDDOWN x \<noteq> v \<Longrightarrow> blit v u 4096 m x = m x" and "unat k < 4096 \<Longrightarrow> blit v u 4096 m (v + k) = m (u + k)"
  using assms by (auto simp: blit_def PGROUNDDOWN_eq_iff PGROUNDDOWN_aligned)

lemma blit_wf:
  fixes u :: addr
  assumes "pgdir_wf s pgdir xs" and "page_aligned v" and "v \<notin> owned s pgdir" and "v \<notin> set xs"
  defines "s' \<equiv> s\<lparr>mem := blit v u 4096 (mem s)\<rparr>"
  shows "pgdir_wf s' pgdir xs" and "pte_of s' pgdir = pte_of s pgdir" and "owned s' pgdir = owned s pgdir"
    and "table_of s' pgdir = table_of s pgdir"
proof -
  have other: "mem s' x = mem s x" if "PGROUNDDOWN x \<noteq> v" for x
    using that by (simp add: s'_def blit_page(1) [OF assms(2)])
  have same: "mem s' x = mem s x" if "PGROUNDDOWN x \<in> owned s pgdir" for x
    using that assms(3) by (intro other) blast
  show "pte_of s' pgdir = pte_of s pgdir" "owned s' pgdir = owned s pgdir" "table_of s' pgdir = table_of s pgdir"
    by (rule pgdir_cong [OF assms(1) same]; assumption)+
  have "load32 (mem s') x = load32 (mem s) x" if "x \<in> set xs" for x
  proof (rule load32_page_cong)
    have "page_aligned x"
      using assms(1) that by (auto simp: pgdir_wf_def free_inv_def kpage_def)
    then show "x mod 4 = 0" "\<And>y. PGROUNDDOWN y = PGROUNDDOWN x \<Longrightarrow> mem s' y = mem s y"
      using assms(4) that by (auto simp: page_aligned_mod4 PGROUNDDOWN_aligned intro!: other)
  qed
  then have "free_inv s' xs"
    using pgdir_wf_free [OF assms(1)] by (auto simp: free_inv_def s'_def kpage_def intro: chain_frame)
  then show "pgdir_wf s' pgdir xs"
    using same assms(1) by (intro pgdir_wf_cong [OF assms(1)]) (auto simp: s'_def pgdir_wf_def)
qed

lemma mappages_present:
  assumes "pgdir_wf s pgdir xs" and "table_of s pgdir a = Some t" and "page_aligned a" and "pte_of s pgdir a AND PTE_P = 0"
  shows "mappages pgdir a PGSIZE pa perm s = Inr (0, s\<lparr>mem := store32 (t + 4 * PTX a) (pa OR perm OR PTE_P) (mem s)\<rparr>)"
proof -
  have "a + PGSIZE - 1 = a + 4095" "unat (4095 :: u32) < 4096"
    by simp_all
  then have end_a: "PGROUNDDOWN (a + PGSIZE - 1) = a"
    using PGROUNDDOWN_add [OF assms(3), of 4095] by (simp only:)
  have "load32 (mem s) (t + 4 * PTX a) AND PTE_P = 0"
    using assms(2,4) by (simp add: pte_of_def)
  then show ?thesis
    unfolding mappages_def end_a PGROUNDDOWN_aligned [OF assms(3)]
    by (subst mappages_loop.simps)
      (simp add: walkpgdir_present [OF assms(2)] table_slot_nonzero [OF assms(1,2)] Let_def)
qed

section \<open>The handler on a shared page\<close>

text \<open>The flags of the writer's new entry.\<close>

definition private_flags :: "u32 \<Rightarrow> u32" where
  "private_flags old = (PTE_FLAGS old OR PTE_W OR PTE_P) AND NOT PTE_COW"

lemmas flag_bits = mask12_u32 bit_or_iff bit_and_iff bit_not_iff bit_mask_iff bit_take_bit_iff bit_flags

lemma private_flags_eq:
  "(PTE_FLAGS ((old OR PTE_W) AND NOT PTE_COW) OR PTE_W) OR PTE_P = private_flags old"
  by (rule bit_word_eqI) (simp only: private_flags_def PTE_FLAGS_def flag_bits, auto)

lemma private_flags_bound: "private_flags old < PGSIZE"
proof -
  have "private_flags old = take_bit 12 (private_flags old)"
    by (rule bit_word_eqI) (simp only: private_flags_def PTE_FLAGS_def flag_bits, auto)
  moreover have "unat (take_bit 12 (private_flags old)) < 2 ^ 12"
    using take_bit_nat_less_exp [of 12 "unat (private_flags old)"] by (simp add: unsigned_take_bit_eq)
  ultimately show ?thesis
    by (simp add: word_less_nat_alt)
qed

lemma unshared_addr: "PTE_ADDR ((old OR PTE_W) AND NOT PTE_COW) = PTE_ADDR old"
  by (rule bit_word_eqI) (simp only: PTE_ADDR_def flag_bits, auto)

text \<open>The page table after the fault, as one store into the entry.\<close>

definition cow_mem :: "addr \<Rightarrow> addr \<Rightarrow> addr \<Rightarrow> u32 \<Rightarrow> memory \<Rightarrow> memory" where
  "cow_mem v u e old m = blit v u 4096 (store32 e (V2P v OR private_flags old) (blit v u 4096 m))"

lemma cow_fault_eq:
  fixes s :: "'a ptable_state_scheme" and p :: nat and va :: addr
  defines "pg \<equiv> ppgdir (ptable s p)"
  defines "old \<equiv> pte_of s pg va"
  assumes wf: "pgdir_wf s pg (v # xs)" and tb: "table_of s pg va = Some tb"
    and u: "kpage s u" "u = P2V (PTE_ADDR old)" "u \<notin> owned s pg" "u \<noteq> v" and rc: "1 < ref_count s u"
  shows "cow_fault p va (tb + 4 * PTX va) s =
    Inr (PfReturn, (snd (kalloc s))\<lparr>mem := cow_mem v u (tb + 4 * PTX va) old (mem s), cr3 := V2P pg,
      ref_counts := (ref_counts (snd (kalloc s)))(PTE_ADDR old div PGSIZE := ref_count s u - 1)\<rparr>)"
proof -
  define s1 where "s1 = snd (kalloc s)"
  have fr: "mem s1 = mem s"
    by (simp add: s1_def)
  let ?t = "s1\<lparr>mem := cow_mem v u (tb + 4 * PTX va) old (mem s), cr3 := V2P pg\<rparr>"
  let ?e = "tb + 4 * PTX va" and ?new = "(old OR PTE_W) AND NOT PTE_COW"
  have v: "kpage s v" "v \<notin> owned s pg" "v \<notin> set xs"
    using wf by (auto simp: pgdir_wf_def free_inv_def)
  have al: "page_aligned v" "page_aligned tb"
    using v(1) pgdir_wf_aligned [OF wf owned_table [OF tb]] by (simp_all add: kpage_def)
  have tv: "tb \<noteq> v"
    using v(2) owned_table [OF tb] by metis
  have k: "kalloc s = (v, s1)"
    using kalloc_some(1) [OF pgdir_wf_free [OF wf]] by (simp add: prod_eq_iff s1_def)
  have wf1: "pgdir_wf s1 pg xs"
    using pgdir_wf_kalloc [OF wf] by (simp add: s1_def)
  have own1: "owned s1 pg = owned s pg" "table_of s1 pg = table_of s pg" "pte_of s1 pg = pte_of s pg"
    by (simp_all only: owned_mem [OF fr] table_of_mem [OF fr] pte_of_mem [OF fr])
  have pa: "ref_counts s (PTE_ADDR old div PGSIZE) = ref_count s u"
    by (simp add: ref_count_def u(2))
  have e: "load32 (mem s) ?e = old" "load32 (blit v u 4096 (mem s)) ?e = old"
  proof -
    show o: "load32 (mem s) ?e = old"
      using tb by (simp add: old_def pte_of_def)
    show "load32 (blit v u 4096 (mem s)) ?e = old"
      unfolding o [symmetric] using al tv
      by (intro load32_page_cong) (auto simp: slot_simps blit_page(1) [OF al(1)])
  qed
  define s2 where "s2 = s1\<lparr>mem := blit v u 4096 (mem s1)\<rparr>"
  note b = blit_wf [OF wf1 al(1), unfolded own1, OF v(2,3), of u, folded s2_def]
  define s3 where "s3 = lcr3 (V2P pg) (s2\<lparr>mem := store32 ?e 0 (mem s2)\<rparr>)"
  have tb2: "table_of s2 pg va = Some tb"
    using b(4) tb own1(2) by simp
  note st = store_pte [OF b(1) tb2, of 0]
  have s3: "pgdir_wf s3 pg xs" "table_of s3 pg = table_of s pg" "pte_of s3 pg va = 0"
    using grows_wf [OF st(1)] st(2,3) b(4) own1(2) by (simp_all add: s3_def)
  have dn: "PDX (PGROUNDDOWN va) = PDX va" "PTX (PGROUNDDOWN va) = PTX va"
    using same_page_iff [of "PGROUNDDOWN va" va] by (simp_all add: PGROUNDDOWN_aligned)
  have map: "mappages pg (PGROUNDDOWN va) PGSIZE (V2P v) (PTE_FLAGS ?new OR PTE_W) s3 =
      Inr (0, s3\<lparr>mem := store32 ?e (V2P v OR private_flags old) (mem s3)\<rparr>)"
    using mappages_present [OF s3(1), of "PGROUNDDOWN va" tb "V2P v" "PTE_FLAGS ?new OR PTE_W"]
      table_of_PDX [OF dn(1), of s3 pg] pte_of_page [of "PGROUNDDOWN va" va s3 pg] s3(2,3) tb
    unfolding private_flags_eq by (simp add: dn PGROUNDDOWN_aligned)
  have s3m: "s3 = lcr3 (V2P pg) (s1\<lparr>mem := store32 ?e 0 (blit v u 4096 (mem s))\<rparr>)"
    by (simp add: s3_def s2_def fr)
  have rc1: "ref_count s u \<noteq> 1"
    using rc by auto
  have cm: "s1\<lparr>cr3 := V2P pg, mem := m\<rparr> = s1\<lparr>mem := m, cr3 := V2P pg\<rparr>" for m
    by (cases s1) simp
  have "cow_fault p va ?e s =
      andthen (mappages pg (PGROUNDDOWN va) PGSIZE (V2P v) (PTE_FLAGS ?new OR PTE_W) s3) (\<lambda>(r, s).
        if r <s 0 then Inl (Panic ''mampages duplciate pages failed'')
        else andthen (decref (PTE_ADDR old) ((lcr3 (V2P pg) s)\<lparr>mem := memmove v u PGSIZE (mem (lcr3 (V2P pg) s))\<rparr>))
          (\<lambda>s. Inr (PfReturn, s)))"
    using rc1 kpage_nonzero [OF v(1)] unfolding cow_fault_def Let_def pg_def [symmetric] e(1) pa k prod.case s3m
    by (simp add: e fr store32_twice memmove_page [OF v(1) u(1)] unshared_addr [simplified] lcr3_def cm flip: u(2) cong: if_cong)
  also have "\<dots> = andthen (decref (PTE_ADDR old) ?t) (\<lambda>s. Inr (PfReturn, s))"
    unfolding map by (simp add: lcr3_def s3m cow_mem_def cm memmove_page [OF v(1) u(1)] store32_twice)
  also have "\<dots> = Inr (PfReturn, ?t\<lparr>ref_counts := (ref_counts ?t)(PTE_ADDR old div PGSIZE := ref_count s u - 1)\<rparr>)"
  proof -
    have "ref_counts s1 (PTE_ADDR old div PGSIZE) = ref_count s u"
      using kalloc_ref_other [of u s "v # xs"] arg_cong [OF k, of fst] u(1,4) pgdir_wf_free [OF wf] unfolding s1_def
      by (simp add: ref_count_def u(2) kpage_def)
    then show ?thesis
      using decref_shared [of "PTE_ADDR old" ?t] rc u(1,2) by (simp add: ref_count_def kpage_def)
  qed
  finally show ?thesis
    by (simp add: s1_def)
qed

text \<open>The directory and the memory after the fault.\<close>

lemma cow_mem_spec:
  assumes wf: "pgdir_wf s pg (v # xs)" and tb: "table_of s pg va = Some tb" and "kpage s u" and "u \<notin> owned s pg" and "u \<noteq> v"
    and t: "mem t = cow_mem v u (tb + 4 * PTX va) old (mem s)" "freelist t = freelist (snd (kalloc s))" "kern_end t = kern_end s"
  shows "pgdir_wf t pg xs"
    and "pte_of t pg = (\<lambda>a. if PGROUNDDOWN a = PGROUNDDOWN va then V2P v OR private_flags old else pte_of s pg a)"
    and "PGROUNDDOWN x \<notin> insert v (owned s pg) \<Longrightarrow> mem t x = mem s x"
    and "unat k < 4096 \<Longrightarrow> mem t (v + k) = mem s (u + k)"
proof -
  let ?e = "tb + 4 * PTX va"
  define s1 where "s1 = snd (kalloc s)"
  define s2 where "s2 = s1\<lparr>mem := blit v u 4096 (mem s1)\<rparr>"
  define s3 where "s3 = s2\<lparr>mem := store32 ?e (V2P v OR private_flags old) (mem s2)\<rparr>"
  define s4 where "s4 = s3\<lparr>mem := blit v u 4096 (mem s3)\<rparr>"
  have v: "page_aligned v" "v \<notin> owned s pg" "v \<notin> set xs"
    using wf by (auto simp: pgdir_wf_def free_inv_def kpage_def)
  have al: "page_aligned tb" "tb \<in> owned s pg"
    using pgdir_wf_aligned [OF wf owned_table [OF tb]] owned_table [OF tb] by simp_all
  have fr: "mem s1 = mem s"
    by (simp add: s1_def)
  note same = owned_mem [OF fr] table_of_mem [OF fr] pte_of_mem [OF fr]
  have "pgdir_wf s1 pg xs"
    using pgdir_wf_kalloc [OF wf] by (simp add: s1_def)
  note b = blit_wf [OF this v(1), unfolded same, OF v(2,3), of u, folded s2_def]
  have "table_of s2 pg va = Some tb"
    using tb b(4) by simp
  note st = store_pte [OF b(1) this, of "V2P v OR private_flags old", folded s3_def]
  have own3: "owned s3 pg = owned s pg"
    using st(3) b(4) same by (simp add: owned_def)
  note c = blit_wf [OF grows_wf [OF st(1)] v(1), unfolded own3, OF v(2,3), of u, folded s4_def]
  have m4: "mem t = mem s4"
    by (simp add: t(1) cow_mem_def s4_def s3_def s2_def fr)
  show "pgdir_wf t pg xs"
    using c(1) pgdir_wf_mem [of t s4] m4 t(2,3) by (simp add: s4_def s3_def s2_def s1_def)
  show "pte_of t pg = (\<lambda>a. if PGROUNDDOWN a = PGROUNDDOWN va then V2P v OR private_flags old else pte_of s pg a)"
    unfolding pte_of_mem [OF m4] c(2) st(2) b(2) ..
  show "mem t x = mem s x" if "PGROUNDDOWN x \<notin> insert v (owned s pg)"
  proof -
    have "PGROUNDDOWN x \<noteq> v" "PGROUNDDOWN x \<noteq> tb"
      using that al(2) by auto
    then show ?thesis
      using al(1) by (simp add: t(1) cow_mem_def blit_page(1) [OF v(1)] store32_other_page slot_simps)
  qed
  show "mem t (v + k) = mem s (u + k)" if "unat k < 4096"
  proof -
    have "page_aligned u"
      using assms(3) by (simp add: kpage_def)
    then have "PGROUNDDOWN (u + k) = u"
      using that by (rule PGROUNDDOWN_add)
    moreover have "u \<noteq> tb"
      using assms(4) al(2) by blast
    ultimately show ?thesis
      using al(1) that assms(5)
      by (simp add: t(1) cow_mem_def blit_page(2) [OF v(1)] blit_page(1) [OF v(1)] store32_other_page slot_simps)
  qed
qed

text \<open>
  C33. A write to a shared copy-on-write page, with a page \<open>v\<close> left to allocate, returns to the program with
  the faulting page mapped to \<open>v\<close>, writable and no longer copy-on-write, with the bytes of the old page.
  No other entry of the directory changes, and no byte of memory outside the new page and the
  directory's own tables: whoever shares the old page still reads the old contents. The old page
  loses one reference and the new one has exactly one.
\<close>

theorem cow_fault_private_copy:
  fixes s :: "'a file_state_scheme" and p :: nat
  defines "pg \<equiv> ppgdir (ptable s p)"
  assumes "pgdir_wf s pg (v # xs)" and "pte_of s pg va AND PTE_P \<noteq> 0" and "pte_of s pg va AND PTE_COW \<noteq> 0"
    and "kpage s u" and "u = P2V (PTE_ADDR (pte_of s pg va))" and "u \<notin> owned s pg" and "u \<noteq> v" and "1 < ref_count s u"
  shows "\<exists>t. page_fault p va s = Inr (PfReturn, t) \<and> pgdir_wf t pg xs
    \<and> pte_of t pg = (\<lambda>a. if PGROUNDDOWN a = PGROUNDDOWN va then V2P v OR private_flags (pte_of s pg va) else pte_of s pg a)
    \<and> (\<forall>k. unat k < 4096 \<longrightarrow> mem t (v + k) = mem s (u + k))
    \<and> (\<forall>x. PGROUNDDOWN x \<notin> insert v (owned s pg) \<longrightarrow> mem t x = mem s x)
    \<and> ref_count t u = ref_count s u - 1 \<and> ref_count t v = 1
    \<and> (\<forall>w. page_aligned w \<and> w \<noteq> u \<and> w \<noteq> v \<longrightarrow> ref_count t w = ref_count s w)"
proof -
  note wf = assms(2) and u = assms(5-8)
  obtain tb where tb: "table_of s pg va = Some tb"
    using assms(3) by (auto simp: pte_of_def split: option.splits)
  let ?e = "tb + 4 * PTX va" and ?old = "pte_of s pg va" and ?s1 = "snd (kalloc s)"
  define t where "t = ?s1\<lparr>mem := cow_mem v u ?e ?old (mem s), cr3 := V2P pg,
      ref_counts := (ref_counts ?s1)(PTE_ADDR ?old div PGSIZE := ref_count s u - 1)\<rparr>"
  have "page_fault p va s = cow_fault p va ?e s"
    using assms(3,4) tb table_slot_nonzero [OF wf tb, of va]
    by (simp add: page_fault_def Let_def walkpgdir_present [OF tb] pte_of_def flip: pg_def)
  then have "page_fault p va s = Inr (PfReturn, t)"
    using cow_fault_eq [OF wf [unfolded pg_def] tb [unfolded pg_def]] u assms(9) by (simp add: t_def flip: pg_def)
  moreover note cow_mem_spec [OF wf tb u(1,3,4), of t ?old]
  moreover have "mem t = cow_mem v u ?e ?old (mem s)" "freelist t = freelist ?s1" "kern_end t = kern_end s"
    by (simp_all add: t_def)
  moreover have "ref_count t u = ref_count s u - 1" "ref_count t v = 1"
    "\<And>w. page_aligned w \<Longrightarrow> w \<noteq> u \<Longrightarrow> w \<noteq> v \<Longrightarrow> ref_count t w = ref_count s w"
  proof -
    have v: "fst (kalloc s) = v" "ref_count ?s1 v = 1"
      using kalloc_some [OF pgdir_wf_free [OF wf]] by simp_all
    have al: "page_aligned u" "page_aligned v"
      using u(1) pgdir_wf_free [OF wf] by (auto simp: kpage_def free_inv_def)
    have pa: "PTE_ADDR ?old div PGSIZE = V2P u div PGSIZE"
      using arg_cong [OF u(2), of V2P] by (simp only: V2P_P2V)
    have t: "ref_count t w = (if w = u then ref_count s u - 1 else ref_count ?s1 w)" if "page_aligned w" for w
    proof -
      have "V2P w div PGSIZE = V2P u div PGSIZE \<longleftrightarrow> w = u"
        using kpage_div_inj [OF that al(1)] by auto
      then show ?thesis
        unfolding t_def ref_count_def pa by simp
    qed
    show "ref_count t u = ref_count s u - 1" "ref_count t v = 1"
      using t al v(2) u(4) by simp_all
    show "ref_count t w = ref_count s w" if "page_aligned w" "w \<noteq> u" "w \<noteq> v" for w
      using t that kalloc_ref_other [OF that(1) pgdir_wf_free [OF wf]] v(1) by simp
  qed
  ultimately show ?thesis
    by blast
qed

text \<open>A process whose first page is shared copy-on-write with another one.\<close>

lemma pgdir_transfer:
  fixes s :: "'a kmem_state_scheme" and t :: "'b kmem_state_scheme"
  assumes "mem t = mem s" and "freelist t = freelist s" and "kern_end t = kern_end s"
  shows "pgdir_wf t pg xs \<longleftrightarrow> pgdir_wf s pg xs" and "pte_of t pg = pte_of s pg" and "owned t pg = owned s pg"
proof -
  have tab: "table_of t = table_of s" and kp: "kpage t = kpage s"
    by (simp_all add: fun_eq_iff table_of_def pde_of_def kpage_def assms)
  show "pte_of t pg = pte_of s pg" "owned t pg = owned s pg"
    by (auto simp: fun_eq_iff pte_of_def owned_def tab assms(1) split: option.split)
  then show "pgdir_wf t pg xs \<longleftrightarrow> pgdir_wf s pg xs"
    by (simp add: pgdir_wf_def free_inv_def distinct_tables_def tab kp assms)
qed

definition shared_page :: file_state where
  "shared_page = machine\<lparr>mem := store32 0x80401000 0x00402205 (mem cow_state), freelist := freelist cow_state,
     ref_counts := (\<lambda>_. 2), kern_end := kern_end cow_state, ptable := (\<lambda>_. free_proc\<lparr>ppgdir := 0x80400000\<rparr>)\<rparr>"

lemma shared_page_wf:
  "pgdir_wf shared_page 0x80400000 (0x80404000 # pages 0x80405000 2999)"
  "pte_of shared_page 0x80400000 0x123 = 0x00402205"
  "0x80402000 \<notin> owned shared_page 0x80400000"
proof -
  let ?s = "cow_state\<lparr>mem := store32 (0x80401000 + 4 * PTX 0x123) 0x00402205 (mem cow_state)\<rparr>"
  have e: "0x80401000 + 4 * PTX 0x123 = (0x80401000 :: addr)"
    by (simp add: PTX_def)
  have "table_of cow_state 0x80400000 0x123 = Some 0x80401000"
    by (simp add: cow_table PDX_def)
  note st = store_pte [OF cow_wf this, of "0x00402205"]
  have tr: "mem shared_page = mem ?s" "freelist shared_page = freelist ?s" "kern_end shared_page = kern_end ?s"
    by (simp_all add: shared_page_def e)
  have "pages 0x80404000 3000 = 0x80404000 # pages 0x80405000 2999"
    using pages_Suc [of "0x80404000" 2999] by simp
  then show "pgdir_wf shared_page 0x80400000 (0x80404000 # pages 0x80405000 2999)"
    using grows_wf [OF st(1)] pgdir_transfer(1) [OF tr] by simp
  show "pte_of shared_page 0x80400000 0x123 = 0x00402205"
    unfolding pgdir_transfer(2) [OF tr] st(2) by simp
  have "owned ?s 0x80400000 = owned cow_state 0x80400000"
    using st(3) by (simp add: owned_def)
  then show "0x80402000 \<notin> owned shared_page 0x80400000"
    unfolding pgdir_transfer(3) [OF tr] by (auto simp: owned_def cow_table)
qed

theorem cow_fault_private_copy_witness:
  "\<exists>t :: file_state. page_fault 1 0x123 shared_page = Inr (PfReturn, t) \<and> pte_of t 0x80400000 0x123 = 0x00404007
    \<and> ref_count t 0x80402000 = 1 \<and> ref_count t 0x80404000 = 1"
proof -
  have pg: "ppgdir (ptable shared_page 1) = 0x80400000"
    by (simp add: shared_page_def)
  note wf = shared_page_wf [folded pg]
  have "PTE_ADDR 0x00402205 = 0x00402000" and flags: "private_flags 0x00402205 = 7"
    by (simp_all add: PTE_ADDR_def private_flags_def PTE_FLAGS_def)
  then have u: "0x80402000 = P2V (PTE_ADDR (pte_of shared_page (ppgdir (ptable shared_page 1)) 0x123))"
    unfolding wf(2) by (simp add: P2V_def)
  have k: "kpage shared_page 0x80402000" and r: "1 < ref_count shared_page 0x80402000" "ref_count shared_page 0x80402000 = 2"
    by (simp_all add: kpage_def shared_page_def ref_count_def V2P_def)
  have "pte_of shared_page (ppgdir (ptable shared_page 1)) 0x123 AND PTE_P \<noteq> 0"
    "pte_of shared_page (ppgdir (ptable shared_page 1)) 0x123 AND PTE_COW \<noteq> 0" "(0x80402000 :: addr) \<noteq> 0x80404000"
    unfolding wf(2) by simp_all
  from cow_fault_private_copy [OF wf(1) this(1,2) k u wf(3) this(3) r(1)] show ?thesis
    unfolding r(2) pg shared_page_wf(2) flags by (elim exE conjE) (auto simp: V2P_def)
qed

section \<open>The handler on a page of a mapping\<close>

lemma fill_wf:
  assumes "pgdir_wf s pg xs" and "page_aligned v" and "v \<notin> owned s pg" and "v \<notin> set xs"
  defines "s' \<equiv> s\<lparr>mem := fill v 4096 0 (mem s)\<rparr>"
  shows "pgdir_wf s' pg xs" and "pte_of s' pg = pte_of s pg" and "owned s' pg = owned s pg"
proof -
  have same: "mem s' x = mem s x" if "PGROUNDDOWN x \<in> owned s pg" for x
  proof -
    have "PGROUNDDOWN x \<noteq> v"
      using that assms(3) by blast
    then show ?thesis
      using assms(2) by (simp add: s'_def fill_def PGROUNDDOWN_eq_iff)
  qed
  show "pte_of s' pg = pte_of s pg" "owned s' pg = owned s pg"
    by (rule pgdir_cong [OF assms(1) same]; assumption)+
  show "pgdir_wf s' pg xs"
    using same assms(1) free_inv_fill [OF pgdir_wf_free [OF assms(1)] assms(2,4), of 0]
    by (intro pgdir_wf_cong [OF assms(1)]) (auto simp: s'_def pgdir_wf_def)
qed

lemma page_fault_lazy:
  fixes s :: "'a file_state_scheme"
  assumes "pgdir_wf s (ppgdir (ptable s p)) xs" and "pte_of s (ppgdir (ptable s p)) va AND PTE_P = 0"
  shows "page_fault p va s = lazy_fault p va s"
proof (cases "table_of s (ppgdir (ptable s p)) va")
  case None
  then show ?thesis
    by (simp add: page_fault_def Let_def walkpgdir_absent)
next
  case (Some tb)
  then have "load32 (mem s) (tb + 4 * PTX va) AND PTE_P = 0"
    using assms(2) by (simp add: pte_of_def)
  then show ?thesis
    by (simp add: page_fault_def Let_def walkpgdir_present [OF Some])
qed

lemma grows_page:
  fixes s t :: "'a ptable_state_scheme"
  assumes "grows pg s xs t xs'" and "page_aligned v" and "v \<noteq> 0" and "v \<notin> owned s pg" and "v \<notin> set xs"
  shows "PGROUNDDOWN x = v \<Longrightarrow> mem t x = mem s x" and "ref_count t v = ref_count s v" and "v \<notin> owned t pg"
    and "ptable t = ptable s" and "kern_end t = kern_end s"
proof -
  have "keeps s t"
    using assms(1) by (simp add: grows_def keeps_def)
  then show "ptable t = ptable s"
    using keeps_ptable by blast
qed (use assms in \<open>auto simp: grows_def\<close>)

lemma upd_proc_kmem [simp]:
  "mem (upd_proc p f s) = mem s" "ref_counts (upd_proc p f s) = ref_counts s" "freelist (upd_proc p f s) = freelist s"
  "kern_end (upd_proc p f s) = kern_end s"
  by (simp_all add: upd_proc_def)

text \<open>
  C34. The first access to a page of an anonymous mapping, with a page \<open>v\<close> left to allocate, ends in one of
  two ways. It returns with the page mapped to \<open>v\<close>, zeroed, writable for the user, one more page of
  the region counted as loaded and no other entry changed; or no page was left for the page table,
  and then \<open>v\<close> is free again, no entry has changed and the process is marked as killed.
\<close>

theorem lazy_fault_anonymous:
  fixes s :: "'a file_state_scheme" and p :: nat
  defines "pg \<equiv> ppgdir (ptable s p)"
  assumes "pgdir_wf s pg (v # xs)" and "pte_of s pg va AND PTE_P = 0"
    and "find_region (ptable s p) va = Some i" and "r_flags (pmmap (ptable s p) i) AND MAP_ANONYMOUS \<noteq> 0"
  shows "\<exists>t. page_fault p va s = Inr (PfReturn, t)
      \<and> pte_of t pg = (\<lambda>a. if PGROUNDDOWN a = PGROUNDDOWN va then V2P v OR (PTE_W OR PTE_U) OR PTE_P else pte_of s pg a)
      \<and> (\<forall>k. unat k < 4096 \<longrightarrow> mem t (v + k) = 0) \<and> ref_count t v = 1
      \<and> r_loaded (pmmap (ptable t p) i) = r_loaded (pmmap (ptable s p) i) + 1
    \<or> page_fault p va s = Inr (PfDefault, t) \<and> pkilled (ptable t p) \<and> pte_of t pg = pte_of s pg \<and> free_inv t [v]"
proof -
  note wf = assms(2)
  define s1 where "s1 = snd (kalloc s)"
  define s2 where "s2 = s1\<lparr>mem := fill v 4096 0 (mem s1)\<rparr>"
  let ?a = "PGROUNDDOWN va"
  have v: "kpage s v" "page_aligned v" "v \<notin> owned s pg" "v \<notin> set xs" "v \<noteq> 0"
    using wf kpage_nonzero by (auto simp: pgdir_wf_def free_inv_def kpage_def)
  have k: "kalloc s = (v, s1)" "ref_count s1 v = 1"
    using kalloc_some [OF pgdir_wf_free [OF wf]] by (simp_all add: prod_eq_iff s1_def)
  have fr: "mem s1 = mem s" "ptable s1 = ptable s"
    using keeps_ptable [OF kalloc_keeps [OF k(1)]] by (simp_all add: s1_def)
  note same = owned_mem [OF fr(1)] pte_of_mem [OF fr(1)]
  have "pgdir_wf s1 pg xs"
    using pgdir_wf_kalloc [OF wf] by (simp add: s1_def)
  note f = fill_wf [OF this v(2), unfolded same, OF v(3,4), folded s2_def]
  have lf: "page_fault p va s = andthen (mappages pg ?a PGSIZE (V2P v) (PTE_W OR PTE_U) s2) (\<lambda>(r, s).
      if r <s 0 then andthen (kfree v s) (\<lambda>s. Inr (PfDefault, set_killed p s))
      else andthen (lazy_file p i ?a v s) (\<lambda>(ok, s).
        if \<not> ok then Inr (PfDefault, s) else Inr (PfReturn, upd_region p i (\<lambda>r. r\<lparr>r_loaded := r_loaded r + 1\<rparr>) s)))"
    unfolding page_fault_lazy [OF wf [unfolded pg_def] assms(3) [unfolded pg_def]]
    using assms(4) v(5) by (simp add: lazy_fault_def Let_def k(1) memset_fill s2_def fr pg_def)
  have "pte_of s2 pg ?a AND PTE_P = 0"
    using f(2) pte_of_page [of ?a va s pg] assms(3) by (simp add: PGROUNDDOWN_aligned)
  from mappages_one [OF f(1) page_aligned_PGROUNDDOWN this, of "V2P v" "PTE_W OR PTE_U"] show ?thesis
  proof (elim disjE exE conjE)
    fix t xs'
    assume m: "mappages pg ?a PGSIZE (V2P v) (PTE_W OR PTE_U) s2 = Inr (0, t)" and g: "grows pg s2 xs t xs'"
      and pte: "pte_of t pg = (\<lambda>va'. if PGROUNDDOWN va' = ?a then V2P v OR (PTE_W OR PTE_U) OR PTE_P else pte_of s2 pg va')"
    note gp = grows_page [OF g v(2,5), unfolded f(3), OF v(3,4)]
    let ?t = "upd_region p i (\<lambda>r. r\<lparr>r_loaded := r_loaded r + 1\<rparr>) t"
    have pt: "ptable t = ptable s"
      using gp(4) fr(2) by (simp add: s2_def)
    have "page_fault p va s = Inr (PfReturn, ?t)"
      unfolding lf m using assms(5) by (simp add: lazy_file_def pt)
    moreover have "pte_of ?t pg = (\<lambda>a. if PGROUNDDOWN a = ?a then V2P v OR (PTE_W OR PTE_U) OR PTE_P else pte_of s pg a)"
      using pte_of_mem [of ?t t] unfolding f(2) [symmetric] pte [symmetric] by (simp add: upd_region_def)
    moreover have "mem ?t (v + k) = 0" if "unat k < 4096" for k
      using gp(1) [OF PGROUNDDOWN_add [OF v(2) that]] that by (simp add: upd_region_def s2_def fill_def)
    moreover have "ref_count ?t v = 1"
      using gp(2) k(2) by (simp add: upd_region_def ref_count_def s2_def)
    moreover have "r_loaded (pmmap (ptable ?t p) i) = r_loaded (pmmap (ptable s p) i) + 1"
      by (simp add: upd_region_def upd_proc_def pt)
    ultimately show ?thesis
      by blast
  next
    fix t
    assume m: "mappages pg ?a PGSIZE (V2P v) (PTE_W OR PTE_U) s2 = Inr (- 1, t)" and g: "grows pg s2 xs t []"
      and pte: "pte_of t pg = pte_of s2 pg"
    note gp = grows_page [OF g v(2,5), unfolded f(3), OF v(3,4)]
    have kt: "kpage t v" "ref_count t v \<le> 1"
      using v(1) gp(2,5) k(2) by (simp_all add: kpage_def s2_def s1_def ref_count_def)
    then obtain u where u: "kfree v t = Inr u"
      using kfree_private by blast
    have "pte_of (set_killed p u) pg = pte_of t pg"
    proof (rule pgdir_cong(2) [OF grows_wf [OF g]])
      fix x
      assume "PGROUNDDOWN x \<in> owned t pg"
      then have "PGROUNDDOWN x \<noteq> v"
        using gp(3) by blast
      then show "mem (set_killed p u) x = mem t x"
        by (simp add: set_killed_def kfree_mem_other [OF u])
    qed
    moreover have "free_inv (set_killed p u) [v]"
      using kfree_free_inv [OF pgdir_wf_free [OF grows_wf [OF g]] _ kt(2) u] by (simp add: set_killed_def free_inv_def kpage_def)
    moreover have "page_fault p va s = Inr (PfDefault, set_killed p u)"
      unfolding lf m by (simp add: u word_sless_alt)
    moreover have "pkilled (ptable (set_killed p u) p)"
      by (simp add: set_killed_def upd_proc_def)
    ultimately show ?thesis
      unfolding pte f(2) by blast
  qed
qed

definition mapped_page :: file_state where
  "mapped_page = machine\<lparr>mem := mem cow_state, freelist := freelist cow_state, kern_end := kern_end cow_state,
     ptable := (\<lambda>_. free_proc\<lparr>ppgdir := 0x80400000, pmmap := (pmmap free_proc)(2 := \<lparr>r_addr = 0x60000000, r_length = 8192,
       r_flags = 14, r_used = True, r_fd = 0, r_loaded = 0\<rparr>)\<rparr>)\<rparr>"

theorem lazy_fault_anonymous_witness:
  "\<exists>t :: file_state. page_fault 1 0x60001234 mapped_page = Inr (PfReturn, t) \<and> r_loaded (pmmap (ptable t 1) 2) = 1
    \<or> page_fault 1 0x60001234 mapped_page = Inr (PfDefault, t) \<and> free_inv t [0x80404000]"
proof -
  have pg: "ppgdir (ptable mapped_page 1) = 0x80400000"
    by (simp add: mapped_page_def)
  have tr: "mem mapped_page = mem cow_state" "freelist mapped_page = freelist cow_state" "kern_end mapped_page = kern_end cow_state"
    by (simp_all add: mapped_page_def)
  have "pages 0x80404000 3000 = 0x80404000 # pages 0x80405000 2999"
    using pages_Suc [of "0x80404000" 2999] by simp
  then have wf: "pgdir_wf mapped_page 0x80400000 (0x80404000 # pages 0x80405000 2999)"
    using cow_wf pgdir_transfer(1) [OF tr] by simp
  have "PDX 0x60001234 \<noteq> 0"
    by (simp add: PDX_def)
  then have "pte_of mapped_page 0x80400000 0x60001234 AND PTE_P = 0"
    unfolding pgdir_transfer(2) [OF tr] by (simp add: pte_of_def cow_table)
  moreover have "find_region (ptable mapped_page 1) 0x60001234 = Some 2"
    by (simp add: find_region_def mapped_page_def free_proc_def upt_rec)
  moreover have "r_flags (pmmap (ptable mapped_page 1) 2) AND MAP_ANONYMOUS \<noteq> 0" "r_loaded (pmmap (ptable mapped_page 1) 2) = 0"
    by (simp_all add: mapped_page_def)
  ultimately show ?thesis
    using lazy_fault_anonymous [where s = mapped_page and p = 1 and va = "0x60001234" and i = 2, unfolded pg, OF wf] by force
qed

end
