(* ===== verification/Grep.thy ===== *)
theory Grep
  imports Prelude
begin

text \<open>
  The pattern matcher and the line loop of \<^verbatim>\<open>grep.c\<close>. A string is the list of its bytes without the
  final NUL. The matcher is proved equal to the usual meaning of the four operators.
\<close>

section \<open>The matcher\<close>

abbreviation (input) STAR :: u8 where "STAR \<equiv> 0x2a"
abbreviation (input) DOT :: u8 where "DOT \<equiv> 0x2e"
abbreviation (input) DOLLAR :: u8 where "DOLLAR \<equiv> 0x24"
abbreviation (input) CARET :: u8 where "CARET \<equiv> 0x5e"

function matchhere :: "u8 list \<Rightarrow> u8 list \<Rightarrow> bool"
  and matchstar :: "u8 \<Rightarrow> u8 list \<Rightarrow> u8 list \<Rightarrow> bool" where
  "matchhere re str =
     (case re of
        [] \<Rightarrow> True
      | c # re' \<Rightarrow>
          if re' \<noteq> [] \<and> hd re' = STAR then matchstar c (tl re') str
          else if c = DOLLAR \<and> re' = [] then str = []
          else if str \<noteq> [] \<and> (c = DOT \<or> c = hd str) then matchhere re' (tl str)
          else False)"
| "matchstar c re str =
     (if matchhere re str then True
      else if str \<noteq> [] \<and> (hd str = c \<or> c = DOT) then matchstar c re (tl str)
      else False)"
  by pat_completeness auto
termination
  by (relation "measures [\<lambda>x. case x of Inl (re, str) \<Rightarrow> 2 * length re | Inr (c, re, str) \<Rightarrow> 2 * length re + 1,
      \<lambda>x. case x of Inl (re, str) \<Rightarrow> length str | Inr (c, re, str) \<Rightarrow> length str]") auto

declare matchhere.simps [simp del] matchstar.simps [simp del]

primrec match_from :: "u8 list \<Rightarrow> u8 list \<Rightarrow> bool" where
  "match_from re [] = matchhere re []"
| "match_from re (x # str) = (if matchhere re (x # str) then True else match_from re str)"

definition match :: "u8 list \<Rightarrow> u8 list \<Rightarrow> bool" where
  "match re str = (if re \<noteq> [] \<and> hd re = CARET then matchhere (tl re) str else match_from re str)"

section \<open>Lines\<close>

text \<open>
  \<^verbatim>\<open>strchr\<close> of \<^verbatim>\<open>ulib.c\<close> gives the position of the character; it does not look past a NUL byte.
\<close>

primrec strchr :: "u8 list \<Rightarrow> u8 \<Rightarrow> nat option" where
  "strchr [] c = None"
| "strchr (x # s) c = (if x = 0 then None else if x = c then Some 0 else map_option Suc (strchr s c))"

lemma strchr_less: "strchr s c = Some q \<Longrightarrow> q < length s"
  by (induction s arbitrary: q) (auto split: if_splits)

text \<open>The inner loop: the lines it writes, and what is left from \<open>p\<close> on.\<close>

function grep_lines :: "u8 list \<Rightarrow> u8 list \<Rightarrow> u8 list list \<times> u8 list" where
  "grep_lines pattern p =
     (case strchr p 10 of
        None \<Rightarrow> ([], p)
      | Some q \<Rightarrow>
          let (out, rest) = grep_lines pattern (drop (q + 1) p)
          in (if match pattern (take q p) then take (q + 1) p # out else out, rest))"
  by pat_completeness auto
termination
  by (relation "measure (\<lambda>(pattern, p). length p)") (auto dest: strchr_less)

declare grep_lines.simps [simp del]

text \<open>
  The outer loop over the results of \<^verbatim>\<open>read\<close>, with \<open>kept\<close> the \<^verbatim>\<open>m\<close> bytes in \<^verbatim>\<open>buf\<close>. It ends when a read returns
  nothing; a read never returns more than \<open>1023 - m\<close> bytes.
\<close>

definition grep_pass :: "u8 list \<Rightarrow> u8 list \<Rightarrow> u8 list \<Rightarrow> u8 list list \<times> u8 list" where
  "grep_pass pattern kept got =
     (let buf = kept @ got;
          (out, p) = grep_lines pattern buf
      in (out, if length p = length buf then [] else p))"

primrec grep :: "u8 list \<Rightarrow> u8 list \<Rightarrow> u8 list list \<Rightarrow> u8 list list" where
  "grep pattern kept [] = []"
| "grep pattern kept (got # reads) =
     (if got = [] then []
      else let (out, kept) = grep_pass pattern kept got in out @ grep pattern kept reads)"

section \<open>The meaning of a pattern\<close>

text \<open>A pattern is a sequence of single and starred characters, possibly tied to the end of the line.\<close>

datatype item = One u8 | Many u8

fun items :: "u8 list \<Rightarrow> item list \<times> bool" where
  "items [] = ([], False)"
| "items [c] = (if c = DOLLAR then ([], True) else ([One c], False))"
| "items (c # d # re) =
     (if d = STAR then (let (is, e) = items re in (Many c # is, e))
      else (let (is, e) = items (d # re) in (One c # is, e)))"

definition accepts :: "u8 \<Rightarrow> u8 \<Rightarrow> bool" where
  "accepts c x \<longleftrightarrow> c = DOT \<or> c = x"

fun item_lang :: "item \<Rightarrow> u8 list set" where
  "item_lang (One c) = {[x] |x. accepts c x}"
| "item_lang (Many c) = {xs. \<forall>x \<in> set xs. accepts c x}"

primrec lang :: "item list \<Rightarrow> u8 list set" where
  "lang [] = {[]}"
| "lang (i # is) = {u @ v |u v. u \<in> item_lang i \<and> v \<in> lang is}"

text \<open>The str starts with a word of the pattern, and ends with it if the pattern is tied to the end.\<close>

definition starts :: "item list \<times> bool \<Rightarrow> u8 list \<Rightarrow> bool" where
  "starts p str \<longleftrightarrow> (\<exists>u v. str = u @ v \<and> u \<in> lang (fst p) \<and> (snd p \<longrightarrow> v = []))"

lemma startsI: "u \<in> lang is \<Longrightarrow> (e \<Longrightarrow> v = []) \<Longrightarrow> starts (is, e) (u @ v)"
  unfolding starts_def fst_conv snd_conv by blast

lemma startsE:
  assumes "starts (is, e) str"
  obtains u v where "str = u @ v" "u \<in> lang is" "e \<longrightarrow> v = []"
  using assms unfolding starts_def fst_conv snd_conv by blast

lemma lang_One: "u \<in> lang (One c # is) \<longleftrightarrow> (\<exists>x w. u = x # w \<and> accepts c x \<and> w \<in> lang is)"
  by (auto intro: exI [of _ "[_]"])

lemma lang_Many: "u \<in> lang (Many c # is) \<longleftrightarrow> (\<exists>xs w. u = xs @ w \<and> (\<forall>x \<in> set xs. accepts c x) \<and> w \<in> lang is)"
  by auto

lemma starts_One: "starts (One c # is, e) str \<longleftrightarrow> (\<exists>x r. str = x # r \<and> accepts c x \<and> starts (is, e) r)"
proof
  assume "starts (One c # is, e) str"
  then obtain u v where s: "str = u @ v" "u \<in> lang (One c # is)" "e \<longrightarrow> v = []"
    by (rule startsE)
  then obtain x w where "u = x # w" "accepts c x" "w \<in> lang is"
    unfolding lang_One by blast
  then show "\<exists>x r. str = x # r \<and> accepts c x \<and> starts (is, e) r"
    using s startsI [of w "is" e v] by simp
next
  assume "\<exists>x r. str = x # r \<and> accepts c x \<and> starts (is, e) r"
  then obtain x r where s: "str = x # r" "accepts c x" "starts (is, e) r"
    by blast
  from s(3) obtain u v where r: "r = u @ v" "u \<in> lang is" "e \<longrightarrow> v = []"
    by (rule startsE)
  then have "x # u \<in> lang (One c # is)"
    unfolding lang_One using s(2) by blast
  then show "starts (One c # is, e) str"
    using startsI [of "x # u" "One c # is" e v] s r by simp
qed

lemma starts_Many:
  "starts (Many c # is, e) str \<longleftrightarrow> starts (is, e) str \<or> (\<exists>x r. str = x # r \<and> accepts c x \<and> starts (Many c # is, e) r)"
  (is "?l \<longleftrightarrow> ?r")
proof
  assume ?l
  then obtain u v where s: "str = u @ v" "u \<in> lang (Many c # is)" "e \<longrightarrow> v = []"
    by (rule startsE)
  then obtain xs w where u: "u = xs @ w" "\<forall>x \<in> set xs. accepts c x" "w \<in> lang is"
    unfolding lang_Many by blast
  show ?r
  proof (cases xs)
    case Nil
    then show ?thesis
      using s u startsI [of w "is" e v] by simp
  next
    case (Cons x r)
    then have "r @ w \<in> lang (Many c # is)"
      unfolding lang_Many using u by auto
    then show ?thesis
      using s u Cons startsI [of "r @ w" "Many c # is" e v] by simp
  qed
next
  assume ?r
  then consider "starts (is, e) str" | x r where "str = x # r" "accepts c x" "starts (Many c # is, e) r"
    by blast
  then show ?l
  proof cases
    case 1
    then obtain u v where s: "str = u @ v" "u \<in> lang is" "e \<longrightarrow> v = []"
      by (rule startsE)
    then have "[] @ u \<in> lang (Many c # is)"
      unfolding lang_Many by (intro exI [of _ "[]"] exI [of _ u]) simp
    then show ?thesis
      using s startsI [of u "Many c # is" e v] by simp
  next
    case (2 x r)
    from 2(3) obtain u v where r: "r = u @ v" "u \<in> lang (Many c # is)" "e \<longrightarrow> v = []"
      by (rule startsE)
    then obtain xs w where u: "u = xs @ w" "\<forall>x \<in> set xs. accepts c x" "w \<in> lang is"
      unfolding lang_Many by blast
    then have "x # u \<in> lang (Many c # is)"
      unfolding lang_Many using 2(2) by (intro exI [of _ "x # xs"] exI [of _ w]) simp
    then show ?thesis
      using 2(1) r startsI [of "x # u" "Many c # is" e v] by simp
  qed
qed

lemma items_star: "re \<noteq> [] \<Longrightarrow> hd re = STAR \<Longrightarrow> items (c # re) = (Many c # fst (items (tl re)), snd (items (tl re)))"
  by (cases re) (auto simp: split_def Let_def)

lemma items_one:
  "re = [] \<or> hd re \<noteq> STAR \<Longrightarrow> \<not> (c = DOLLAR \<and> re = []) \<Longrightarrow> items (c # re) = (One c # fst (items re), snd (items re))"
  by (cases re) (auto simp: split_def Let_def)

lemma starts_Nil: "starts ([], e) str \<longleftrightarrow> e \<longrightarrow> str = []"
  by (simp add: starts_def)

lemma matchhere_starts: "matchhere re str \<longleftrightarrow> starts (items re) str"
  and matchstar_starts: "matchstar c re str \<longleftrightarrow> starts (Many c # fst (items re), snd (items re)) str"
proof (induction re str and c re str rule: matchhere_matchstar.induct)
  case (1 re str)
  show ?case
  proof (cases re)
    case Nil
    then show ?thesis
      by (simp add: matchhere.simps starts_Nil)
  next
    case (Cons c re')
    consider "re' \<noteq> [] \<and> hd re' = STAR" | "\<not> (re' \<noteq> [] \<and> hd re' = STAR)" "c = DOLLAR \<and> re' = []"
      | "\<not> (re' \<noteq> [] \<and> hd re' = STAR)" "\<not> (c = DOLLAR \<and> re' = [])"
      by blast
    then show ?thesis
    proof cases
      case 1
      then show ?thesis
        using "1.IH"(1) [OF Cons] Cons by (subst matchhere.simps) (simp add: items_star)
    next
      case 2
      then show ?thesis
        using Cons by (subst matchhere.simps) (simp add: starts_Nil)
    next
      case 3
      have "matchhere re str \<longleftrightarrow> str \<noteq> [] \<and> (c = DOT \<or> c = hd str) \<and> matchhere re' (tl str)"
        using 3 Cons by (subst matchhere.simps) auto
      also have "\<dots> \<longleftrightarrow> starts (One c # fst (items re'), snd (items re')) str"
        using "1.IH"(2) [OF Cons] 3 by (cases str) (auto simp: starts_One accepts_def)
      finally show ?thesis
        using 3 Cons items_one [of re' c] by auto
    qed
  qed
next
  case (2 c re str)
  have "matchstar c re str \<longleftrightarrow> starts (items re) str
      \<or> str \<noteq> [] \<and> accepts c (hd str) \<and> starts (Many c # fst (items re), snd (items re)) (tl str)"
    using 2 by (subst matchstar.simps) (auto simp: accepts_def)
  also have "\<dots> \<longleftrightarrow> starts (Many c # fst (items re), snd (items re)) str"
    by (subst (2) starts_Many) (cases str; auto)
  finally show ?case .
qed

lemma match_from_starts: "match_from re str \<longleftrightarrow> (\<exists>u v. str = u @ v \<and> starts (items re) v)"
proof (induction str)
  case (Cons x str)
  have "(\<exists>u v. x # str = u @ v \<and> starts (items re) v) \<longleftrightarrow>
      starts (items re) (x # str) \<or> (\<exists>u v. str = u @ v \<and> starts (items re) v)"
    by (auto simp: Cons_eq_append_conv)
  then show ?case
    using Cons by (simp add: matchhere_starts)
qed (simp add: matchhere_starts)

section \<open>Properties\<close>

definition pattern_of :: "u8 list \<Rightarrow> bool \<times> item list \<times> bool" where
  "pattern_of re = (if re \<noteq> [] \<and> hd re = CARET then (True, items (tl re)) else (False, items re))"

text \<open>
  C35. The recursive matcher of \<^verbatim>\<open>grep\<close> decides the meaning of its patterns: a line matches exactly when it
  contains, at its start if the pattern begins with \<^verbatim>\<open>^\<close> and up to its end if it finishes with \<^verbatim>\<open>$\<close>, a word
  of the language of the pattern's items, where \<^verbatim>\<open>.\<close> stands for any character and \<^verbatim>\<open>*\<close> repeats the
  character before it.
\<close>

theorem match_decides:
  assumes "pattern_of re = (front, is, back)"
  shows "match re str \<longleftrightarrow>
    (\<exists>u v w. str = u @ v @ w \<and> v \<in> lang is \<and> (front \<longrightarrow> u = []) \<and> (back \<longrightarrow> w = []))"
proof -
  have s: "starts (is, back) r \<longleftrightarrow> (\<exists>v w. r = v @ w \<and> v \<in> lang is \<and> (back \<longrightarrow> w = []))" for r
    by (simp add: starts_def)
  show ?thesis
  proof (cases front)
    case True
    then have "match re str \<longleftrightarrow> starts (is, back) str"
      using assms by (auto simp: pattern_of_def match_def matchhere_starts split: if_splits)
    then show ?thesis
      using True unfolding s by auto
  next
    case False
    then have "\<not> (re \<noteq> [] \<and> hd re = CARET)" "items re = (is, back)"
      using assms by (auto simp: pattern_of_def split: if_splits)
    then have "match re str \<longleftrightarrow> (\<exists>u r. str = u @ r \<and> starts (is, back) r)"
      by (simp only: match_def match_from_starts if_False)
    then show ?thesis
      using False unfolding s by auto
  qed
qed

text \<open>The pattern \<^verbatim>\<open>^a.*c$\<close> on the lines \<^verbatim>\<open>abbc\<close> and \<^verbatim>\<open>abcb\<close>.\<close>

theorem match_decides_witness:
  "match [0x5e, 0x61, 0x2e, 0x2a, 0x63, 0x24] [0x61, 0x62, 0x62, 0x63]
    \<and> \<not> match [0x5e, 0x61, 0x2e, 0x2a, 0x63, 0x24] [0x61, 0x62, 0x63, 0x62]
    \<and> (\<exists>u v w. [0x61, 0x62, 0x62, 0x63] = u @ v @ w \<and> v \<in> lang [One 0x61, Many 0x2e, One 0x63] \<and> u = [] \<and> w = [])"
proof -
  have p: "pattern_of [0x5e, 0x61, 0x2e, 0x2a, 0x63, 0x24] = (True, [One 0x61, Many 0x2e, One 0x63], True)"
    by (simp add: pattern_of_def)
  have "match [0x5e, 0x61, 0x2e, 0x2a, 0x63, 0x24] [0x61, 0x62, 0x62, 0x63]"
    "\<not> match [0x5e, 0x61, 0x2e, 0x2a, 0x63, 0x24] [0x61, 0x62, 0x63, 0x62]"
    by code_simp+
  then show ?thesis
    using match_decides [OF p, of "[0x61, 0x62, 0x62, 0x63]"] by simp
qed

text \<open>A read that ends before the first newline is forgotten.\<close>

lemma strchr_None: "10 \<notin> set s \<Longrightarrow> strchr s 10 = None"
  by (induction s) auto

lemma grep_drops_partial_line:
  assumes "10 \<notin> set got" and "got \<noteq> []"
  shows "grep pattern [] (got # reads) = grep pattern [] reads"
  using assms by (simp add: grep_pass_def grep_lines.simps [of pattern got] strchr_None)

end
