(* ===== verification/Sh.thy ===== *)
theory Sh
  imports Grep
begin

text \<open>
  The command parser of the shell, \<^verbatim>\<open>sh.c\<close>. The pointer \<^verbatim>\<open>*ps\<close> is the rest of the line, which is empty at
  \<^verbatim>\<open>es\<close>; a word of a command is the text from \<^verbatim>\<open>q\<close> to \<^verbatim>\<open>eq\<close>, which \<^verbatim>\<open>nulterminate\<close> turns into a string. A call
  of the shell's \<^verbatim>\<open>panic\<close> stops the parser.
\<close>

section \<open>Commands\<close>

datatype cmd =
    EXEC "u8 list list"
  | REDIR cmd "u8 list" u32 u32
  | PIPE cmd cmd
  | LIST cmd cmd
  | BACK cmd

abbreviation (input) MAXARGS :: nat where "MAXARGS \<equiv> 10"

section \<open>Tokens\<close>

definition whitespace :: "u8 list" where
  "whitespace = [0x20, 0x09, 0x0d, 0x0a, 0x0b]"

definition symbols :: "u8 list" where
  "symbols = [0x3c, 0x7c, 0x3e, 0x26, 0x3b, 0x28, 0x29]"

definition skip_space :: "u8 list \<Rightarrow> u8 list" where
  "skip_space s = dropWhile (\<lambda>c. strchr whitespace c \<noteq> None) s"

text \<open>\<^verbatim>\<open>*s\<close>, which is NUL at the end of the line.\<close>

definition here :: "u8 list \<Rightarrow> u8" where
  "here s = (if s = [] then 0 else hd s)"

definition word_char :: "u8 \<Rightarrow> bool" where
  "word_char c \<longleftrightarrow> strchr whitespace c = None \<and> strchr symbols c = None"

text \<open>The token's code, the text from \<^verbatim>\<open>q\<close> to \<^verbatim>\<open>eq\<close>, and the new \<^verbatim>\<open>*ps\<close>.\<close>

definition gettoken :: "u8 list \<Rightarrow> u8 \<times> u8 list \<times> u8 list" where
  "gettoken s =
     (let q = skip_space s;
          c = here q
      in if c = 0 then (0, [], skip_space q)
         else if c = 0x7c \<or> c = 0x28 \<or> c = 0x29 \<or> c = 0x3b \<or> c = 0x26 \<or> c = 0x3c
           then (c, take 1 q, skip_space (tl q))
         else if c = 0x3e then
           (if here (tl q) = 0x3e then (0x2b, take 2 q, skip_space (tl (tl q))) else (c, take 1 q, skip_space (tl q)))
         else (0x61, takeWhile word_char q, skip_space (dropWhile word_char q)))"

definition peek :: "u8 list \<Rightarrow> u8 list \<Rightarrow> bool \<times> u8 list" where
  "peek s toks = (let s = skip_space s in (here s \<noteq> 0 \<and> strchr toks (here s) \<noteq> None, s))"

text \<open>A line holds no NUL byte: the parser works on the text before the first one.\<close>

lemma skip_space_length: "length (skip_space s) \<le> length s"
  by (simp add: skip_space_def length_dropWhile_le)

lemma skip_skip [simp]: "skip_space (skip_space s) = skip_space s"
  by (simp add: skip_space_def)

lemma here_skip: "here (skip_space s) \<noteq> 0 \<Longrightarrow> skip_space s \<noteq> []"
  by (auto simp: here_def)

lemma gettoken_shorter:
  assumes "here (skip_space s) \<noteq> 0"
  shows "length (snd (snd (gettoken s))) < length (skip_space s)"
proof -
  obtain x q where q: "skip_space s = x # q"
    using here_skip [OF assms] by (cases "skip_space s") auto
  have ws: "strchr whitespace x = None"
    using q hd_dropWhile [of "\<lambda>c. strchr whitespace c \<noteq> None" s] by (auto simp: skip_space_def)
  have less: "length (skip_space r) < length (x # q)" if "length r \<le> length q" for r
    using that skip_space_length [of r] by simp
  have "length (dropWhile word_char (x # q)) \<le> length q" if "word_char x"
    using that length_dropWhile_le [of word_char q] by simp
  moreover have "word_char x" if "\<not> (x = 0x7c \<or> x = 0x28 \<or> x = 0x29 \<or> x = 0x3b \<or> x = 0x26 \<or> x = 0x3c)" "x \<noteq> 0x3e"
    using that ws by (auto simp: word_char_def symbols_def)
  moreover have "length (tl q) \<le> length q"
    by simp
  ultimately show ?thesis
    using assms less [of q] less [of "tl q"] less [of "dropWhile word_char (x # q)"]
    unfolding gettoken_def Let_def q by (auto simp: here_def)
qed

lemma gettoken_length: "length (snd (snd (gettoken s))) \<le> length (skip_space s)"
proof (cases "here (skip_space s) = 0")
  case True
  then show ?thesis
    by (simp add: gettoken_def Let_def)
qed (use gettoken_shorter [of s] in simp)

lemma gettoken_nonzero: "gettoken s = (tok, q, t) \<Longrightarrow> tok \<noteq> 0 \<Longrightarrow> length t < length s"
  using gettoken_shorter [of s] skip_space_length [of s] by (cases "here (skip_space s) = 0") (auto simp: gettoken_def Let_def)

lemma peek_length: "peek s toks = (b, s') \<Longrightarrow> length s' \<le> length s \<and> (b \<longrightarrow> here (skip_space s') \<noteq> 0) \<and> skip_space s' = s'"
  using skip_space_length [of s] by (auto simp: peek_def Let_def)

section \<open>The parser\<close>

abbreviation (input) O_READ :: u32 where "O_READ \<equiv> 0"
abbreviation (input) O_WRITE_CREATE :: u32 where "O_WRITE_CREATE \<equiv> 0x201"

text \<open>
  The redirections are collected in a list and wrapped around the command afterwards, because
  \<^verbatim>\<open>parseexec\<close> goes on to fill the argument list of the command inside.
\<close>

type_synonym redir = "u8 list \<times> u32 \<times> u32"

definition redircmds :: "cmd \<Rightarrow> redir list \<Rightarrow> cmd" where
  "redircmds c rs = foldl (\<lambda>c (file, mode, fd). REDIR c file mode fd) c rs"

function parseredirs :: "u8 list \<Rightarrow> (redir list \<times> u8 list) result" where
  "parseredirs s =
     (let (b, s) = peek s [0x3c, 0x3e]
      in if b then
           let (tok, _, s) = gettoken s;
               (w, file, s) = gettoken s
           in if w \<noteq> 0x61 then Inl (Panic ''missing file for redirection'')
              else andthen (parseredirs s) (\<lambda>(rs, s).
                Inr ((if tok = 0x3c then (file, O_READ, 0) else (file, O_WRITE_CREATE, 1)) # rs, s))
         else Inr ([], s))"
  by pat_completeness auto
termination
proof (relation "measure length", goal_cases)
  case (2 s x b s1 y tok z q s2 u w v fl s3)
  then have e: "peek s [0x3c, 0x3e] = (b, s1)" "gettoken s1 = (tok, q, s2)" "gettoken s2 = (w, fl, s3)" b
    by auto
  have "length s3 \<le> length s2"
    using e(3) gettoken_length [of s2] skip_space_length [of s2] by simp
  also have "length s2 < length s1"
    using e(2,4) peek_length [OF e(1)] gettoken_shorter [of s1] by auto
  also have "\<dots> \<le> length s"
    using peek_length [OF e(1)] by simp
  finally show ?case
    by simp
qed simp

declare parseredirs.simps [simp del]

text \<open>A parser that ends, with at most \<open>k\<close> characters left.\<close>

definition stays :: "nat \<Rightarrow> ('b \<times> u8 list) result \<Rightarrow> bool" where
  "stays k m \<longleftrightarrow> (case m of Inl e \<Rightarrow> e \<noteq> Diverges | Inr (x, t) \<Rightarrow> length t \<le> k)"

lemma stays_simps [simp]: "stays k (Inl e) \<longleftrightarrow> e \<noteq> Diverges" "stays k (Inr (x, t)) \<longleftrightarrow> length t \<le> k"
  by (simp_all add: stays_def)

lemma stays_andthen: "stays k m \<Longrightarrow> (\<And>x t. length t \<le> k \<Longrightarrow> stays j (f (x, t))) \<Longrightarrow> stays j (andthen m f)"
  by (cases m) (auto simp: stays_def)

lemma stays_mono: "stays k m \<Longrightarrow> k \<le> j \<Longrightarrow> stays j m"
  by (auto simp: stays_def split: sum.splits)

lemma parseredirs_stays: "stays (length s) (parseredirs s)"
proof (induction s rule: parseredirs.induct)
  case (1 s)
  obtain b s1 where p: "peek s [0x3c, 0x3e] = (b, s1)"
    by (cases "peek s [0x3c, 0x3e]")
  obtain tok q s2 where g: "gettoken s1 = (tok, q, s2)"
    by (cases "gettoken s1") auto
  obtain w fl s3 where h: "gettoken s2 = (w, fl, s3)"
    by (cases "gettoken s2") auto
  have le: "length s1 \<le> length s" "length s3 \<le> length s"
    using peek_length [OF p] g h gettoken_length [of s1] gettoken_length [of s2] skip_space_length [of s2] skip_space_length [of s1]
    by auto
  have "stays (length s3) (parseredirs s3)" if b "w = 0x61"
    using "1.IH" [OF p [symmetric] refl that(1) g [symmetric] refl _ h [symmetric]] that(2) by simp
  then show ?case
    using p g h le by (subst parseredirs.simps) (auto intro: stays_andthen)
qed

lemma parseredirs_length: "parseredirs s = Inr (rs, t) \<Longrightarrow> length t \<le> length s"
  using parseredirs_stays [of s] by simp

text \<open>The loop over the arguments.\<close>

function parse_args :: "u8 list list \<Rightarrow> redir list \<Rightarrow> u8 list \<Rightarrow> (u8 list list \<times> redir list \<times> u8 list) result" where
  "parse_args argv rs s =
     (let (b, s) = peek s [0x7c, 0x29, 0x26, 0x3b]
      in if \<not> b then
           let (tok, q, s') = gettoken s
           in if tok = 0 then Inr (argv, rs, s')
              else if tok \<noteq> 0x61 then Inl (Panic ''syntax'')
              else if length (argv @ [q]) \<ge> MAXARGS then Inl (Panic ''too many args'')
              else andthen (parseredirs s') (\<lambda>(rs', s). parse_args (argv @ [q]) (rs @ rs') s)
         else Inr (argv, rs, s))"
  by pat_completeness auto
termination
proof (relation "measure (\<lambda>(argv, rs, s). length s)", goal_cases)
  case (2 argv rs s x b s1 y tok z q s2 u rs' s3)
  then have e: "peek s [0x7c, 0x29, 0x26, 0x3b] = (b, s1)" "gettoken s1 = (tok, q, s2)" "tok \<noteq> 0" "parseredirs s2 = Inr (rs', s3)"
    by auto
  have "length s3 < length s"
    using peek_length [OF e(1)] gettoken_nonzero [OF e(2,3)] parseredirs_length [OF e(4)] by simp
  then show ?case
    by simp
qed simp

declare parse_args.simps [simp del]

function parse_back :: "cmd \<Rightarrow> u8 list \<Rightarrow> cmd \<times> u8 list" where
  "parse_back c s =
     (let (b, s) = peek s [0x26]
      in if b then (let (_, _, s) = gettoken s in parse_back (BACK c) s) else (c, s))"
  by pat_completeness auto
termination
proof (relation "measure (\<lambda>(c, s). length s)", goal_cases)
  case (2 c s x b s1 y z w v s2)
  then have e: "peek s [0x26] = (True, s1)" "gettoken s1 = (z, v, s2)"
    by auto
  have "length s2 < length s"
    using peek_length [OF e(1)] gettoken_shorter [of s1] e(2) by auto
  then show ?case
    by simp
qed simp

declare parse_back.simps [simp del]

fun parseline :: "nat \<Rightarrow> u8 list \<Rightarrow> (cmd \<times> u8 list) result"
  and parsepipe :: "nat \<Rightarrow> u8 list \<Rightarrow> (cmd \<times> u8 list) result"
  and parseblock :: "nat \<Rightarrow> u8 list \<Rightarrow> (cmd \<times> u8 list) result"
  and parseexec :: "nat \<Rightarrow> u8 list \<Rightarrow> (cmd \<times> u8 list) result" where
  "parseline 0 s = Inl Diverges"
| "parseline (Suc n) s =
     andthen (parsepipe n s) (\<lambda>(c, s).
       let (c, s) = parse_back c s;
           (b, s) = peek s [0x3b]
       in if b then
            let (_, _, s) = gettoken s
            in andthen (parseline n s) (\<lambda>(d, s). Inr (LIST c d, s))
          else Inr (c, s))"
| "parsepipe 0 s = Inl Diverges"
| "parsepipe (Suc n) s =
     andthen (parseexec n s) (\<lambda>(c, s).
       let (b, s) = peek s [0x7c]
       in if b then
            let (_, _, s) = gettoken s
            in andthen (parsepipe n s) (\<lambda>(d, s). Inr (PIPE c d, s))
          else Inr (c, s))"
| "parseblock 0 s = Inl Diverges"
| "parseblock (Suc n) s =
     (let (b, s) = peek s [0x28]
      in if \<not> b then Inl (Panic ''parseblock'')
         else
           let (_, _, s) = gettoken s
           in andthen (parseline n s) (\<lambda>(c, s).
                let (b, s) = peek s [0x29]
                in if \<not> b then Inl (Panic ''syntax - missing )'')
                   else
                     let (_, _, s) = gettoken s
                     in andthen (parseredirs s) (\<lambda>(rs, s). Inr (redircmds c rs, s))))"
| "parseexec 0 s = Inl Diverges"
| "parseexec (Suc n) s =
     (let (b, s) = peek s [0x28]
      in if b then parseblock n s
         else
           andthen (parseredirs s) (\<lambda>(rs, s).
           andthen (parse_args [] rs s) (\<lambda>(argv, rs, s).
             Inr (redircmds (EXEC argv) rs, s))))"

text \<open>
  The depth of the calls is at most four per character; \<open>parsecmd_ends\<close> below shows that this is enough.
\<close>

definition parsecmd :: "u8 list \<Rightarrow> cmd result" where
  "parsecmd s =
     andthen (parseline (4 * length s + 4) s) (\<lambda>(c, s).
       let (_, s) = peek s []
       in if s \<noteq> [] then Inl (Panic ''syntax'') else Inr c)"

section \<open>Termination\<close>

definition stays3 :: "nat \<Rightarrow> ('b \<times> 'c \<times> u8 list) result \<Rightarrow> bool" where
  "stays3 k m \<longleftrightarrow> (case m of Inl e \<Rightarrow> e \<noteq> Diverges | Inr (x, y, t) \<Rightarrow> length t \<le> k)"

lemma parse_args_stays: "stays3 (length s) (parse_args argv rs s)"
proof (induction "length s" arbitrary: argv rs s rule: less_induct)
  case less
  obtain b s1 where p: "peek s [0x7c, 0x29, 0x26, 0x3b] = (b, s1)"
    by (cases "peek s [0x7c, 0x29, 0x26, 0x3b]")
  obtain tok q s2 where g: "gettoken s1 = (tok, q, s2)"
    by (cases "gettoken s1") auto
  have le: "length s1 \<le> length s" "length s2 \<le> length s"
    using peek_length [OF p] gettoken_length [of s1] g by auto
  have "stays3 (length s) (andthen (parseredirs s2) (\<lambda>(rs', s). parse_args (argv @ [q]) (rs @ rs') s))" if "tok \<noteq> 0"
  proof (cases "parseredirs s2")
    case (Inr x)
    then obtain rs' s3 where x: "parseredirs s2 = Inr (rs', s3)"
      by (cases x) auto
    have "length s3 < length s"
      using parseredirs_length [OF x] gettoken_nonzero [OF g that] le(1) by simp
    then have "stays3 (length s3) (parse_args (argv @ [q]) (rs @ rs') s3)"
      by (rule less)
    then show ?thesis
      using \<open>length s3 < length s\<close> x by (auto simp: stays3_def split: sum.splits)
  next
    case (Inl e)
    then show ?thesis
      using parseredirs_stays [of s2] by (simp add: stays3_def)
  qed
  then show ?case
    using p g le by (subst parse_args.simps) (auto simp: stays3_def)
qed

lemma parse_back_length: "length (snd (parse_back c s)) \<le> length s"
proof (induction "length s" arbitrary: c s rule: less_induct)
  case less
  obtain b s1 where p: "peek s [0x26] = (b, s1)"
    by (cases "peek s [0x26]")
  obtain tok q s2 where g: "gettoken s1 = (tok, q, s2)"
    by (cases "gettoken s1") auto
  show ?case
  proof (cases b)
    case True
    then have "length s2 < length s"
      using peek_length [OF p] gettoken_shorter [of s1] g by auto
    with less [OF this, of "BACK c"] True p g show ?thesis
      by (subst parse_back.simps) simp
  next
    case False
    then show ?thesis
      using p peek_length [OF p] by (subst parse_back.simps) simp
  qed
qed

lemma stays_tail: "stays k m \<Longrightarrow> k \<le> j \<Longrightarrow> stays j (andthen m (\<lambda>(d, s). Inr (f d, s)))"
  by (cases m) (auto simp: stays_def)

lemma token_shorter: "peek t toks = (True, t2) \<Longrightarrow> gettoken t2 = (tok, q, t3) \<Longrightarrow> length t3 < length t"
  using peek_length [of t toks True t2] gettoken_shorter [of t2] by auto

text \<open>What follows a token of one character in the grammar.\<close>

lemma stays_token:
  assumes "length t \<le> k" and "\<And>u. length u < length t \<Longrightarrow> stays k (f u)"
  shows "stays k (let (b, s) = peek t toks in if b then let (_, _, s) = gettoken s in f s else Inr (c, s))"
proof -
  obtain b t2 where p: "peek t toks = (b, t2)"
    by (cases "peek t toks")
  obtain tok q t3 where g: "gettoken t2 = (tok, q, t3)"
    by (cases "gettoken t2") auto
  have "stays k (f t3)" if b
    using token_shorter [of t toks t2 tok q t3] p g that by (intro assms(2)) simp
  then show ?thesis
    using p g peek_length [OF p] assms(1) by auto
qed

lemma stays_token_or_panic:
  assumes "length t \<le> k" and "\<And>u. length u < length t \<Longrightarrow> stays k (f u)"
  shows "stays k (let (b, s) = peek t toks in if \<not> b then Inl (Panic msg) else let (_, _, s) = gettoken s in f s)"
proof -
  obtain b t2 where p: "peek t toks = (b, t2)"
    by (cases "peek t toks")
  obtain tok q t3 where g: "gettoken t2 = (tok, q, t3)"
    by (cases "gettoken t2") auto
  have "stays k (f t3)" if b
    using token_shorter [of t toks t2 tok q t3] p g that by (intro assms(2)) simp
  then show ?thesis
    using p g by auto
qed

lemma parser_stays:
  "4 * length s + 4 \<le> n \<Longrightarrow> stays (length s) (parseline n s)"
  "4 * length s + 3 \<le> n \<Longrightarrow> stays (length s) (parsepipe n s)"
  "4 * length s + 1 \<le> n \<Longrightarrow> stays (length s) (parseblock n s)"
  "4 * length s + 2 \<le> n \<Longrightarrow> stays (length s) (parseexec n s)"
proof (induction n arbitrary: s)
  case (Suc n)
  have line: "stays (length s) (andthen (parseline n u) (\<lambda>(d, s). Inr (f d, s)))"
    if "length u < length s" "4 * length s \<le> n" for u s :: "u8 list" and f :: "cmd \<Rightarrow> cmd"
    using that by (intro stays_tail [OF Suc.IH(1)]) simp_all
  {
    case 1
    have "stays (length s) (parsepipe n s)"
      using 1 by (intro Suc.IH(2)) simp
    then show ?case
      unfolding parseline.simps
    proof (rule stays_andthen)
      fix c :: cmd and t :: "u8 list"
      assume t: "length t \<le> length s"
      obtain c' t1 where b: "parse_back c t = (c', t1)"
        by (cases "parse_back c t")
      have t1: "length t1 \<le> length s"
        using parse_back_length [of c t] b t by simp
      then have "stays (length s) (andthen (parseline n u) (\<lambda>(d, s). Inr (LIST c' d, s)))" if "length u < length t1" for u
        using that 1 by (intro line) simp_all
      with t1 show "stays (length s) (case (c, t) of (c, s) \<Rightarrow> let (c, s) = parse_back c s; (b, s) = peek s [0x3b]
          in if b then let (_, _, s) = gettoken s in andthen (parseline n s) (\<lambda>(d, s). Inr (LIST c d, s)) else Inr (c, s))"
        unfolding prod.case b Let_def by (rule stays_token [unfolded Let_def])
    qed
  next
    case 2
    have "stays (length s) (parseexec n s)"
      using 2 by (intro Suc.IH(4)) simp
    then show ?case
      unfolding parsepipe.simps
    proof (rule stays_andthen)
      fix c :: cmd and t :: "u8 list"
      assume t: "length t \<le> length s"
      have "stays (length s) (andthen (parsepipe n u) (\<lambda>(d, s). Inr (PIPE c d, s)))" if "length u < length t" for u
        using that t 2 by (intro stays_tail [OF Suc.IH(2)]) simp_all
      with t show "stays (length s) (case (c, t) of (c, s) \<Rightarrow> let (b, s) = peek s [0x7c]
          in if b then let (_, _, s) = gettoken s in andthen (parsepipe n s) (\<lambda>(d, s). Inr (PIPE c d, s)) else Inr (c, s))"
        unfolding prod.case by (rule stays_token)
    qed
  next
    case 3
    have redirs: "stays (length s) (andthen (parseredirs u) (\<lambda>(rs, s). Inr (redircmds c rs, s)))" if "length u \<le> length s" for u c
      using that by (intro stays_tail [OF parseredirs_stays]) simp
    show ?case
      unfolding parseblock.simps
    proof (rule stays_token_or_panic)
      fix u :: "u8 list"
      assume u: "length u < length s"
      then have "stays (length u) (parseline n u)"
        using 3 by (intro Suc.IH(1)) simp
      then show "stays (length s) (andthen (parseline n u) (\<lambda>(c, s). let (b, s) = peek s [0x29]
          in if \<not> b then Inl (Panic ''syntax - missing )'')
             else let (_, _, s) = gettoken s in andthen (parseredirs s) (\<lambda>(rs, s). Inr (redircmds c rs, s))))"
      proof (rule stays_andthen)
        fix c :: cmd and t :: "u8 list"
        assume t: "length t \<le> length u"
        have "stays (length s) (andthen (parseredirs v) (\<lambda>(rs, s). Inr (redircmds c rs, s)))" if "length v < length t" for v
          using that t u by (intro redirs) simp
        moreover have "length t \<le> length s"
          using t u by simp
        ultimately show "stays (length s) (case (c, t) of (c, s) \<Rightarrow> let (b, s) = peek s [0x29]
            in if \<not> b then Inl (Panic ''syntax - missing )'')
               else let (_, _, s) = gettoken s in andthen (parseredirs s) (\<lambda>(rs, s). Inr (redircmds c rs, s)))"
          unfolding prod.case by (intro stays_token_or_panic) auto
      qed
    qed simp
  next
    case 4
    obtain b s1 where p: "peek s [0x28] = (b, s1)"
      by (cases "peek s [0x28]")
    have le: "length s1 \<le> length s"
      using peek_length [OF p] by simp
    have "stays (length s) (parseblock n s1)"
      using 4 le by (intro stays_mono [OF Suc.IH(3) le]) simp
    moreover have "stays (length s) (andthen (parse_args [] rs t) (\<lambda>(argv, rs, s). Inr (redircmds (EXEC argv) rs, s)))"
      if "length t \<le> length s1" for rs t
      using parse_args_stays [of t "[]" rs] that le by (cases "parse_args [] rs t") (auto simp: stays3_def)
    ultimately show ?case
      using p by (auto intro: stays_andthen [OF parseredirs_stays] simp del: parseblock.simps)
  }
qed simp_all

lemma parsecmd_ends: "parsecmd s \<noteq> Inl Diverges"
  using parser_stays(1) [of s "4 * length s + 4"]
  by (cases "parseline (4 * length s + 4) s") (auto simp: parsecmd_def split: prod.splits)

section \<open>Printing commands\<close>

text \<open>
  The grammar has four levels; a command of a higher level is put in parentheses where one of a lower level is
  expected.
\<close>

primrec level :: "cmd \<Rightarrow> nat" where
  "level (EXEC argv) = 0"
| "level (REDIR c f m d) = 0"
| "level (PIPE a b) = 1"
| "level (BACK c) = 2"
| "level (LIST a b) = 3"

definition wrap :: "nat \<Rightarrow> cmd \<Rightarrow> u8 list \<Rightarrow> u8 list" where
  "wrap k c s = (if level c \<le> k then s else [0x28] @ s @ [0x29])"

definition show_words :: "u8 list list \<Rightarrow> u8 list" where
  "show_words ws = concat (map (\<lambda>w. w @ [0x20]) ws)"

definition show_redirs :: "redir list \<Rightarrow> u8 list" where
  "show_redirs rs = concat (map (\<lambda>(f, m, d). [if d = 0 then 0x3c else 0x3e] @ f @ [0x20]) rs)"

primrec show_cmd :: "cmd \<Rightarrow> u8 list" where
  "show_cmd (EXEC argv) = show_words argv"
| "show_cmd (REDIR c f m d) = wrap 0 c (show_cmd c) @ show_redirs [(f, m, d)]"
| "show_cmd (PIPE a b) = wrap 0 a (show_cmd a) @ [0x7c] @ wrap 1 b (show_cmd b)"
| "show_cmd (BACK c) = wrap 2 c (show_cmd c) @ [0x26]"
| "show_cmd (LIST a b) = wrap 2 a (show_cmd a) @ [0x3b] @ show_cmd b"

text \<open>The commands the shell can hold: words of word characters, at most nine of them, and the two kinds of redirection.\<close>

definition word_ok :: "u8 list \<Rightarrow> bool" where
  "word_ok w \<longleftrightarrow> w \<noteq> [] \<and> list_all (\<lambda>c. word_char c \<and> c \<noteq> 0) w"

definition redir_ok :: "redir \<Rightarrow> bool" where
  "redir_ok r \<longleftrightarrow> (case r of (f, m, d) \<Rightarrow> word_ok f \<and> ((m, d) = (O_READ, 0) \<or> (m, d) = (O_WRITE_CREATE, 1)))"

primrec cmd_ok :: "cmd \<Rightarrow> bool" where
  "cmd_ok (EXEC argv) \<longleftrightarrow> length argv < MAXARGS \<and> list_all word_ok argv"
| "cmd_ok (REDIR c f m d) \<longleftrightarrow> cmd_ok c \<and> redir_ok (f, m, d)"
| "cmd_ok (PIPE a b) \<longleftrightarrow> cmd_ok a \<and> cmd_ok b"
| "cmd_ok (BACK c) \<longleftrightarrow> cmd_ok c"
| "cmd_ok (LIST a b) \<longleftrightarrow> cmd_ok a \<and> cmd_ok b"

section \<open>Reading what was printed\<close>

lemma strchr_iff: "0 \<notin> set s \<Longrightarrow> strchr s c \<noteq> None \<longleftrightarrow> c \<in> set s"
  by (induction s) auto

lemma skip_symbol [simp]: "c \<notin> set whitespace \<Longrightarrow> skip_space (c # s) = c # s"
  using strchr_iff [of whitespace c] by (simp add: skip_space_def whitespace_def)

lemma skip_nil [simp]: "skip_space [] = []"
  by (simp add: skip_space_def)

lemma skip_blank [simp]: "skip_space (0x20 # s) = skip_space s"
  by (simp add: skip_space_def whitespace_def)

definition follow :: "u8 list \<Rightarrow> u8 list \<Rightarrow> bool" where
  "follow S k \<longleftrightarrow> skip_space k = [] \<or> hd (skip_space k) \<in> set S"

lemma followI: "c \<in> set S \<Longrightarrow> c \<notin> set whitespace \<Longrightarrow> follow S (c # k)"
  by (simp add: follow_def)

lemma follow_mono: "follow S k \<Longrightarrow> set S \<subseteq> set T \<Longrightarrow> follow T k"
  by (auto simp: follow_def)

lemma peek_eq: "0 \<notin> set toks \<Longrightarrow> peek s toks = (skip_space s \<noteq> [] \<and> hd (skip_space s) \<in> set toks, skip_space s)"
  using strchr_iff [of toks "here (skip_space s)"] by (auto simp: peek_def Let_def here_def)

lemma peek_skip [simp]: "peek (skip_space s) toks = peek s toks"
  by (simp add: peek_def)

lemma parser_skip [simp]:
  "parseredirs (skip_space s) = parseredirs s"
  "parse_args argv rs (skip_space s) = parse_args argv rs s"
  "parse_back c (skip_space s) = parse_back c s"
  "parseexec n (skip_space s) = parseexec n s"
  by (subst (1 2) parseredirs.simps, simp)
    (subst (1 2) parse_args.simps, simp,
     subst (1 2) parse_back.simps, simp,
     cases n, simp_all)

lemma parsepipe_skip [simp]: "parsepipe n (skip_space s) = parsepipe n s"
  by (cases n) simp_all

lemma parseline_skip [simp]: "parseline n (skip_space s) = parseline n s"
  by (cases n) simp_all

lemma gettoken_symbol:
  "c \<in> {0x7c, 0x28, 0x29, 0x3b, 0x26, 0x3c} \<Longrightarrow> gettoken (c # s) = (c, [c], skip_space s)"
proof -
  assume c: "c \<in> {0x7c, 0x28, 0x29, 0x3b, 0x26, 0x3c}"
  then have "c \<notin> set whitespace" "c \<noteq> 0"
    by (auto simp: whitespace_def)
  with c show ?thesis
    by (auto simp: gettoken_def Let_def here_def)
qed

lemma word_okD: "word_ok w \<Longrightarrow> \<exists>x u. w = x # u \<and> word_char x \<and> x \<noteq> 0"
  by (cases w) (auto simp: word_ok_def)

lemma word_char_iff: "word_char c \<longleftrightarrow> c \<notin> set whitespace \<and> c \<notin> set symbols"
  using strchr_iff [of whitespace c] strchr_iff [of symbols c] by (auto simp: word_char_def whitespace_def symbols_def)

lemma gettoken_word:
  assumes "word_ok w"
  shows "gettoken (w @ 0x20 # s) = (0x61, w, skip_space s)"
proof -
  have all: "\<forall>c\<in>set w. word_char c"
    using assms by (simp add: word_ok_def list_all_iff)
  obtain x u where w: "w = x # u" "word_char x" "x \<noteq> 0"
    using word_okD [OF assms] by blast
  have b: "\<not> word_char 0x20"
    by (simp add: word_char_iff whitespace_def)
  have t: "takeWhile word_char (w @ 0x20 # s) = w" "dropWhile word_char (w @ 0x20 # s) = 0x20 # s"
    using all b by (simp_all add: takeWhile_append dropWhile_append)
  have "skip_space (w @ 0x20 # s) = w @ 0x20 # s" "here (w @ 0x20 # s) = x"
    using w by (simp_all add: word_char_iff here_def)
  then show ?thesis
    using w t unfolding gettoken_def Let_def by (auto simp: word_char_iff symbols_def)
qed

lemma gettoken_arrow: "word_ok w \<Longrightarrow> gettoken (0x3e # w @ s) = (0x3e, [0x3e], w @ s)"
  by (drule word_okD) (auto simp: gettoken_def Let_def here_def word_char_iff symbols_def whitespace_def)

lemma gettoken_less: "word_ok w \<Longrightarrow> gettoken (0x3c # w @ s) = (0x3c, [0x3c], w @ s)"
  by (drule word_okD) (auto simp: gettoken_symbol word_char_iff)

lemma show_redirs_simps [simp]:
  "show_redirs [] = []"
  "show_redirs ((f, m, d) # rs) = (if d = 0 then 0x3c else 0x3e) # f @ 0x20 # show_redirs rs"
  by (simp_all add: show_redirs_def)

lemma show_words_simps [simp]: "show_words [] = []" "show_words (w # ws) = w @ 0x20 # show_words ws"
  by (simp_all add: show_words_def)

abbreviation (input) ends_exec :: "u8 list" where "ends_exec \<equiv> [0x7c, 0x29, 0x26, 0x3b]"

lemma parseredirs_none:
  assumes "skip_space k = [] \<or> hd (skip_space k) \<notin> {0x3c, 0x3e}"
  shows "parseredirs k = Inr ([], skip_space k)"
  using assms by (subst parseredirs.simps) (auto simp: peek_eq)

lemma parseredirs_show:
  assumes "list_all redir_ok rs" "follow ends_exec k"
  shows "parseredirs (show_redirs rs @ k) = Inr (rs, skip_space k)"
  using assms(1)
proof (induction rs)
  case Nil
  then show ?case
    using assms(2) by (simp, intro parseredirs_none) (auto simp: follow_def)
next
  case (Cons r rs)
  obtain f m d where r: "r = (f, m, d)"
    by (cases r)
  have f: "word_ok f" and md: "m = O_READ \<and> d = 0 \<or> m = O_WRITE_CREATE \<and> d = 1"
    using Cons.prems r by (auto simp: redir_ok_def)
  have IH: "parseredirs (show_redirs rs @ k) = Inr (rs, skip_space k)"
    using Cons by simp
  have ws: "0x3c \<notin> set whitespace" "0x3e \<notin> set whitespace"
    by (simp_all add: whitespace_def)
  from md show ?case
    unfolding r by (elim disjE conjE; subst parseredirs.simps)
      (simp_all add: peek_eq ws gettoken_arrow [OF f] gettoken_less [OF f] gettoken_word [OF f] IH)
qed

lemma skip_word: "word_ok w \<Longrightarrow> skip_space (w @ s) = w @ s"
  by (drule word_okD) (auto simp: word_char_iff)

lemma parse_args_end: "follow ends_exec k \<Longrightarrow> parse_args argv rs k = Inr (argv, rs, skip_space k)"
  by (subst parse_args.simps) (auto simp: peek_eq follow_def gettoken_def Let_def here_def)

lemma word_hd: "word_ok w \<Longrightarrow> hd (w @ s) \<notin> set ends_exec \<union> {0x3c, 0x3e, 0x28}"
  by (drule word_okD) (auto simp: word_char_iff symbols_def)

lemma parse_args_show:
  assumes "list_all word_ok ws" "ws \<noteq> []" "length argv + length ws < MAXARGS" "list_all redir_ok rs" "follow ends_exec k"
  shows "parse_args argv rs0 (show_words ws @ show_redirs rs @ k) = Inr (argv @ ws, rs0 @ rs, skip_space k)"
  using assms(1,2,3)
proof (induction ws arbitrary: argv rs0)
  case (Cons w ws)
  let ?rest = "show_words ws @ show_redirs rs @ k"
  have w: "word_ok w" "list_all word_ok ws"
    using Cons.prems by simp_all
  have p: "peek (w @ 0x20 # ?rest) ends_exec = (False, w @ 0x20 # ?rest)"
    using word_hd [OF w(1), of "0x20 # ?rest"] by (auto simp: peek_eq skip_word [OF w(1)])
  have "andthen (parseredirs ?rest) (\<lambda>(rs', s). parse_args (argv @ [w]) (rs0 @ rs') s) = Inr (argv @ w # ws, rs0 @ rs, skip_space k)"
  proof (cases ws)
    case Nil
    then show ?thesis
      using parse_args_end [OF assms(5)] by (simp add: parseredirs_show assms)
  next
    case (Cons v vs)
    then have v: "word_ok v" "ws \<noteq> []"
      using w by simp_all
    have "parseredirs ?rest = Inr ([], ?rest)"
      using parseredirs_none [of ?rest] word_hd [OF v(1), of "0x20 # show_words vs @ show_redirs rs @ k"] Cons
      by (simp add: skip_word [OF v(1)])
    then show ?thesis
      using Cons.IH [OF w(2) v(2), of "argv @ [w]" rs0] Cons.prems(3) by simp
  qed
  then show ?case
    using p Cons.prems(3) by (subst parse_args.simps) (simp add: gettoken_word [OF w(1)])
qed simp

section \<open>The round trip\<close>

definition reads_exec :: "cmd \<Rightarrow> bool" where
  "reads_exec c \<longleftrightarrow> (\<forall>n rs k. list_all redir_ok rs \<longrightarrow> follow ends_exec k \<longrightarrow>
     4 * length (wrap 0 c (show_cmd c) @ show_redirs rs @ k) + 2 \<le> n \<longrightarrow>
     parseexec n (wrap 0 c (show_cmd c) @ show_redirs rs @ k) = Inr (redircmds c rs, skip_space k))"

definition reads_pipe :: "cmd \<Rightarrow> bool" where
  "reads_pipe c \<longleftrightarrow> (\<forall>n k. follow [0x29, 0x26, 0x3b] k \<longrightarrow> 4 * length (wrap 1 c (show_cmd c) @ k) + 3 \<le> n \<longrightarrow>
     parsepipe n (wrap 1 c (show_cmd c) @ k) = Inr (c, skip_space k))"

text \<open>The command in front of its ampersands is not determined by what follows, but the pair of both is.\<close>

definition reads_back :: "cmd \<Rightarrow> bool" where
  "reads_back c \<longleftrightarrow> (\<forall>n k. follow [0x29, 0x26, 0x3b] k \<longrightarrow> 4 * length (wrap 2 c (show_cmd c) @ k) + 3 \<le> n \<longrightarrow>
     (\<exists>d t. parsepipe n (wrap 2 c (show_cmd c) @ k) = Inr (d, t) \<and> parse_back d t = parse_back c k))"

definition reads_line :: "cmd \<Rightarrow> bool" where
  "reads_line c \<longleftrightarrow> (\<forall>n k. follow [0x29] k \<longrightarrow> 4 * length (show_cmd c @ k) + 4 \<le> n \<longrightarrow>
     parseline n (show_cmd c @ k) = Inr (c, skip_space k))"

lemma reads_execD:
  "reads_exec c \<Longrightarrow> list_all redir_ok rs \<Longrightarrow> follow ends_exec k
    \<Longrightarrow> 4 * length (wrap 0 c (show_cmd c) @ show_redirs rs @ k) + 2 \<le> n
    \<Longrightarrow> parseexec n (wrap 0 c (show_cmd c) @ show_redirs rs @ k) = Inr (redircmds c rs, skip_space k)"
  by (simp add: reads_exec_def)

lemma reads_lineD:
  "reads_line c \<Longrightarrow> follow [0x29] k \<Longrightarrow> 4 * length (show_cmd c @ k) + 4 \<le> n
    \<Longrightarrow> parseline n (show_cmd c @ k) = Inr (c, skip_space k)"
  by (simp add: reads_line_def)

lemma reads_backE:
  assumes "reads_back c" "follow [0x29, 0x26, 0x3b] k" "4 * length (wrap 2 c (show_cmd c) @ k) + 3 \<le> n"
  obtains d t where "parsepipe n (wrap 2 c (show_cmd c) @ k) = Inr (d, t)" "parse_back d t = parse_back c k"
  using assms unfolding reads_back_def by blast

lemma parse_back_end: "follow [0x29, 0x3b] k \<Longrightarrow> parse_back c k = (c, skip_space k)"
  by (subst parse_back.simps) (auto simp: peek_eq follow_def)

lemma parse_back_and: "parse_back c (0x26 # k) = parse_back (BACK c) k"
  by (subst parse_back.simps) (simp add: peek_eq gettoken_symbol whitespace_def)

lemma reads_exec_pipe: 
  assumes "reads_exec c" "level c \<noteq> 1"
  shows "reads_pipe c"
  unfolding reads_pipe_def
proof (intro allI impI)
  fix n k
  assume k: "follow [0x29, 0x26, 0x3b] k" and n: "4 * length (wrap 1 c (show_cmd c) @ k) + 3 \<le> n"
  have w: "wrap 1 c (show_cmd c) = wrap 0 c (show_cmd c)"
    using assms(2) by (simp add: wrap_def)
  obtain m where m: "n = Suc m"
    using n by (cases n) auto
  have "parseexec m (wrap 0 c (show_cmd c) @ show_redirs [] @ k) = Inr (redircmds c [], skip_space k)"
    using n k m w by (intro reads_execD [OF assms(1)]) (auto intro: follow_mono)
  then show "parsepipe n (wrap 1 c (show_cmd c) @ k) = Inr (c, skip_space k)"
    using k w m by (auto simp: redircmds_def peek_eq follow_def)
qed

lemma reads_pipe_back: "reads_pipe c \<Longrightarrow> level c \<noteq> 2 \<Longrightarrow> reads_back c"
proof -
  assume c: "reads_pipe c" "level c \<noteq> 2"
  have "wrap 2 c (show_cmd c) = wrap 1 c (show_cmd c)"
    using c(2) by (simp add: wrap_def)
  with c(1) show "reads_back c"
    by (simp add: reads_pipe_def reads_back_def)
qed

lemma reads_back_line:
  assumes "reads_back c" "level c \<noteq> 3"
  shows "reads_line c"
  unfolding reads_line_def
proof (intro allI impI)
  fix n k
  assume k: "follow [0x29] k" and n: "4 * length (show_cmd c @ k) + 4 \<le> n"
  have w: "wrap 2 c (show_cmd c) = show_cmd c"
    using assms(2) by (cases c) (simp_all add: wrap_def)
  obtain m where m: "n = Suc m"
    using n by (cases n) auto
  have "follow [0x29, 0x26, 0x3b] k" "follow [0x29, 0x3b] k"
    using follow_mono [OF k] by simp_all
  moreover obtain d t where "parsepipe m (show_cmd c @ k) = Inr (d, t)" "parse_back d t = parse_back c k"
    using reads_backE [OF assms(1) calculation(1), of m] n m w by auto
  ultimately show "parseline n (show_cmd c @ k) = Inr (c, skip_space k)"
    using m k by (auto simp: parse_back_end peek_eq follow_def)
qed

lemma reads_line_exec:
  assumes "reads_line c" "level c > 0"
  shows "reads_exec c"
  unfolding reads_exec_def
proof (intro allI impI)
  fix n rs k
  assume rs: "list_all redir_ok rs" and k: "follow ends_exec k"
    and n: "4 * length (wrap 0 c (show_cmd c) @ show_redirs rs @ k) + 2 \<le> n"
  have w: "wrap 0 c (show_cmd c) = 0x28 # show_cmd c @ [0x29]"
    using assms(2) by (simp add: wrap_def)
  obtain m where m: "n = Suc (Suc m)"
    using n by (cases n; cases "n - 1") auto
  have ws: "0x28 \<notin> set whitespace" "0x29 \<notin> set whitespace"
    by (simp_all add: whitespace_def)
  have "parseline m (show_cmd c @ 0x29 # show_redirs rs @ k) = Inr (c, 0x29 # show_redirs rs @ k)"
    using assms(1) n m w ws followI [of "0x29" "[0x29]" "show_redirs rs @ k"] unfolding reads_line_def by simp
  then show "parseexec n (wrap 0 c (show_cmd c) @ show_redirs rs @ k) = Inr (redircmds c rs, skip_space k)"
    using m w ws by (simp add: peek_eq gettoken_symbol parseredirs_show [OF rs k])
qed

text \<open>From one level to all of them.\<close>

lemma reads_all:
  "level c = 0 \<Longrightarrow> reads_exec c \<Longrightarrow> reads_exec c \<and> reads_pipe c \<and> reads_back c \<and> reads_line c"
  "level c = 1 \<Longrightarrow> reads_pipe c \<Longrightarrow> reads_exec c \<and> reads_pipe c \<and> reads_back c \<and> reads_line c"
  "level c = 2 \<Longrightarrow> reads_back c \<Longrightarrow> reads_exec c \<and> reads_pipe c \<and> reads_back c \<and> reads_line c"
  "level c = 3 \<Longrightarrow> reads_line c \<Longrightarrow> reads_exec c \<and> reads_pipe c \<and> reads_back c \<and> reads_line c"
  using reads_exec_pipe [of c] reads_pipe_back [of c] reads_back_line [of c] reads_line_exec [of c] by simp_all

lemma reads_EXEC: "cmd_ok (EXEC argv) \<Longrightarrow> reads_exec (EXEC argv)"
  unfolding reads_exec_def
proof (intro allI impI)
  fix n rs k
  assume ok: "cmd_ok (EXEC argv)" and rs: "list_all redir_ok rs" and k: "follow ends_exec k"
    and n: "4 * length (wrap 0 (EXEC argv) (show_cmd (EXEC argv)) @ show_redirs rs @ k) + 2 \<le> n"
  let ?s = "show_words argv @ show_redirs rs @ k"
  obtain m where m: "n = Suc m"
    using n by (cases n) auto
  have "peek ?s [0x28] = (False, skip_space ?s)
    \<and> andthen (parseredirs ?s) (\<lambda>(rs, s). andthen (parse_args [] rs s) f) = andthen (Inr (argv, rs, skip_space k)) f" for f :: "_ \<Rightarrow> (cmd \<times> u8 list) result"
  proof (cases argv)
    case Nil
    have "peek (show_redirs rs @ k) [0x28] = (False, skip_space (show_redirs rs @ k))"
      using k by (cases rs) (auto simp: peek_eq follow_def whitespace_def split: if_splits)
    then show ?thesis
      using Nil by (simp add: parseredirs_show [OF rs k] parse_args_end [OF k])
  next
    case (Cons w ws)
    then have w: "word_ok w" "list_all word_ok (w # ws)" "length (w # ws) < MAXARGS"
      using ok by simp_all
    let ?r = "0x20 # show_words ws @ show_redirs rs @ k"
    have "parseredirs (w @ ?r) = Inr ([], w @ ?r)" "peek (w @ ?r) [0x28] = (False, w @ ?r)"
      using parseredirs_none [of "w @ ?r"] word_hd [OF w(1), of ?r] by (simp_all add: peek_eq skip_word [OF w(1)])
    then show ?thesis
      using Cons parse_args_show [OF w(2) _ _ rs k, of "[]" "[]"] w(3) by (simp add: skip_word [OF w(1)])
  qed
  then show "parseexec n (wrap 0 (EXEC argv) (show_cmd (EXEC argv)) @ show_redirs rs @ k)
      = Inr (redircmds (EXEC argv) rs, skip_space k)"
    using m by (simp add: wrap_def)
qed

lemma reads_REDIR:
  assumes "reads_exec c" "redir_ok (f, m, d)"
  shows "reads_exec (REDIR c f m d)"
  unfolding reads_exec_def
proof (intro allI impI)
  fix n rs k
  assume "list_all redir_ok rs" "follow ends_exec k"
    "4 * length (wrap 0 (REDIR c f m d) (show_cmd (REDIR c f m d)) @ show_redirs rs @ k) + 2 \<le> n"
  then show "parseexec n (wrap 0 (REDIR c f m d) (show_cmd (REDIR c f m d)) @ show_redirs rs @ k)
      = Inr (redircmds (REDIR c f m d) rs, skip_space k)"
    using assms(2) reads_execD [OF assms(1), of "(f, m, d) # rs" k n] by (simp add: wrap_def [of 0 "REDIR c f m d"] redircmds_def)
qed

lemma reads_PIPE:
  assumes "reads_exec a" "reads_pipe b"
  shows "reads_pipe (PIPE a b)"
  unfolding reads_pipe_def
proof (intro allI impI)
  fix n k
  assume k: "follow [0x29, 0x26, 0x3b] k" and n: "4 * length (wrap 1 (PIPE a b) (show_cmd (PIPE a b)) @ k) + 3 \<le> n"
  obtain m where m: "n = Suc m"
    using n by (cases n) auto
  let ?b = "wrap 1 b (show_cmd b) @ k"
  have ws: "0x7c \<notin> set whitespace"
    by (simp add: whitespace_def)
  have "parseexec m (wrap 0 a (show_cmd a) @ show_redirs [] @ 0x7c # ?b) = Inr (redircmds a [], 0x7c # ?b)"
    using n m ws followI [of "0x7c" ends_exec ?b] reads_execD [OF assms(1), of "[]" "0x7c # ?b" m] by (simp add: wrap_def)
  moreover have "parsepipe m ?b = Inr (b, skip_space k)"
    using assms(2) n m k unfolding reads_pipe_def by (simp add: wrap_def)
  ultimately show "parsepipe n (wrap 1 (PIPE a b) (show_cmd (PIPE a b)) @ k) = Inr (PIPE a b, skip_space k)"
    using m ws by (simp add: wrap_def peek_eq gettoken_symbol redircmds_def)
qed

lemma reads_BACK:
  assumes "reads_back c"
  shows "reads_back (BACK c)"
  unfolding reads_back_def
proof (intro allI impI)
  fix n k
  assume k: "follow [0x29, 0x26, 0x3b] k" and n: "4 * length (wrap 2 (BACK c) (show_cmd (BACK c)) @ k) + 3 \<le> n"
  have "follow [0x29, 0x26, 0x3b] (0x26 # k)"
    by (intro followI) (simp_all add: whitespace_def)
  then have "\<exists>d t. parsepipe n (wrap 2 c (show_cmd c) @ 0x26 # k) = Inr (d, t) \<and> parse_back d t = parse_back c (0x26 # k)"
    using assms n unfolding reads_back_def by (simp add: wrap_def [of 2 "BACK c"])
  then show "\<exists>d t. parsepipe n (wrap 2 (BACK c) (show_cmd (BACK c)) @ k) = Inr (d, t) \<and> parse_back d t = parse_back (BACK c) k"
    by (simp add: wrap_def [of 2 "BACK c"] parse_back_and)
qed

lemma reads_LIST:
  assumes "reads_back a" "reads_line b"
  shows "reads_line (LIST a b)"
  unfolding reads_line_def
proof (intro allI impI)
  fix n k
  assume k: "follow [0x29] k" and n: "4 * length (show_cmd (LIST a b) @ k) + 4 \<le> n"
  obtain m where m: "n = Suc m"
    using n by (cases n) auto
  let ?b = "show_cmd b @ k"
  have f: "follow [0x29, 0x26, 0x3b] (0x3b # ?b)" "follow [0x29, 0x3b] (0x3b # ?b)" and ws: "0x3b \<notin> set whitespace"
    by (auto intro!: followI simp: whitespace_def)
  obtain d t where d: "parsepipe m (wrap 2 a (show_cmd a) @ 0x3b # ?b) = Inr (d, t)" "parse_back d t = parse_back a (0x3b # ?b)"
    using reads_backE [OF assms(1) f(1), of m] n m by auto
  have "parseline m ?b = Inr (b, skip_space k)"
    using assms(2) n m k unfolding reads_line_def by simp
  then show "parseline n (show_cmd (LIST a b) @ k) = Inr (LIST a b, skip_space k)"
    using m d ws by (simp add: parse_back_end [OF f(2)] peek_eq gettoken_symbol)
qed

lemma reads_show: "cmd_ok c \<Longrightarrow> reads_exec c \<and> reads_pipe c \<and> reads_back c \<and> reads_line c"
proof (induction c)
  case (EXEC argv)
  then show ?case
    by (intro reads_all(1) reads_EXEC) simp_all
next
  case (REDIR c f m d)
  then show ?case
    by (intro reads_all(1) reads_REDIR) simp_all
next
  case (PIPE a b)
  then show ?case
    by (intro reads_all(2) reads_PIPE) simp_all
next
  case (LIST a b)
  then show ?case
    by (intro reads_all(4) reads_LIST) simp_all
next
  case (BACK c)
  then show ?case
    by (intro reads_all(3) reads_BACK) simp_all
qed

text \<open>
  C36. The parser of the shell reads back every command from its printed form: pipes and lists associate to the
  right, redirections bind to the command in front of them, \<^verbatim>\<open>&\<close> to the whole pipe, and parentheses override all of
  this. In particular it neither panics nor fails to return on such a line.
\<close>

theorem parsecmd_show: "cmd_ok c \<Longrightarrow> parsecmd (show_cmd c) = Inr c"
  using reads_lineD [of c "[]" "4 * length (show_cmd c) + 4"] reads_show [of c]
  by (simp add: parsecmd_def peek_def follow_def)

text \<open>The line \<^verbatim>\<open>(ls;cat <f |wc )>g &\<close>.\<close>

definition sample_cmd :: cmd where
  "sample_cmd = BACK (REDIR (LIST (EXEC [[0x6c, 0x73]])
     (PIPE (REDIR (EXEC [[0x63, 0x61, 0x74]]) [0x66] O_READ 0) (EXEC [[0x77, 0x63]]))) [0x67] O_WRITE_CREATE 1)"

theorem parsecmd_show_witness:
  "cmd_ok sample_cmd \<and> parsecmd (show_cmd sample_cmd) = Inr sample_cmd
    \<and> show_cmd sample_cmd = [0x28, 0x6c, 0x73, 0x20, 0x3b, 0x63, 0x61, 0x74, 0x20, 0x3c, 0x66, 0x20, 0x7c, 0x77, 0x63, 0x20, 0x29, 0x3e, 0x67, 0x20, 0x26]"
proof -
  have "cmd_ok sample_cmd"
    by code_simp
  moreover have "show_cmd sample_cmd = [0x28, 0x6c, 0x73, 0x20, 0x3b, 0x63, 0x61, 0x74, 0x20, 0x3c, 0x66, 0x20, 0x7c, 0x77, 0x63, 0x20, 0x29, 0x3e, 0x67, 0x20, 0x26]"
    by code_simp
  ultimately show ?thesis
    using parsecmd_show [of sample_cmd] by simp
qed

end
