(* ===== verification/FsStore.thy ===== *)
theory FsStore
  imports LogUse Dir
begin

text \<open>
  The file system's use of blocks inside a transaction. \<open>txn X k L s\<close> says that the log has room for the
  blocks it lists already, those in \<open>X\<close>, and \<open>k\<close> more, and that exactly the blocks in \<open>L\<close> are held. On top of it,
  what \<^verbatim>\<open>bzero\<close> and \<^verbatim>\<open>balloc\<close> do.
\<close>

section \<open>Transactions\<close>

definition txn :: "u32 set \<Rightarrow> nat \<Rightarrow> u32 set \<Rightarrow> 'a log_state_scheme \<Rightarrow> bool" where
  "txn X k L s \<longleftrightarrow> sound s \<and> st_locked (store_of s) = L \<and> finite X \<and> st_dirty (store_of s) \<subseteq> set (entries s)
     \<and> distinct (entries s) \<and> card (set (entries s) \<union> X) + k < min LOGSIZE (unat (log_size s) - 1)
     \<and> unat (log_size s) < 0x80000000 \<and> 0 < unat (log_outstanding s) \<and> unat (log_outstanding s) < 0x80000000"

text \<open>What every step leaves alone.\<close>

definition kept :: "nat \<Rightarrow> 'a fs_state_scheme \<Rightarrow> 'a fs_state_scheme \<Rightarrow> bool" where
  "kept me s t \<longleftrightarrow> icache t = icache s \<and> sb t = sb s \<and> disksize t = disksize s \<and> (\<forall>c m. holds me c m s \<longrightarrow> holds me c m t)"

lemma kept_refl [simp]: "kept me s s"
  by (simp add: kept_def)

lemma kept_trans: "kept me s t \<Longrightarrow> kept me t u \<Longrightarrow> kept me s u"
  by (simp add: kept_def)

lemma keptD: "kept me s t \<Longrightarrow> icache t = icache s \<and> sb t = sb s \<and> disksize t = disksize s"
  by (simp add: kept_def)

lemma kept_release:
  assumes "kept me s v" "\<forall>c m. holds me c m s \<longrightarrow> c \<noteq> b" "icache w = icache v" "sb w = sb v" "disksize w = disksize v"
    "\<forall>c m. holds me c m v \<and> c \<noteq> b \<longrightarrow> holds me c m w"
  shows "kept me s w"
  using assms unfolding kept_def by (metis (no_types))

lemma txnD:
  assumes "txn X k L s"
  shows "sound s" "st_locked (store_of s) = L" "finite X" "st_dirty (store_of s) \<subseteq> set (entries s)" "distinct (entries s)"
    "card (set (entries s) \<union> X) + k < LOGSIZE" "card (set (entries s) \<union> X) + k < unat (log_size s) - 1"
    "unat (log_size s) < 0x80000000" "0 < unat (log_outstanding s)" "unat (log_outstanding s) < 0x80000000"
  using assms unfolding txn_def by auto

lemma txn_insert:
  assumes "txn X (Suc k) L s"
  shows "txn (insert n X) k L s"
proof -
  have "card (set (entries s) \<union> insert n X) \<le> Suc (card (set (entries s) \<union> X))"
    using txnD(3) [OF assms] by (simp add: card_insert_if)
  then show ?thesis
    using assms unfolding txn_def by auto
qed

lemma txn_less: "txn X k L s \<Longrightarrow> k' \<le> k \<Longrightarrow> txn X k' L s"
  unfolding txn_def by auto

lemma bio_frame_fs: "bio_frame s t \<Longrightarrow> icache t = icache s \<and> sb t = sb s"
  by (auto simp: bio_frame_def)

lemma bio_frame_entries: "bio_frame s t \<Longrightarrow> entries t = entries s"
  by (simp add: entries_def bio_frame_log)

lemma txn_frame:
  assumes "txn X k L s" "bio_frame s t" "sound t" "st_locked (store_of t) = L'" "st_dirty (store_of t) = st_dirty (store_of s)"
  shows "txn X k L' t"
  using assms bio_frame_entries [OF assms(2)] bio_frame_log [OF assms(2)] unfolding txn_def by simp

text \<open>Taking a block.\<close>

lemma txn_bread:
  fixes s :: "'a fs_state_scheme"
  assumes "txn X k L s" "L \<subseteq> X" "n \<notin> L" "n < disksize s"
  shows "\<exists>b u. bread me 1 n s = Inr (b, u) \<and> txn X k (insert n L) u \<and> holds me b n u \<and> bdata (bbuf u b) = view s n
    \<and> view u = view s \<and> settled n (store_of u) \<and> kept me s u \<and> (\<forall>c m. holds me c m s \<longrightarrow> c \<noteq> b)"
proof -
  note t = txnD [OF assms(1)]
  have "card (st_dirty (store_of s) \<union> st_locked (store_of s)) \<le> card (set (entries s) \<union> X)"
    using t(2-4) assms(2) by (intro card_mono) auto
  then have "readable n (store_of s)"
    using t(2,6) assms(3) by (simp add: readable_def)
  from bc.br_law [OF t(1) assms(4) this, of me] obtain b u where u: "bread me 1 n s = Inr (b, u)" "sound u" "holds me b n u"
    "store_of u = (store_of s)\<lparr>st_locked := insert n (st_locked (store_of s))\<rparr>" "bio_frame s u"
    "\<forall>c m. holds me c m s \<longrightarrow> holds me c m u \<and> c \<noteq> b"
    by blast
  have v: "view u = view s" "st_dirty (store_of u) = st_dirty (store_of s)" "st_locked (store_of u) = insert n L"
    using u(4) t(2) by (simp_all add: store_of_def)
  have "settled n (store_of u)"
  proof (cases "n \<in> st_dirty (store_of s)")
    case False
    then have "st_view (store_of s) n = st_disk (store_of s) n"
      using assms(3) t(2) by (intro bc.transparent [OF t(1)]) simp
    then show ?thesis
      using u(4) by (simp add: settled_def)
  qed (use u(4) in \<open>simp add: settled_def\<close>)
  moreover have "bdata (bbuf u b) = view s n"
    using bc.held_data [OF u(2,3)] u(4) by (simp add: store_of_def)
  ultimately show ?thesis
    using u v txn_frame [OF assms(1) u(5,2) v(3,2)] bio_frame_fs [OF u(5)] bio_frame_disksize [OF u(5)]
    by (intro exI [of _ b] exI [of _ u]) (simp add: kept_def)
qed

text \<open>Changing a held block.\<close>

lemma log_write_fs:
  fixes s :: "'a fs_state_scheme"
  assumes "log_write b s = Inr t"
  shows "icache t = icache s \<and> sb t = sb s \<and> disksize t = disksize s \<and> disk t = disk s \<and> disk_writes t = disk_writes s
    \<and> ptable t = ptable s"
  using assms by (auto simp: log_write_def Let_def upd_buf_def split: if_splits)

lemma txn_log_write:
  fixes u :: "'a fs_state_scheme"
  assumes "txn X k L u" "holds me b n u" "n \<in> X"
  shows "\<exists>v. log_write b (set_data b d u) = Inr v \<and> txn X k L v \<and> holds me b n v \<and> view v = (view u)(n := d)
    \<and> settled n (store_of v) \<and> kept me u v"
proof -
  note t = txnD [OF assms(1)]
  let ?w = "set_data b d u"
  note p = bc.put_law [OF t(1) assms(2), of d]
  then have w: "sound ?w" "holds me b n ?w" "bio_frame u ?w" "\<forall>c m. holds me c m u \<longrightarrow> holds me c m ?w"
    "store_of ?w = (store_of u)\<lparr>st_view := (st_view (store_of u))(n := d)\<rparr>"
    using assms(2) by blast+
  have n: "bblockno (bbuf ?w b) = n"
    using w(2) by (simp add: holds_def)
  have e: "entries ?w = entries u"
    using bio_frame_entries [OF w(3)] .
  have len: "unat (lh_n ?w) \<le> card (set (entries u) \<union> X)"
    using t(3,5) card_mono [of "set (entries u) \<union> X" "set (entries u)"] distinct_card [of "entries u"]
      bio_frame_log(3) [OF w(3)] by simp
  obtain v where v: "log_write b ?w = Inr (mark_dirty b v)" "bbuf v = bbuf ?w" "log_size v = log_size u"
    "log_outstanding v = log_outstanding u" "entries v = (if n \<in> set (entries u) then entries u else entries u @ [n])"
    using log_write_eq [of ?w b] len t(6-10) n e bio_frame_log [OF w(3)] by auto
  note fs = log_write_fs [OF v(1)]
  have vw: "sound v" "store_of v = store_of ?w" "\<And>c m. holds me c m v \<longleftrightarrow> holds me c m ?w"
  proof -
    have same: "disk v = disk ?w" "disk_writes v = disk_writes ?w" "ptable v = ptable ?w"
      using fs by (simp_all add: mark_dirty_def upd_buf_def)
    show "store_of v = store_of ?w"
      using same v(2) by (intro store_cong) simp_all
    show "sound v"
      using w(1) same v(2) by (simp add: cache_ok_def lru_def)
    show "holds me c m v \<longleftrightarrow> holds me c m ?w" for c m
      using same v(2) by (simp add: holds_def)
  qed
  let ?v = "mark_dirty b v"
  note q = bc.mark_law [OF vw(1), of me b n]
  then have m: "sound ?v" "bio_frame v ?v" "\<forall>c m. holds me c m v \<longrightarrow> holds me c m ?v"
    "store_of ?v = (store_of v)\<lparr>st_dirty := insert n (st_dirty (store_of v))\<rparr>"
    using w(2) vw(3) by blast+
  have ev: "entries ?v = entries v" "log_size ?v = log_size u" "log_outstanding ?v = log_outstanding u"
    using v(3,4) by simp_all
  have set: "set (entries ?v) \<union> X = set (entries u) \<union> X" "st_dirty (store_of ?v) \<subseteq> set (entries ?v)" "distinct (entries ?v)"
    using ev(1) v(5) assms(3) m(4) vw(2) w(5) t(4,5) by auto
  have "txn X k L ?v"
    unfolding txn_def set(1) ev(2,3) using m(1) set(2,3) t m(4) vw(2) w(5) by (simp add: store_of_def)
  moreover have "view ?v = (view u)(n := d)" "settled n (store_of ?v)"
    using m(4) vw(2) w(5) by (simp_all add: store_of_def settled_def)
  moreover have "kept me u ?v"
    unfolding kept_def using fs w(3,4) vw(3) m(3) bio_frame_fs [OF w(3)] bio_frame_disksize [OF w(3)] by simp
  ultimately show ?thesis
    using v(1) w(2) vw(3) m(3) by (intro exI [of _ ?v]) simp
qed

text \<open>Letting a block go.\<close>

lemma txn_brelse:
  fixes v :: "'a fs_state_scheme"
  assumes "txn X k L v" "holds me b n v" "settled n (store_of v)"
  shows "\<exists>w. brelse me b v = Inr w \<and> txn X k (L - {n}) w \<and> view w = view v \<and> icache w = icache v \<and> sb w = sb v
    \<and> disksize w = disksize v \<and> (\<forall>c m. holds me c m v \<and> c \<noteq> b \<longrightarrow> holds me c m w)"
proof -
  note t = txnD [OF assms(1)]
  from bc.rel_law [OF t(1) assms(2,3)] obtain w where w: "brelse me b v = Inr w" "sound w"
    "store_of w = (store_of v)\<lparr>st_locked := st_locked (store_of v) - {n}\<rparr>" "bio_frame v w"
    "\<forall>c m. holds me c m v \<and> c \<noteq> b \<longrightarrow> holds me c m w"
    by blast
  have "txn X k (L - {n}) w"
    using w(3) t(2) by (intro txn_frame [OF assms(1) w(4,2)]) simp_all
  then show ?thesis
    using w bio_frame_fs [OF w(4)] bio_frame_disksize [OF w(4)] by (intro exI [of _ w]) (simp add: store_of_def)
qed

section \<open>Reading and changing one block\<close>

lemma read_block:
  fixes s :: "'a fs_state_scheme"
  assumes "txn X k L s" "L \<subseteq> X" "n \<notin> L" "n < disksize s"
  shows "\<exists>b u w. bread me 1 n s = Inr (b, u) \<and> bdata (bbuf u b) = view s n \<and> kept me s u \<and> brelse me b u = Inr w
    \<and> txn X k L w \<and> view w = view s \<and> kept me s w"
proof -
  obtain b u where u: "bread me 1 n s = Inr (b, u)" "txn X k (insert n L) u" "holds me b n u" "bdata (bbuf u b) = view s n"
    "view u = view s" "settled n (store_of u)" "kept me s u" "\<forall>c m. holds me c m s \<longrightarrow> c \<noteq> b"
    using txn_bread [OF assms, of me] by blast
  obtain w where w: "brelse me b u = Inr w" "txn X k (insert n L - {n}) w" "view w = view u" "icache w = icache u" "sb w = sb u"
    "disksize w = disksize u" "\<forall>c m. holds me c m u \<and> c \<noteq> b \<longrightarrow> holds me c m w"
    using txn_brelse [OF u(2,3,6)] by blast
  have "kept me s w"
    by (rule kept_release [OF u(7,8) w(4-7)])
  then show ?thesis
    using u w assms(3) by (intro exI [of _ b] exI [of _ u] exI [of _ w]) simp
qed

lemma change_block:
  fixes s :: "'a fs_state_scheme"
  assumes "txn X k L s" "L \<subseteq> X" "n \<in> X - L" "n < disksize s"
  shows "\<exists>b u. bread me 1 n s = Inr (b, u) \<and> bdata (bbuf u b) = view s n \<and> kept me s u
    \<and> (\<forall>d. \<exists>v w. log_write b (set_data b d u) = Inr v \<and> brelse me b v = Inr w \<and> txn X k L w
        \<and> view w = (view s)(n := d) \<and> kept me s v \<and> kept me s w)"
proof -
  obtain b u where u: "bread me 1 n s = Inr (b, u)" "txn X k (insert n L) u" "holds me b n u" "bdata (bbuf u b) = view s n"
    "view u = view s" "kept me s u" "\<forall>c m. holds me c m s \<longrightarrow> c \<noteq> b"
    using txn_bread [OF assms(1,2) _ assms(4), of me] assms(3) by blast
  have "\<exists>v w. log_write b (set_data b d u) = Inr v \<and> brelse me b v = Inr w \<and> txn X k L w
      \<and> view w = (view s)(n := d) \<and> kept me s v \<and> kept me s w" for d
  proof -
    obtain v where v: "log_write b (set_data b d u) = Inr v" "txn X k (insert n L) v" "holds me b n v" "view v = (view u)(n := d)"
      "settled n (store_of v)" "kept me u v"
      using txn_log_write [OF u(2,3), of d] assms(3) by blast
    obtain w where w: "brelse me b v = Inr w" "txn X k (insert n L - {n}) w" "view w = view v" "icache w = icache v" "sb w = sb v"
      "disksize w = disksize v" "\<forall>c m. holds me c m v \<and> c \<noteq> b \<longrightarrow> holds me c m w"
      using txn_brelse [OF v(2,3,5)] by blast
    have "kept me s v"
      using kept_trans [OF u(6) v(6)] .
    moreover have "kept me s w"
      by (rule kept_release [OF \<open>kept me s v\<close> u(7) w(4-7)])
    ultimately show ?thesis
      using v w u(5) assms(3) by (intro exI [of _ v] exI [of _ w]) simp
  qed
  then show ?thesis
    using u by blast
qed

lemma bzero_ok:
  fixes s :: "'a fs_state_scheme"
  assumes "txn X k L s" "L \<subseteq> X" "n \<in> X - L" "n < disksize s"
  shows "\<exists>t. bzero me 1 n s = Inr t \<and> txn X k L t \<and> view t = (view s)(n := memset 0 0 BSIZE (view s n)) \<and> kept me s t"
proof -
  obtain b u where u: "bread me 1 n s = Inr (b, u)" "bdata (bbuf u b) = view s n"
    "\<forall>d. \<exists>v w. log_write b (set_data b d u) = Inr v \<and> brelse me b v = Inr w \<and> txn X k L w
        \<and> view w = (view s)(n := d) \<and> kept me s v \<and> kept me s w"
    using change_block [OF assms, of me] by blast
  obtain v w where "log_write b (set_data b (memset 0 0 BSIZE (view s n)) u) = Inr v" "brelse me b v = Inr w" "txn X k L w"
      "view w = (view s)(n := memset 0 0 BSIZE (view s n))" "kept me s w"
    using u(3) by blast
  then show ?thesis
    using u(1,2) by (intro exI [of _ w]) (simp add: bzero_def)
qed

section \<open>The bitmap\<close>

definition bitmap_block :: "'a fs_state_scheme \<Rightarrow> nat \<Rightarrow> u32" where
  "bitmap_block s j = BBLOCK (of_nat (j * BPB)) (sb s)"

definition bitmap :: "'a fs_state_scheme \<Rightarrow> u32 set" where
  "bitmap s = bitmap_block s ` {0..<(unat (sb_size (sb s)) + BPB - 1) div BPB}"

definition in_use :: "'a fs_state_scheme \<Rightarrow> u32 \<Rightarrow> bool" where
  "in_use s b \<longleftrightarrow> \<not> bit_clear (view s (BBLOCK b (sb s))) (unat b mod BPB)"

definition mark_bit :: "nat \<Rightarrow> block \<Rightarrow> block" where
  "mark_bit bi d = d(of_nat (bi div 8) := d (of_nat (bi div 8)) OR bit_mask bi)"

lemma bit_clear_iff: "bit_clear d bi \<longleftrightarrow> \<not> bit (d (of_nat (bi div 8))) (bi mod 8)"
  by (simp add: bit_clear_def bit_mask_def push_bit_of_1 and_exp_eq_0_iff_not_bit)

lemma bit_clear_mark:
  assumes "bi < BPB" "bi' < BPB"
  shows "bit_clear (mark_bit bi d) bi' \<longleftrightarrow> bi' \<noteq> bi \<and> bit_clear d bi'"
proof -
  have w: "(of_nat (bi' div 8) :: u32) = of_nat (bi div 8) \<longleftrightarrow> bi' div 8 = bi div 8"
    using assms by (simp add: word_unat_eq_iff unat_of_nat)
  have m: "bit (bit_mask bi) k \<longleftrightarrow> k = bi mod 8 \<and> k < 8" for k
    by (auto simp: bit_mask_def push_bit_of_1 bit_exp_iff)
  have "bi' = bi \<longleftrightarrow> bi' div 8 = bi div 8 \<and> bi' mod 8 = bi mod 8"
    by (metis div_mult_mod_eq)
  then show ?thesis
    by (auto simp: bit_clear_iff mark_bit_def w bit_or_iff m)
qed

lemma unat_of_nat_small: "m < 0x100000000 \<Longrightarrow> unat (of_nat m :: u32) = m"
  by (simp add: unat_of_nat)

lemma BBLOCK_split:
  assumes "j * BPB + bi < 0x100000000" "bi < BPB"
  shows "BBLOCK (of_nat (j * BPB + bi)) (sb s) = bitmap_block s j" "unat (of_nat (j * BPB + bi) :: u32) mod BPB = bi"
proof -
  have u: "unat (of_nat (j * BPB + bi) :: u32) = j * BPB + bi" "unat (of_nat (j * BPB) :: u32) = j * BPB" "unat (of_nat j :: u32) = j"
    using assms by (simp_all add: unat_of_nat_small del: of_nat_add of_nat_mult)
  have "(of_nat (j * BPB + bi) :: u32) div 4096 = of_nat j" "(of_nat (j * BPB) :: u32) div 4096 = of_nat j"
    using assms(2) u by (simp_all add: word_unat_eq_iff unat_div del: of_nat_add of_nat_mult)
  then show "BBLOCK (of_nat (j * BPB + bi)) (sb s) = bitmap_block s j"
    unfolding BBLOCK_def bitmap_block_def by presburger
  show "unat (of_nat (j * BPB + bi) :: u32) mod BPB = bi"
    using assms(2) u(1) by simp
qed

text \<open>The state after block \<open>b\<close> has been taken.\<close>

definition took :: "u32 \<Rightarrow> 'a fs_state_scheme \<Rightarrow> 'a fs_state_scheme \<Rightarrow> bool" where
  "took b s t \<longleftrightarrow> unat b < unat (sb_size (sb s)) \<and> \<not> in_use s b
     \<and> view t = (view s)(BBLOCK b (sb s) := mark_bit (unat b mod BPB) (view s (BBLOCK b (sb s))), b := memset 0 0 BSIZE (view s b))"

text \<open>The disk as \<^verbatim>\<open>balloc\<close> wants it: the bitmap lies in \<open>X\<close>, is not held, and says that it and the held blocks are in use.\<close>

definition disk_ok :: "u32 set \<Rightarrow> u32 set \<Rightarrow> 'a fs_state_scheme \<Rightarrow> bool" where
  "disk_ok X L s \<longleftrightarrow> L \<subseteq> X \<and> bitmap s \<subseteq> X - L \<and> sb_size (sb s) \<le> disksize s
     \<and> (\<forall>x \<in> bitmap s \<union> L. in_use s x \<and> x < sb_size (sb s))"

lemma disk_ok_cong: "view t = view s \<Longrightarrow> kept me s t \<Longrightarrow> disk_ok X L t = disk_ok X L s"
  by (simp add: disk_ok_def kept_def bitmap_def bitmap_block_def in_use_def)

lemma balloc_body_ok:
  fixes s :: "'a fs_state_scheme"
  assumes t: "txn X (Suc k) L s" and d: "disk_ok X L s" and j: "j < (unat (sb_size (sb s)) + BPB - 1) div BPB"
  shows "case find (bit_clear (view s (bitmap_block s j))) [0..<min BPB (unat (sb_size (sb s)) - j * BPB)] of
      None \<Rightarrow> \<exists>u. balloc_body me 1 j s = Inr (Next u) \<and> txn X (Suc k) L u \<and> view u = view s \<and> kept me s u
    | Some bi \<Rightarrow> \<exists>b u. balloc_body me 1 j s = Inr (Leave b u) \<and> txn (insert b X) k L u \<and> took b s u \<and> kept me s u"
proof -
  let ?n = "bitmap_block s j" and ?z = "unat (sb_size (sb s))"
  have "?n \<in> bitmap s"
    using j by (simp add: bitmap_def)
  then have n: "?n \<in> bitmap s" "?n \<in> X - L" "L \<subseteq> X" "?n < disksize s"
    using d unfolding disk_ok_def by (auto intro: order_less_le_trans)
  obtain bp u w where r: "bread me 1 ?n s = Inr (bp, u)" "bdata (bbuf u bp) = view s ?n" "kept me s u" "brelse me bp u = Inr w"
    "txn X (Suc k) L w" "view w = view s" "kept me s w"
    using read_block [OF t n(3) _ n(4), of me] n(2) by blast
  have u: "sb u = sb s"
    using keptD [OF r(3)] by simp
  show ?thesis
  proof (cases "find (bit_clear (view s ?n)) [0..<min BPB (?z - j * BPB)]")
    case None
    then show ?thesis
      using r u by (simp add: balloc_body_def bitmap_block_def Let_def)
  next
    case (Some bi)
    then have bi: "bi < BPB" "j * BPB + bi < ?z" "bit_clear (view s ?n) bi"
      using find_SomeD [OF Some] by auto
    have "?z < 0x100000000"
      using unsigned_less [of "sb_size (sb s)"] by simp
    then have z: "j * BPB + bi < 0x100000000"
      using bi(2) by simp
    obtain b :: u32 where e: "of_nat (j * BPB + bi) = b"
      by simp
    have b: "unat b = j * BPB + bi" "BBLOCK b (sb s) = ?n" "unat b mod BPB = bi"
      using unat_of_nat_small [OF z] BBLOCK_split(1) [OF z bi(1), of s] bi(1) unfolding e by simp_all
    have free: "\<not> in_use s b"
      using bi(3) b by (simp add: in_use_def)
    then have out: "b \<notin> L" "b \<noteq> ?n" "b < disksize s"
      using d n(1) b(1) bi(2) unfolding disk_ok_def by (auto simp: word_less_nat_alt word_le_nat_alt)
    obtain bp' u' where c: "bread me 1 ?n s = Inr (bp', u')"
      "\<forall>d. \<exists>v w. log_write bp' (set_data bp' d u') = Inr v \<and> brelse me bp' v = Inr w \<and> txn X (Suc k) L w
        \<and> view w = (view s)(?n := d) \<and> kept me s v \<and> kept me s w"
      using change_block [OF t n(3,2,4), of me] by blast
    obtain v x where x: "log_write bp (set_data bp (mark_bit bi (view s ?n)) u) = Inr v" "brelse me bp v = Inr x"
      "txn X (Suc k) L x" "view x = (view s)(?n := mark_bit bi (view s ?n))" "kept me s x"
      using c r(1) by (metis Pair_inject sum.inject(2))
    have "b < disksize x" "L \<subseteq> insert b X" "b \<in> insert b X - L"
      using out n(3) keptD [OF x(5)] by auto
    from bzero_ok [OF txn_insert [OF x(3)] this(2,3,1), of me] obtain y where y: "bzero me 1 b x = Inr y" "txn (insert b X) k L y"
      "view y = (view x)(b := memset 0 0 BSIZE (view x b))" "kept me x y"
      by blast
    have "balloc_body me 1 j s = Inr (Leave b y)"
      using Some r(1,2) u x(1,2) y(1) e by (simp add: balloc_body_def bitmap_block_def Let_def mark_bit_def)
    moreover have "took b s y"
      unfolding took_def b(2,3) using b(1) bi(2) free y(3) x(4) out(2) by simp
    ultimately show ?thesis
      using Some y(2) kept_trans [OF x(5) y(4)] by auto
  qed
qed

lemma balloc_loop:
  fixes s :: "'a fs_state_scheme"
  assumes "txn X (Suc k) L s" "disk_ok X L s" "set js \<subseteq> {0..<(unat (sb_size (sb s)) + BPB - 1) div BPB}"
    and "\<exists>j\<in>set js. find (bit_clear (view s (bitmap_block s j))) [0..<min BPB (unat (sb_size (sb s)) - j * BPB)] \<noteq> None"
  shows "\<exists>b t. for_each (balloc_body me 1) js s = Inr (Leave b t) \<and> txn (insert b X) k L t \<and> took b s t \<and> kept me s t"
  using assms
proof (induction js arbitrary: s)
  case (Cons j js)
  have j: "j < (unat (sb_size (sb s)) + BPB - 1) div BPB"
    using Cons.prems(3) by simp
  note b = balloc_body_ok [OF Cons.prems(1,2) j, of me]
  show ?case
  proof (cases "find (bit_clear (view s (bitmap_block s j))) [0..<min BPB (unat (sb_size (sb s)) - j * BPB)]")
    case None
    then obtain u where u: "balloc_body me 1 j s = Inr (Next u)" "txn X (Suc k) L u" "view u = view s" "kept me s u"
      using b by auto
    note k = keptD [OF u(4)]
    have n: "bitmap_block u = bitmap_block s"
      using k by (simp add: bitmap_block_def [abs_def])
    have "\<exists>b t. for_each (balloc_body me 1) js u = Inr (Leave b t) \<and> txn (insert b X) k L t \<and> took b u t \<and> kept me u t"
      using Cons.prems None k n u(3) disk_ok_cong [OF u(3,4)] by (intro Cons.IH [OF u(2)]) auto
    moreover have "took b u t = took b s t" for b t
      using k u(3) by (simp add: took_def in_use_def)
    ultimately show ?thesis
      using u(1) kept_trans [OF u(4)] by auto
  next
    case (Some bi)
    then show ?thesis
      using b by auto
  qed
qed simp

lemma balloc_ok:
  fixes s :: "'a fs_state_scheme"
  assumes "txn X (Suc k) L s" "disk_ok X L s" "unat x < unat (sb_size (sb s))" "\<not> in_use s x"
  shows "\<exists>b t. balloc me 1 s = Inr (b, t) \<and> txn (insert b X) k L t \<and> took b s t \<and> kept me s t"
proof -
  let ?j = "unat x div BPB" and ?i = "unat x mod BPB" and ?z = "unat (sb_size (sb s))"
  have x: "?j * BPB + ?i = unat x" "?i < BPB"
    by simp_all
  then have l: "?i < ?z - ?j * BPB"
    using assms(3) by linarith
  have "?j < (?z + BPB - 1) div BPB"
    using assms(3) by (simp add: div_less_iff_less_mult less_mult_imp_div_less)
  moreover have "unat x < 0x100000000"
    using unsigned_less [of x] by simp
  then have "bit_clear (view s (bitmap_block s ?j)) ?i"
    using assms(4) BBLOCK_split(1) [of ?j ?i s] by (simp add: in_use_def)
  then have "find (bit_clear (view s (bitmap_block s ?j))) [0..<min BPB (?z - ?j * BPB)] \<noteq> None"
    using l x(2) by (auto simp: find_None_iff simp del: mod_less_divisor intro!: exI [of _ ?i])
  ultimately have "\<exists>b t. for_each (balloc_body me 1) [0..<(?z + BPB - 1) div BPB] s = Inr (Leave b t)
      \<and> txn (insert b X) k L t \<and> took b s t \<and> kept me s t"
    using assms(1,2) by (intro balloc_loop) auto
  then show ?thesis
    by (auto simp: balloc_def)
qed

end
