(* ===== verification/FileMap.thy ===== *)
theory FileMap
  imports FsStore
begin

text \<open>
  Which block of the disk holds which part of a file, and what \<^verbatim>\<open>bmap\<close> does to this assignment: a block that is
  missing is taken from the bitmap and zeroed, and everything else stays as it is.
\<close>

section \<open>The blocks of a file\<close>

text \<open>Slot \<open>i\<close> of a file is the address of its block \<open>i\<close>, slot 140 that of the block of addresses; 0 is an empty slot.\<close>

definition slot_of :: "'a fs_state_scheme \<Rightarrow> nat \<Rightarrow> nat \<Rightarrow> u32" where
  "slot_of s p i =
     (let A = iaddrs (icache s p)
      in if i < 12 then A i
         else if i = 140 then A 12
         else if A 12 = 0 then 0
         else load32 (view s (A 12)) (4 * of_nat (i - 12)))"

definition inode_blk :: "'a fs_state_scheme \<Rightarrow> nat \<Rightarrow> u32" where
  "inode_blk s p = IBLOCK (inum (icache s p)) (sb s)"

text \<open>
  The blocks of the file, the bitmap and the block of the inode are different blocks of the file system, all
  marked in the bitmap.
\<close>

definition file_ok :: "'a fs_state_scheme \<Rightarrow> nat \<Rightarrow> bool" where
  "file_ok s p \<longleftrightarrow> idev (icache s p) = 1 \<and> sb_size (sb s) \<le> disksize s \<and> in_use s 0 \<and> inode_blk s p \<notin> bitmap s
     \<and> (\<forall>x \<in> insert (inode_blk s p) (bitmap s). in_use s x \<and> x < sb_size (sb s))
     \<and> (\<forall>i\<le>140. slot_of s p i \<noteq> 0 \<longrightarrow> in_use s (slot_of s p i) \<and> slot_of s p i < sb_size (sb s)
          \<and> slot_of s p i \<notin> insert (inode_blk s p) (bitmap s))
     \<and> (\<forall>i\<le>140. \<forall>j\<le>140. slot_of s p i \<noteq> 0 \<and> slot_of s p i = slot_of s p j \<longrightarrow> i = j)"

lemma file_okD:
  assumes "file_ok s p"
  shows "idev (icache s p) = 1" "sb_size (sb s) \<le> disksize s" "in_use s 0" "inode_blk s p \<notin> bitmap s"
    "x \<in> bitmap s \<Longrightarrow> in_use s x \<and> x < sb_size (sb s)" "in_use s (inode_blk s p)" "inode_blk s p < sb_size (sb s)"
    "i \<le> 140 \<Longrightarrow> slot_of s p i \<noteq> 0 \<Longrightarrow> in_use s (slot_of s p i) \<and> slot_of s p i < sb_size (sb s)"
    "i \<le> 140 \<Longrightarrow> slot_of s p i \<noteq> 0 \<Longrightarrow> slot_of s p i \<noteq> inode_blk s p \<and> slot_of s p i \<notin> bitmap s"
    "i \<le> 140 \<Longrightarrow> j \<le> 140 \<Longrightarrow> slot_of s p i \<noteq> 0 \<Longrightarrow> slot_of s p i = slot_of s p j \<Longrightarrow> i = j"
  using assms unfolding file_ok_def by blast+

text \<open>Filling an empty slot with a block that was free.\<close>

definition same_disk :: "nat \<Rightarrow> 'a fs_state_scheme \<Rightarrow> 'a fs_state_scheme \<Rightarrow> bool" where
  "same_disk p s t \<longleftrightarrow> sb t = sb s \<and> disksize t = disksize s
     \<and> (\<exists>A. icache t = (icache s)(p := (icache s p)\<lparr>iaddrs := A\<rparr>))"

lemma same_diskD:
  assumes "same_disk p s t"
  shows "sb t = sb s" "disksize t = disksize s" "idev (icache t p) = idev (icache s p)" "inum (icache t p) = inum (icache s p)"
    "isize (icache t p) = isize (icache s p)" "itype (icache t p) = itype (icache s p)" "bitmap t = bitmap s" "inode_blk t p = inode_blk s p"
    "imajor (icache t p) = imajor (icache s p)"
  using assms by (auto simp: same_disk_def bitmap_def bitmap_block_def inode_blk_def)

lemma same_disk_kept: "kept me s t \<Longrightarrow> same_disk p s t"
  unfolding same_disk_def kept_def by (intro conjI exI [of _ "iaddrs (icache s p)"]) auto

lemma same_disk_upd: "same_disk p s (upd_inode p (\<lambda>ip. ip\<lparr>iaddrs := f (iaddrs ip)\<rparr>) s)"
  unfolding same_disk_def upd_inode_def by auto

lemma same_disk_trans: "same_disk p s t \<Longrightarrow> same_disk p t u \<Longrightarrow> same_disk p s u"
  unfolding same_disk_def by auto

lemma file_ok_extend:
  assumes f: "file_ok s p" and d: "same_disk p s t" and a: "\<not> in_use s a" "a < sb_size (sb s)"
    and u: "\<And>x. x < sb_size (sb s) \<Longrightarrow> in_use t x \<longleftrightarrow> in_use s x \<or> x = a"
    and sl: "\<And>i. i \<le> 140 \<Longrightarrow> slot_of t p i = (if i = e then a else slot_of s p i)"
  shows "file_ok t p"
proof -
  note fs = file_okD [OF f] and ds = same_diskD [OF d]
  have z: "0 < sb_size (sb s)"
    using a(2) by (metis word_neq_0_conv word_not_simps(1))
  have out: "a \<noteq> inode_blk s p" "a \<notin> bitmap s" "\<And>i. i \<le> 140 \<Longrightarrow> slot_of s p i \<noteq> 0 \<Longrightarrow> slot_of s p i \<noteq> a"
    using a(1) fs(5,6,8) by metis+
  show ?thesis
    unfolding file_ok_def ds(1,2,3,7,8)
  proof (intro conjI allI ballI impI)
    fix i
    assume i: "i \<le> 140" "slot_of t p i \<noteq> 0"
    show "in_use t (slot_of t p i)" "slot_of t p i < sb_size (sb s)" "slot_of t p i \<notin> insert (inode_blk s p) (bitmap s)"
      using i sl [OF i(1)] fs(8,9) [OF i(1)] a(2) out(1,2) u by (auto split: if_splits)
  next
    fix i j
    assume ij: "i \<le> 140" "j \<le> 140" "slot_of t p i \<noteq> 0 \<and> slot_of t p i = slot_of t p j"
    then show "i = j"
      using sl [OF ij(1)] sl [OF ij(2)] out(3) [OF ij(1)] out(3) [OF ij(2)] fs(10) [OF ij(1,2)] by (auto split: if_splits)
  qed (use fs u z in auto)
qed

section \<open>Taking a block from the bitmap\<close>

lemma BBLOCK_in_bitmap:
  fixes s :: "'a fs_state_scheme"
  assumes "x < sb_size (sb s)"
  shows "BBLOCK x (sb s) \<in> bitmap s"
proof -
  let ?j = "unat x div BPB" and ?z = "unat (sb_size (sb s))"
  have x: "unat x < ?z"
    using assms by (simp add: word_less_nat_alt)
  have "unat x < 0x100000000"
    using unsigned_less [of x] by simp
  then have "BBLOCK x (sb s) = bitmap_block s ?j"
    using BBLOCK_split(1) [of ?j "unat x mod BPB" s] by simp
  moreover have "?j < (?z + BPB - 1) div BPB"
    using x by (simp add: div_less_iff_less_mult less_mult_imp_div_less)
  ultimately show ?thesis
    by (simp add: bitmap_def)
qed

lemma BBLOCK_same:
  assumes "BBLOCK x sbk = BBLOCK y sbk" "unat x mod BPB = unat y mod BPB"
  shows "x = y"
proof -
  have "unat (x div 4096) = unat (y div 4096)"
    using assms(1) by (simp add: BBLOCK_def)
  then have "unat x div 4096 = unat y div 4096"
    by (simp add: unat_div)
  then show ?thesis
    using assms(2) by (metis div_mult_mod_eq word_unat_eq_iff)
qed

lemma took_facts:
  fixes s t :: "'a fs_state_scheme"
  assumes tk: "took a s t" and sb: "sb t = sb s" and meta: "\<And>x. x \<in> bitmap s \<Longrightarrow> in_use s x"
  shows "\<not> in_use s a" "a < sb_size (sb s)" "x < sb_size (sb s) \<Longrightarrow> in_use t x \<longleftrightarrow> in_use s x \<or> x = a"
    "in_use s x \<Longrightarrow> x \<notin> bitmap s \<Longrightarrow> view t x = view s x" "view t a = fill 0 512 0 (view s a)"
proof -
  show a: "\<not> in_use s a" "a < sb_size (sb s)"
    using tk by (simp_all add: took_def word_less_nat_alt)
  let ?n = "BBLOCK a (sb s)"
  have n: "?n \<in> bitmap s" "?n \<noteq> a"
    using BBLOCK_in_bitmap [OF a(2)] meta a(1) by auto
  have v: "view t = (view s)(?n := mark_bit (unat a mod BPB) (view s ?n), a := memset 0 0 BSIZE (view s a))"
    using tk by (simp add: took_def)
  then show "view t x = view s x" if "in_use s x" "x \<notin> bitmap s"
    using that a(1) n(1) by auto
  show "view t a = fill 0 512 0 (view s a)"
    using v n(2) by (simp add: memset_fill)
  show "in_use t x \<longleftrightarrow> in_use s x \<or> x = a" if x: "x < sb_size (sb s)"
  proof -
    have m: "BBLOCK x (sb s) \<noteq> a"
      using BBLOCK_in_bitmap [OF x] meta a(1) by auto
    show ?thesis
    proof (cases "BBLOCK x (sb s) = ?n")
      case True
      then show ?thesis
        using v m BBLOCK_same [OF True] bit_clear_mark [of "unat a mod BPB" "unat x mod BPB" "view s ?n"] by (auto simp: in_use_def sb)
    next
      case False
      then show ?thesis
        using v m by (auto simp: in_use_def sb)
    qed
  qed
qed

definition free_blocks :: "'a fs_state_scheme \<Rightarrow> u32 set" where
  "free_blocks s = {x. x < sb_size (sb s) \<and> \<not> in_use s x}"

definition zero_block :: "block \<Rightarrow> bool" where
  "zero_block d \<longleftrightarrow> (\<forall>i. unat i < 512 \<longrightarrow> d i = 0)"

lemma take_block:
  fixes s :: "'a fs_state_scheme"
  assumes f: "file_ok s p" and x: "txn X (Suc k) L s" and L: "L \<subseteq> X" "bitmap s \<subseteq> X - L" "\<And>x. x \<in> L \<Longrightarrow> in_use s x \<and> x < sb_size (sb s)"
    and fr: "free_blocks s \<noteq> {}"
  shows "\<exists>a t. balloc me 1 s = Inr (a, t) \<and> txn (insert a X) k L t \<and> kept me s t \<and> a \<noteq> 0 \<and> \<not> in_use s a \<and> a < sb_size (sb s)
    \<and> (\<forall>x < sb_size (sb s). in_use t x \<longleftrightarrow> in_use s x \<or> x = a) \<and> (\<forall>x. in_use s x \<and> x \<notin> bitmap s \<longrightarrow> view t x = view s x)
    \<and> zero_block (view t a) \<and> free_blocks t = free_blocks s - {a}"
proof -
  have "disk_ok X L s"
    using file_okD(2,5) [OF f] L unfolding disk_ok_def by blast
  moreover obtain y where "unat y < unat (sb_size (sb s))" "\<not> in_use s y"
    using fr by (auto simp: free_blocks_def word_less_nat_alt)
  ultimately obtain a t where t: "balloc me 1 s = Inr (a, t)" "txn (insert a X) k L t" "took a s t" "kept me s t"
    using balloc_ok [OF x, of y me] by blast
  have sb: "sb t = sb s"
    using keptD [OF t(4)] by simp
  note tf = took_facts [OF t(3) sb] and meta = file_okD(5) [OF f, THEN conjunct1]
  have "zero_block (view t a)"
    using tf(5) meta by (simp add: zero_block_def fill_def)
  moreover have "free_blocks t = free_blocks s - {a}"
    using tf(3) meta sb by (auto simp: free_blocks_def)
  moreover have "a \<noteq> 0"
    using tf(1) meta file_okD(3) [OF f] by metis
  ultimately show ?thesis
    using t tf meta by (intro exI [of _ a] exI [of _ t]) blast
qed

section \<open>Growing a file\<close>

text \<open>Blocks that belong to something else.\<close>

definition foreign :: "'a fs_state_scheme \<Rightarrow> nat \<Rightarrow> u32 \<Rightarrow> bool" where
  "foreign s p x \<longleftrightarrow> in_use s x \<and> x < sb_size (sb s) \<and> x \<notin> bitmap s \<and> (\<forall>i\<le>140. slot_of s p i = x \<longrightarrow> x = 0)"

text \<open>The file has kept its blocks and may have got new ones, which were free; nothing foreign has changed.\<close>

definition extends :: "nat \<Rightarrow> 'a fs_state_scheme \<Rightarrow> 'a fs_state_scheme \<Rightarrow> bool" where
  "extends p s t \<longleftrightarrow> same_disk p s t \<and> file_ok t p
     \<and> (\<forall>i\<le>140. slot_of s p i \<noteq> 0 \<longrightarrow> slot_of t p i = slot_of s p i)
     \<and> (\<forall>i\<le>140. slot_of s p i = 0 \<and> slot_of t p i \<noteq> 0 \<longrightarrow> \<not> in_use s (slot_of t p i))
     \<and> (\<forall>x. foreign s p x \<longrightarrow> in_use t x \<and> view t x = view s x)
     \<and> (\<forall>x < sb_size (sb s). in_use s x \<longrightarrow> in_use t x)"

lemma extendsD:
  assumes "extends p s t"
  shows "same_disk p s t" "file_ok t p" "i \<le> 140 \<Longrightarrow> slot_of s p i \<noteq> 0 \<Longrightarrow> slot_of t p i = slot_of s p i"
    "i \<le> 140 \<Longrightarrow> slot_of s p i = 0 \<Longrightarrow> slot_of t p i \<noteq> 0 \<Longrightarrow> \<not> in_use s (slot_of t p i)"
    "foreign s p x \<Longrightarrow> in_use t x \<and> view t x = view s x" "x < sb_size (sb s) \<Longrightarrow> in_use s x \<Longrightarrow> in_use t x"
  using assms unfolding extends_def by blast+

lemma extends_foreign: "extends p s t \<Longrightarrow> foreign s p x \<Longrightarrow> foreign t p x"
proof -
  assume g: "extends p s t" and x: "foreign s p x"
  note ds = same_diskD [OF extendsD(1) [OF g]]
  have "slot_of t p i = x \<Longrightarrow> x = 0" if "i \<le> 140" for i
    using extendsD(3,4) [OF g that] x that unfolding foreign_def by metis
  then show ?thesis
    using extendsD(5) [OF g x] x ds(1,7) by (simp add: foreign_def)
qed

lemma extends_trans:
  assumes g: "extends p s t" and h: "extends p t u"
  shows "extends p s u"
proof -
  note gs = extendsD [OF g] and hs = extendsD [OF h] and ds = same_diskD [OF extendsD(1) [OF g]]
  have lt: "slot_of u p i < sb_size (sb s)" if "i \<le> 140" "slot_of u p i \<noteq> 0" for i
    using file_okD(8) [OF hs(2) that] same_diskD(1) [OF hs(1)] ds(1) by simp
  show ?thesis
    unfolding extends_def
  proof (intro conjI allI impI)
    show "same_disk p s u"
      using same_disk_trans [OF gs(1) hs(1)] .
    fix i
    assume i: "i \<le> 140" "slot_of s p i = 0 \<and> slot_of u p i \<noteq> 0"
    show "\<not> in_use s (slot_of u p i)"
      using i gs(4) [OF i(1)] hs(3,4) [OF i(1)] gs(6) [of "slot_of u p i"] lt [OF i(1)] by metis
  next
    fix x
    assume "foreign s p x"
    with gs(5) [of x] hs(5) [of x] extends_foreign [OF g, of x] show "in_use u x" "view u x = view s x"
      by simp_all
  qed (use gs hs ds in auto)
qed

text \<open>Here also the contents of the old blocks are the same, and the new blocks are zero.\<close>

definition grown :: "nat \<Rightarrow> 'a fs_state_scheme \<Rightarrow> 'a fs_state_scheme \<Rightarrow> bool" where
  "grown p s t \<longleftrightarrow> extends p s t
     \<and> (\<forall>i<140. slot_of s p i \<noteq> 0 \<longrightarrow> view t (slot_of s p i) = view s (slot_of s p i))
     \<and> (\<forall>i<140. slot_of s p i = 0 \<and> slot_of t p i \<noteq> 0 \<longrightarrow> zero_block (view t (slot_of t p i)))"

lemma grownD:
  assumes "grown p s t"
  shows "same_disk p s t" "file_ok t p" "i \<le> 140 \<Longrightarrow> slot_of s p i \<noteq> 0 \<Longrightarrow> slot_of t p i = slot_of s p i" "extends p s t"
    "i < 140 \<Longrightarrow> slot_of s p i \<noteq> 0 \<Longrightarrow> view t (slot_of s p i) = view s (slot_of s p i)"
    "i < 140 \<Longrightarrow> slot_of s p i = 0 \<Longrightarrow> slot_of t p i \<noteq> 0 \<Longrightarrow> zero_block (view t (slot_of t p i))"
  using assms unfolding grown_def extends_def by blast+

lemma grown_refl: "file_ok s p \<Longrightarrow> grown p s s"
  using same_disk_kept [OF kept_refl] by (auto simp: grown_def extends_def foreign_def)

lemma grown_trans:
  assumes g: "grown p s t" and h: "grown p t u"
  shows "grown p s u"
proof -
  note gs = grownD [OF g] and hs = grownD [OF h]
  have "view u (slot_of s p i) = view s (slot_of s p i)" if "i < 140" "slot_of s p i \<noteq> 0" for i
    using that gs(5) [OF that] gs(3) [of i] hs(5) [of i] by simp
  moreover have "zero_block (view u (slot_of u p i))" if "i < 140" "slot_of s p i = 0" "slot_of u p i \<noteq> 0" for i
    using that gs(6) [OF that(1)] hs(5,6) [OF that(1)] hs(3) [of i] by (metis less_imp_le_nat)
  ultimately show ?thesis
    unfolding grown_def using extends_trans [OF gs(4) hs(4)] by blast
qed

text \<open>The three ways in which \<^verbatim>\<open>bmap\<close> fills a slot.\<close>

lemma slot_of_inode [simp]:
  "i < 12 \<Longrightarrow> slot_of s p i = iaddrs (icache s p) i" "slot_of s p 140 = iaddrs (icache s p) 12"
  by (simp_all add: slot_of_def)

lemma slot_of_entry:
  "12 \<le> i \<Longrightarrow> i < 140 \<Longrightarrow> slot_of s p i = (if slot_of s p 140 = 0 then 0 else load32 (view s (slot_of s p 140)) (4 * of_nat (i - 12)))"
  by (simp add: slot_of_def Let_def)

lemma grown_extend:
  assumes f: "file_ok s p" and d: "same_disk p s t" and a: "a \<noteq> 0" "\<not> in_use s a" "a < sb_size (sb s)"
    and u: "\<And>x. x < sb_size (sb s) \<Longrightarrow> in_use t x \<longleftrightarrow> in_use s x \<or> x = a"
    and e: "e \<le> 140" "slot_of s p e = 0" and sl: "\<And>i. i \<le> 140 \<Longrightarrow> slot_of t p i = (if i = e then a else slot_of s p i)"
    and v: "\<And>x. in_use s x \<Longrightarrow> x \<notin> bitmap s \<Longrightarrow> (x = slot_of s p 140 \<Longrightarrow> x = 0) \<Longrightarrow> view t x = view s x"
    and z: "zero_block (view t a)"
  shows "grown p s t"
proof -
  have ok: "file_ok t p"
    using file_ok_extend [OF f d a(2,3) u sl] by blast
  have data: "view t (slot_of s p i) = view s (slot_of s p i)" if "i < 140" "slot_of s p i \<noteq> 0" for i
    using that file_okD(8,9) [OF f, of i] file_okD(10) [OF f, of i 140] by (intro v) auto
  have other: "view t x = view s x" if "foreign s p x" for x
    using that unfolding foreign_def by (intro v) auto
  show ?thesis
    unfolding grown_def extends_def using d ok sl data other z a(2) u e by (auto simp: foreign_def split: if_splits)
qed

lemma view_cong: "bbuf t = bbuf s \<Longrightarrow> disk t = disk s \<Longrightarrow> view t = view s"
  by (simp add: view_def [abs_def] cached_def cong: option.case_cong)

lemma upd_inode_sel [simp]:
  "bbuf (upd_inode p f s) = bbuf s" "disk (upd_inode p f s) = disk s" "disk_writes (upd_inode p f s) = disk_writes s"
  "sb (upd_inode p f s) = sb s" "disksize (upd_inode p f s) = disksize s" "icache (upd_inode p f s) = (icache s)(p := f (icache s p))"
  "log_size (upd_inode p f s) = log_size s" "log_outstanding (upd_inode p f s) = log_outstanding s"
  "entries (upd_inode p f s) = entries s"
  by (simp_all add: upd_inode_def entries_def)

lemma upd_inode_view [simp]:
  "view (upd_inode p f s) = view s" "store_of (upd_inode p f s) = store_of s" "cache_ok bs (upd_inode p f s) = cache_ok bs s"
  by (rule view_cong, simp_all) (rule store_cong, simp_all add: cache_ok_def lru_def)

lemma upd_inode_disk [simp]:
  "txn X k L (upd_inode p f s) = txn X k L s" "in_use (upd_inode p f s) = in_use s" "bitmap (upd_inode p f s) = bitmap s"
  "free_blocks (upd_inode p f s) = free_blocks s"
  by (simp_all add: txn_def in_use_def fun_eq_iff bitmap_def bitmap_block_def free_blocks_def)

text \<open>A new direct block, or the block of addresses (\<open>j = 12\<close>).\<close>

lemma zero_load32: "zero_block d \<Longrightarrow> unat x < 509 \<Longrightarrow> load32 d x = 0"
proof -
  assume z: "zero_block d" and x: "unat x < 509"
  have "unat (x + 1) = unat x + 1" "unat (x + 2) = unat x + 2" "unat (x + 3) = unat x + 3"
    using x by (simp_all add: unat_add_lem [THEN iffD1])
  then show ?thesis
    using z x by (simp add: load32_def zero_block_def)
qed

lemma unat_4n: "n < 128 \<Longrightarrow> unat (4 * of_nat n :: u32) = 4 * n"
  using unat_of_nat_small [of "4 * n"] by simp

lemma take_slot:
  fixes s :: "'a fs_state_scheme"
  assumes f: "file_ok s p" and x: "txn X (Suc k) {} s" and X: "bitmap s \<subseteq> X" and fr: "free_blocks s \<noteq> {}"
    and j: "j \<le> 12" "iaddrs (icache s p) j = 0"
  shows "\<exists>a t. balloc me 1 s = Inr (a, t) \<and> a \<noteq> 0 \<and> a \<in> free_blocks s
    \<and> (\<forall>t'. t' = upd_inode p (\<lambda>ip. ip\<lparr>iaddrs := (iaddrs ip)(j := a)\<rparr>) t \<longrightarrow>
        grown p s t' \<and> txn (insert a X) k {} t' \<and> free_blocks t' = free_blocks s - {a}
        \<and> (\<forall>i\<le>140. slot_of t' p i = (if i = (if j = 12 then 140 else j) then a else slot_of s p i)))"
proof -
  obtain a t where t: "balloc me 1 s = Inr (a, t)" "txn (insert a X) k {} t" "kept me s t" "a \<noteq> 0" "\<not> in_use s a"
    "a < sb_size (sb s)" "\<forall>x < sb_size (sb s). in_use t x \<longleftrightarrow> in_use s x \<or> x = a"
    "\<forall>x. in_use s x \<and> x \<notin> bitmap s \<longrightarrow> view t x = view s x" "zero_block (view t a)" "free_blocks t = free_blocks s - {a}"
    using take_block [OF f x _ _ _ fr, of me] X by auto
  note k = keptD [OF t(3)]
  let ?t = "upd_inode p (\<lambda>ip. ip\<lparr>iaddrs := (iaddrs ip)(j := a)\<rparr>) t" and ?i = "if j = 12 then 140 else j"
  have sl: "slot_of ?t p i = (if i = ?i then a else slot_of s p i)" if i: "i \<le> 140" for i
  proof (cases "i < 12 \<or> i = 140")
    case True
    then show ?thesis
      using j k by auto
  next
    case False
    then have i': "12 \<le> i" "i < 140"
      using i by simp_all
    show ?thesis
    proof (cases "j = 12")
      case True
      have "unat (4 * of_nat (i - 12) :: u32) < 509"
        using i' unat_4n [of "i - 12"] by simp
      then have "load32 (view t a) (4 * of_nat (i - 12)) = 0"
        by (rule zero_load32 [OF t(9)])
      then show ?thesis
        using True i' j(2) t(4) k by (simp add: slot_of_entry)
    next
      case False
      have "view t (iaddrs (icache s p) 12) = view s (iaddrs (icache s p) 12)" if "iaddrs (icache s p) 12 \<noteq> 0"
        using file_okD(8,9) [OF f, of 140] t(8) that by simp
      then show ?thesis
        using False i' j(1) k by (auto simp: slot_of_entry)
    qed
  qed
  have "same_disk p s ?t"
    using same_disk_trans [OF same_disk_kept [OF t(3)] same_disk_upd] .
  then have "grown p s ?t"
    using f t sl j k by (intro grown_extend [where a = a and e = ?i]) auto
  then show ?thesis
    using t sl by (intro exI [of _ a] exI [of _ t]) (auto simp: free_blocks_def)
qed

text \<open>An entry of the block of addresses, which is held meanwhile.\<close>

lemma store_entry:
  assumes "n < 128" "m < 128"
  shows "load32 (store32 (4 * of_nat n) a d) (4 * of_nat m) = (if m = n then a else load32 d (4 * of_nat m))"
proof -
  have "(4 * of_nat n :: u32) = 4 * of_nat m \<longleftrightarrow> n = m"
    using unat_4n [OF assms(1)] unat_4n [OF assms(2)] by (metis mult_left_cancel zero_neq_numeral)
  moreover have "(4 * of_nat k :: u32) mod 4 = 0" if "k < 128" for k
    using unat_4n [OF that] by (simp add: word_unat_eq_iff unat_mod)
  ultimately show ?thesis
    using assms load32_store32_other by auto
qed

definition need :: "'a fs_state_scheme \<Rightarrow> nat \<Rightarrow> nat" where
  "need s p = (if slot_of s p 140 = 0 then 1 else 0)"

definition bmap_done :: "nat \<Rightarrow> nat \<Rightarrow> u32 set \<Rightarrow> nat \<Rightarrow> 'a fs_state_scheme \<Rightarrow> u32 \<Rightarrow> 'a fs_state_scheme \<Rightarrow> bool" where
  "bmap_done p n X k s a t \<longleftrightarrow> grown p s t \<and> a \<noteq> 0 \<and> (\<forall>i<140. slot_of t p i = (if i = n then a else slot_of s p i))
     \<and> (\<exists>X'. insert a X \<subseteq> X' \<and> (slot_of t p 140 \<noteq> 0 \<longrightarrow> slot_of t p 140 \<in> X') \<and> txn X' (k + need t p) {} t)
     \<and> card (free_blocks s) + need t p \<le> Suc (card (free_blocks t)) + need s p"

lemma bmap_doneI:
  assumes "grown p s t" "a \<noteq> 0" "\<And>i. i < 140 \<Longrightarrow> slot_of t p i = (if i = n then a else slot_of s p i)" "insert a X \<subseteq> Y"
    "slot_of t p 140 \<noteq> 0 \<Longrightarrow> slot_of t p 140 \<in> Y" "txn Y (k + need t p) {} t"
    "card (free_blocks s) + need t p \<le> Suc (card (free_blocks t)) + need s p"
  shows "bmap_done p n X k s a t"
  unfolding bmap_done_def using assms by blast

lemma finite_free [simp]: "finite (free_blocks s)"
  by (rule finite_subset [OF subset_UNIV]) simp

lemma disk_view_cong:
  fixes s t :: "'a fs_state_scheme"
  assumes "view t = view s" "icache t = icache s" "sb t = sb s" "disksize t = disksize s"
  shows "slot_of t p = slot_of s p" "in_use t = in_use s" "bitmap t = bitmap s" "free_blocks t = free_blocks s"
    "file_ok t p = file_ok s p" "same_disk p s t" "file_ok s p \<Longrightarrow> grown p s t"
proof -
  show e: "slot_of t p = slot_of s p" "in_use t = in_use s" "bitmap t = bitmap s" "free_blocks t = free_blocks s"
    unfolding slot_of_def [abs_def] in_use_def [abs_def] bitmap_def bitmap_block_def [abs_def] free_blocks_def assms by (rule refl)+
  have "inode_blk t p = inode_blk s p"
    using assms by (simp add: inode_blk_def)
  then show o: "file_ok t p = file_ok s p"
    using assms e by (simp add: file_ok_def)
  show d: "same_disk p s t"
    using assms unfolding same_disk_def by (intro conjI exI [of _ "iaddrs (icache s p)"]) auto
  show "grown p s t" if "file_ok s p"
    using that assms e o d by (auto simp: grown_def extends_def foreign_def)
qed

lemma entry_ok:
  fixes s :: "'a fs_state_scheme"
  assumes f: "file_ok s p" and x: "txn X (Suc k) {} s" and X: "bitmap s \<subseteq> X" "slot_of s p 140 \<in> X" "slot_of s p 140 \<noteq> 0"
    and fr: "free_blocks s \<noteq> {}" and n: "12 \<le> n" "n < 140"
  shows "\<exists>a t. andthen (bread me 1 (slot_of s p 140) s) (\<lambda>(bp, s).
        let a = load32 (bdata (bbuf s bp)) (4 * of_nat (n - 12))
        in andthen (if a = 0 then andthen (balloc me 1 s) (\<lambda>(a, s).
               andthen (log_write bp (set_data bp (store32 (4 * of_nat (n - 12)) a (bdata (bbuf s bp))) s)) (\<lambda>s. Inr (a, s)))
             else Inr (a, s)) (\<lambda>(a, s). andthen (brelse me bp s) (\<lambda>s. Inr (a, s)))) = Inr (a, t)
      \<and> bmap_done p n X k s a t"
proof -
  let ?d = "slot_of s p 140" and ?m = "n - 12"
  have d: "in_use s ?d" "?d < sb_size (sb s)" "?d \<notin> bitmap s" "?d < disksize s"
    using file_okD(8,9) [OF f, of 140] file_okD(2) [OF f] X(3) by (auto intro: order_less_le_trans)
  obtain bp u where u: "bread me 1 ?d s = Inr (bp, u)" "txn X (Suc k) {?d} u" "holds me bp ?d u" "bdata (bbuf u bp) = view s ?d"
    "view u = view s" "settled ?d (store_of u)" "kept me s u"
    using txn_bread [OF x _ _ d(4), of me] by auto
  have ku: "icache u = icache s" "sb u = sb s" "disksize u = disksize s"
    using keptD [OF u(7)] by simp_all
  note us = disk_view_cong [OF u(5) ku]
  let ?e = "load32 (view s ?d) (4 * of_nat ?m)"
  have e: "slot_of s p n = ?e"
    using n X(3) slot_of_entry [of n s p] by simp
  show ?thesis
  proof (cases "?e = 0")
    case False
    obtain w where w: "brelse me bp u = Inr w" "txn X (Suc k) {} w" "view w = view u" "icache w = icache u" "sb w = sb u" "disksize w = disksize u"
      using txn_brelse [OF u(2,3,6)] by auto
    have kw: "view w = view s" "icache w = icache s" "sb w = sb s" "disksize w = disksize s"
      using ku u(5) w by simp_all
    note ws = disk_view_cong [OF kw]
    have "grown p s w"
      using ws(7) [OF f] .
    moreover have "txn (insert ?e X) k {} w"
      using txn_insert [OF w(2)] .
    ultimately have "bmap_done p n X k s ?e w"
      using False ws e X(2,3) kw by (intro bmap_doneI [where Y = "insert ?e X"]) (simp_all add: need_def)
    then show ?thesis
      using u(1,4) w(1) False by (intro exI [of _ ?e] exI [of _ w]) simp
  next
    case True
    have fu: "file_ok u p"
      using f us(5) by simp
    have pre: "{?d} \<subseteq> X" "bitmap u \<subseteq> X - {?d}" "\<And>x. x \<in> {?d} \<Longrightarrow> in_use u x \<and> x < sb_size (sb u)" "free_blocks u \<noteq> {}"
      using X d fr us ku by auto
    obtain a t where t: "balloc me 1 u = Inr (a, t)" "txn (insert a X) k {?d} t" "kept me u t" "a \<noteq> 0" "\<not> in_use s a"
      "a < sb_size (sb s)" "\<forall>x < sb_size (sb s). in_use t x \<longleftrightarrow> in_use s x \<or> x = a"
      "\<forall>x. in_use s x \<and> x \<notin> bitmap s \<longrightarrow> view t x = view s x" "zero_block (view t a)" "free_blocks t = free_blocks s - {a}"
      using take_block [OF fu u(2) pre(1,2) pre(3) pre(4), of me] u(5) us(2-4) ku by auto
    have kt: "icache t = icache s" "sb t = sb s" "disksize t = disksize s" "holds me bp ?d t"
      using keptD [OF t(3)] ku t(3) u(3) by (simp_all add: kept_def)
    have dt: "bdata (bbuf t bp) = view s ?d"
      using bc.held_data [OF txnD(1) [OF t(2)] kt(4)] t(8) d(1,3) by (simp add: store_of_def)
    let ?w = "store32 (4 * of_nat ?m) a (view s ?d)"
    obtain v where v: "log_write bp (set_data bp ?w t) = Inr v" "txn (insert a X) k {?d} v" "holds me bp ?d v" "view v = (view t)(?d := ?w)"
      "settled ?d (store_of v)" "kept me t v"
      using txn_log_write [OF t(2) kt(4), of ?w] X(2) by auto
    obtain w where w: "brelse me bp v = Inr w" "txn (insert a X) k {} w" "view w = view v" "icache w = icache v" "sb w = sb v" "disksize w = disksize v"
      using txn_brelse [OF v(2,3,5)] by auto
    have kw: "icache w = icache s" "sb w = sb s" "disksize w = disksize s"
      using w(4-6) keptD [OF v(6)] kt by simp_all
    have ad: "a \<noteq> ?d"
      using t(5) d(1) by auto
    have sl: "slot_of w p i = (if i = n then a else slot_of s p i)" if i: "i \<le> 140" for i
    proof (cases "i < 12 \<or> i = 140")
      case False
      then show ?thesis
        using i n X(3) kw w(3) v(4) store_entry [of ?m "i - 12" a "view s ?d"] slot_of_entry [of i s p] slot_of_entry [of i w p] by auto
    qed (use n kw in auto)
    have use: "in_use w x \<longleftrightarrow> in_use t x" if "x < sb_size (sb s)" for x
    proof -
      have "BBLOCK x (sb s) \<noteq> ?d"
        using BBLOCK_in_bitmap [OF that] d(3) by auto
      then show ?thesis
        using w(3) v(4) kw kt by (simp add: in_use_def)
    qed
    have "same_disk p s w"
      using kw unfolding same_disk_def by (intro conjI exI [of _ "iaddrs (icache s p)"]) auto
    then have g: "grown p s w"
      using f t use sl e True n w(3) v(4) ad X(3) by (intro grown_extend [where a = a and e = n]) auto
    have "free_blocks w = free_blocks s - {a}" "a \<in> free_blocks s"
      using t(5-7) use kw by (auto simp: free_blocks_def)
    then have "card (free_blocks s) = Suc (card (free_blocks w))"
      by (metis card.remove finite_free)
    then have "bmap_done p n X k s a w"
      using g t(4) sl w(2) X(2,3) kw n by (intro bmap_doneI [where Y = "insert a X"]) (simp_all add: need_def)
    then show ?thesis
      using u(1,4) True t(1) dt v(1) w(1) by (intro exI [of _ a] exI [of _ w]) simp
  qed
qed

lemma bmap_word:
  fixes bn :: u32
  assumes "12 \<le> unat bn" "unat bn < 140"
  shows "\<not> bn < NDIRECT" "bn - NDIRECT < NINDIRECT" "bn - NDIRECT = of_nat (unat bn - 12)"
proof -
  show "\<not> bn < NDIRECT"
    using assms by (simp add: word_less_nat_alt)
  have u: "unat (bn - NDIRECT) = unat bn - 12"
    using assms by (simp add: unat_sub word_le_nat_alt)
  then show "bn - NDIRECT < NINDIRECT"
    using assms by (simp add: word_less_nat_alt)
  show "bn - NDIRECT = of_nat (unat bn - 12)"
    using arg_cong [OF u, of "of_nat :: nat \<Rightarrow> u32"] by simp
qed

lemma bmap_ok:
  fixes s :: "'a fs_state_scheme"
  assumes f: "file_ok s p" and x: "txn X (Suc (k + need s p)) {} s" and X: "bitmap s \<subseteq> X" "slot_of s p 140 \<noteq> 0 \<Longrightarrow> slot_of s p 140 \<in> X"
    and fr: "need s p < card (free_blocks s)" and n: "unat bn < 140"
  shows "\<exists>a t. bmap me p bn s = Inr (a, t) \<and> bmap_done p (unat bn) X k s a t"
proof (cases "unat bn < 12")
  case direct: True
  then have lt: "bn < NDIRECT"
    by (simp add: word_less_nat_alt)
  let ?a = "iaddrs (icache s p) (unat bn)"
  have sl: "slot_of s p (unat bn) = ?a"
    using direct by simp
  note dev = file_okD(1) [OF f]
  have ne: "free_blocks s \<noteq> {}"
    using fr by auto
  show ?thesis
  proof (cases "?a = 0")
    case True
    from take_slot [OF f x X(1) ne _ True, of me] direct obtain a t' where a: "balloc me 1 s = Inr (a, t')" "a \<noteq> 0" "a \<in> free_blocks s"
      "\<forall>t. t = upd_inode p (\<lambda>ip. ip\<lparr>iaddrs := (iaddrs ip)(unat bn := a)\<rparr>) t' \<longrightarrow>
        grown p s t \<and> txn (insert a X) (k + need s p) {} t \<and> free_blocks t = free_blocks s - {a}
        \<and> (\<forall>i\<le>140. slot_of t p i = (if i = (if unat bn = 12 then 140 else unat bn) then a else slot_of s p i))"
      by auto
    define t where "t = upd_inode p (\<lambda>ip. ip\<lparr>iaddrs := (iaddrs ip)(unat bn := a)\<rparr>) t'"
    have t: "grown p s t" "txn (insert a X) (k + need s p) {} t" "free_blocks t = free_blocks s - {a}"
      "\<And>i. i \<le> 140 \<Longrightarrow> slot_of t p i = (if i = unat bn then a else slot_of s p i)"
      using a(4) t_def direct by auto
    have same: "slot_of t p 140 = slot_of s p 140"
      using t(4) [of 140] direct by simp
    have "card (free_blocks s) = Suc (card (free_blocks t))"
      using a(3) t(3) by (metis card.remove finite_free)
    then have "bmap_done p (unat bn) X k s a t"
      using t a(2) same X(2) by (intro bmap_doneI [where Y = "insert a X"]) (simp_all add: need_def)
    then show ?thesis
      using a(1) True lt dev by (intro exI [of _ a] exI [of _ t]) (simp add: bmap_def Let_def t_def)
  next
    case False
    have "bmap_done p (unat bn) X k s ?a s"
      using False sl X(2) txn_insert [OF x] grown_refl [OF f] by (intro bmap_doneI [where Y = "insert ?a X"]) simp_all
    then show ?thesis
      using False lt by (intro exI [of _ ?a] exI [of _ s]) (simp add: bmap_def Let_def)
  qed
next
  case False
  let ?n = "unat bn"
  have n12: "12 \<le> ?n" "?n < 140"
    using False n by simp_all
  have w: "\<not> bn < NDIRECT" "bn - NDIRECT < NINDIRECT" "bn - NDIRECT = of_nat (?n - 12)"
    using bmap_word [OF n12] by simp_all
  note dev = file_okD(1) [OF f]
  let ?d = "iaddrs (icache s p) 12"
  have step1: "\<exists>d u Y. (if ?d = 0 then andthen (balloc me 1 s) (\<lambda>(a, s).
        Inr (a, upd_inode p (\<lambda>ip. ip\<lparr>iaddrs := (iaddrs ip)(12 := a)\<rparr>) s)) else Inr (?d, s)) = Inr (d, u)
      \<and> grown p s u \<and> d = slot_of u p 140 \<and> d \<noteq> 0 \<and> d \<in> Y \<and> X \<subseteq> Y \<and> txn Y (Suc k) {} u \<and> (\<forall>i<140. slot_of u p i = slot_of s p i)
      \<and> card (free_blocks s) = card (free_blocks u) + need s p"
  proof (cases "?d = 0")
    case True
    have ne: "free_blocks s \<noteq> {}" and x': "txn X (Suc (Suc k)) {} s"
      using fr x True by (auto simp: need_def)
    from take_slot [OF f x' X(1) ne _ True, of me] obtain a t' where a: "balloc me 1 s = Inr (a, t')" "a \<noteq> 0" "a \<in> free_blocks s"
      "\<forall>t. t = upd_inode p (\<lambda>ip. ip\<lparr>iaddrs := (iaddrs ip)(12 := a)\<rparr>) t' \<longrightarrow>
        grown p s t \<and> txn (insert a X) (Suc k) {} t \<and> free_blocks t = free_blocks s - {a}
        \<and> (\<forall>i\<le>140. slot_of t p i = (if i = (if (12::nat) = 12 then 140 else 12) then a else slot_of s p i))"
      by auto
    define t where "t = upd_inode p (\<lambda>ip. ip\<lparr>iaddrs := (iaddrs ip)(12 := a)\<rparr>) t'"
    have t: "grown p s t" "txn (insert a X) (Suc k) {} t" "free_blocks t = free_blocks s - {a}"
      "\<And>i. i \<le> 140 \<Longrightarrow> slot_of t p i = (if i = 140 then a else slot_of s p i)"
      using a(4) t_def by auto
    have "card (free_blocks s) = Suc (card (free_blocks t))"
      using a(3) t(3) by (metis card.remove finite_free)
    then show ?thesis
      using a(1,2) t(1,2) t(4) t(4) [of 140] True by (intro exI [of _ a] exI [of _ t] exI [of _ "insert a X"]) (auto simp: need_def t_def [symmetric])
  next
    case False
    then show ?thesis
      using X(2) x grown_refl [OF f] by (intro exI [of _ ?d] exI [of _ s] exI [of _ X]) (simp add: need_def)
  qed
  then obtain d u Y where u: "(if ?d = 0 then andthen (balloc me 1 s) (\<lambda>(a, s).
        Inr (a, upd_inode p (\<lambda>ip. ip\<lparr>iaddrs := (iaddrs ip)(12 := a)\<rparr>) s)) else Inr (?d, s)) = Inr (d, u)"
      "grown p s u" "d = slot_of u p 140" "d \<noteq> 0" "d \<in> Y" "X \<subseteq> Y" "txn Y (Suc k) {} u" "\<forall>i<140. slot_of u p i = slot_of s p i"
      "card (free_blocks s) = card (free_blocks u) + need s p"
    by blast
  have ub: "bitmap u \<subseteq> Y" "free_blocks u \<noteq> {}"
    using u(6,9) X(1) same_diskD(7) [OF grownD(1) [OF u(2)]] fr by auto
  from entry_ok [OF grownD(2) [OF u(2)] u(7) ub(1) _ _ ub(2) n12, of me] u(3-5) obtain a t where
    t: "andthen (bread me 1 d u) (\<lambda>(bp, s).
        let a = load32 (bdata (bbuf s bp)) (4 * of_nat (?n - 12))
        in andthen (if a = 0 then andthen (balloc me 1 s) (\<lambda>(a, s).
               andthen (log_write bp (set_data bp (store32 (4 * of_nat (?n - 12)) a (bdata (bbuf s bp))) s)) (\<lambda>s. Inr (a, s)))
             else Inr (a, s)) (\<lambda>(a, s). andthen (brelse me bp s) (\<lambda>s. Inr (a, s)))) = Inr (a, t)"
      "bmap_done p ?n Y k u a t"
    by auto
  have "bmap me p bn s = Inr (a, t)"
    unfolding bmap_def Let_def dev w(3) if_not_P [OF w(1)] if_P [OF w(2) [unfolded w(3)]] u(1) andthen_Inr prod.case
    by (rule t(1) [unfolded Let_def])
  moreover have "bmap_done p ?n X k s a t"
  proof -
    have nz: "slot_of t p 140 \<noteq> 0"
      using t(2) u(3,4) grownD(3) [of p u t 140] unfolding bmap_done_def by simp
    obtain Z where "insert a Y \<subseteq> Z" "slot_of t p 140 \<in> Z" "txn Z (k + need t p) {} t"
      using t(2) nz unfolding bmap_done_def by blast
    then show ?thesis
      using t(2) u nz grown_trans [OF u(2), of t] unfolding bmap_done_def [of _ _ Y]
      by (intro bmap_doneI [where Y = Z]) (auto simp: need_def)
  qed
  ultimately show ?thesis
    by blast
qed

end
