(* ===== verification/FileData.thy ===== *)
theory FileData
  imports FileMap Machine
begin

text \<open>
  The contents of a file as a sequence of bytes, and what \<^verbatim>\<open>readi\<close> and \<^verbatim>\<open>writei\<close> do to it.
\<close>

section \<open>Bytes\<close>

definition byte_at :: "'a fs_state_scheme \<Rightarrow> nat \<Rightarrow> nat \<Rightarrow> u8" where
  "byte_at s p i = (let a = slot_of s p (i div 512) in if a = 0 then 0 else view s a (of_nat (i mod 512)))"

abbreviation (input) MAXBYTES :: nat where "MAXBYTES \<equiv> 71680"

lemma unat_small: "i < 512 \<Longrightarrow> unat (of_nat i :: u32) = i"
  by (simp add: unat_of_nat)

lemma grown_bytes:
  assumes "grown p s t" "i < MAXBYTES"
  shows "byte_at t p i = byte_at s p i"
proof -
  have n: "i div 512 < 140" "i mod 512 < 512"
    using assms(2) by simp_all
  note g = grownD [OF assms(1)]
  show ?thesis
  proof (cases "slot_of s p (i div 512) = 0")
    case True
    then show ?thesis
      using g(6) [OF n(1) True] unat_small [OF n(2)] by (auto simp: byte_at_def Let_def zero_block_def)
  next
    case False
    then show ?thesis
      using g(3) [of "i div 512"] g(5) [OF n(1) False] n by (simp add: byte_at_def)
  qed
qed

lemma byte_at_cong:
  fixes s t :: "'a fs_state_scheme"
  shows "view t = view s \<Longrightarrow> icache t = icache s \<Longrightarrow> sb t = sb s \<Longrightarrow> disksize t = disksize s \<Longrightarrow> byte_at t p i = byte_at s p i"
  using disk_view_cong(1) [of t s p] by (auto simp: byte_at_def Let_def)

section \<open>One pass\<close>

definition chunk :: "nat \<Rightarrow> nat \<Rightarrow> nat" where
  "chunk l i = min l (512 - i mod 512)"

lemma unat_io_chunk: "unat (io_chunk left off) = chunk (unat left) (unat off)"
proof -
  have "unat (off mod 512) = unat off mod 512"
    by (simp add: unat_mod)
  then have "unat (512 - off mod 512) = 512 - unat off mod 512"
    by (subst unat_sub) (simp_all add: word_le_nat_alt)
  then show ?thesis
    by (simp add: io_chunk_def Let_def chunk_def word_less_nat_alt min_def)
qed

lemma put_bytes_at:
  assumes "r + length bs \<le> 512" "k < 512"
  shows "put_bytes (of_nat r) bs d (of_nat k) = (if r \<le> k \<and> k < r + length bs then bs ! (k - r) else d (of_nat k))"
proof (cases "r \<le> k")
  case True
  then have "(of_nat k - of_nat r :: u32) = of_nat (k - r)"
    by simp
  then have "unat (of_nat k - of_nat r :: u32) = k - r"
    using assms(2) unat_small [of "k - r"] by simp
  then show ?thesis
    using True by (auto simp: put_bytes_def)
next
  case False
  have "\<not> unat (of_nat k - of_nat r :: u32) < length bs"
  proof
    assume l: "unat (of_nat k - of_nat r :: u32) < length bs"
    have r: "unat (of_nat r :: u32) = r"
      using l assms(1) unat_small [of r] by (cases bs) auto
    have "unat ((of_nat k - of_nat r :: u32) + of_nat r) = unat (of_nat k - of_nat r :: u32) + r"
      using l assms(1) unat_add_small [of "of_nat k - of_nat r" "of_nat r"] unfolding r by simp
    then have "unat (of_nat k :: u32) = unat (of_nat k - of_nat r :: u32) + r"
      by simp
    then show False
      using False assms unat_small [of k] by simp
  qed
  then show ?thesis
    using False by (simp add: put_bytes_def)
qed

lemma get_bytes_at: "r + n \<le> 512 \<Longrightarrow> get_bytes d (of_nat r) n = map (\<lambda>i. d (of_nat i)) [r..<r + n]"
  by (rule nth_equalityI) (simp_all add: get_bytes_def)

text \<open>Overwriting part of a block of the file.\<close>

lemma put_block:
  fixes s t :: "'a fs_state_scheme"
  assumes f: "file_ok s p" and n: "n < 140" "slot_of s p n \<noteq> 0"
    and v: "view t = (view s)(slot_of s p n := d)" and k: "icache t = icache s" "sb t = sb s" "disksize t = disksize s"
  shows "extends p s t" "slot_of t p = slot_of s p" "free_blocks t = free_blocks s"
    "i div 512 = n \<Longrightarrow> byte_at t p i = d (of_nat (i mod 512))" "i < MAXBYTES \<Longrightarrow> i div 512 \<noteq> n \<Longrightarrow> byte_at t p i = byte_at s p i"
proof -
  let ?a = "slot_of s p n"
  have a: "?a \<notin> bitmap s" "?a \<noteq> inode_blk s p"
    using file_okD(9) [OF f, of n] n by simp_all
  have other: "slot_of s p i \<noteq> ?a" if "i \<le> 140" "i \<noteq> n" for i
    using file_okD(10) [OF f _ that(1) n(2)] n(1) that(2) by fastforce
  have ind: "view t (iaddrs (icache s p) 12) = view s (iaddrs (icache s p) 12)"
    using other [of 140] n(1) v by simp
  show sl: "slot_of t p = slot_of s p"
    unfolding slot_of_def [abs_def] Let_def k ind by (rule refl)
  have bm: "bitmap t = bitmap s" "inode_blk t p = inode_blk s p"
    using k by (simp_all add: bitmap_def bitmap_block_def [abs_def] inode_blk_def)
  have use: "in_use t x = in_use s x" if "x < sb_size (sb s)" for x
    using BBLOCK_in_bitmap [OF that] a(1) v k by (auto simp: in_use_def)
  then show "free_blocks t = free_blocks s"
    using k by (auto simp: free_blocks_def)
  have "?a < sb_size (sb s)"
    using file_okD(8) [OF f, of n] n by simp
  then have z: "0 < sb_size (sb s)"
    by (simp add: word_less_nat_alt)
  have ok: "file_ok t p"
    using f use z sl k bm unfolding file_ok_def by auto
  have "same_disk p s t"
    using k unfolding same_disk_def by (intro conjI exI [of _ "iaddrs (icache s p)"]) auto
  moreover have "in_use t x \<and> view t x = view s x" if "foreign s p x" for x
    using that use n v unfolding foreign_def by (metis fun_upd_other less_imp_le_nat)
  ultimately show "extends p s t"
    unfolding extends_def using ok sl use by simp
  show "byte_at t p i = d (of_nat (i mod 512))" if "i div 512 = n"
    using that n v sl by (simp add: byte_at_def)
  show "byte_at t p i = byte_at s p i" if "i < MAXBYTES" "i div 512 \<noteq> n"
    using that v sl other [of "i div 512"] by (auto simp: byte_at_def Let_def)
qed

section \<open>Writing\<close>

text \<open>How many blocks a transfer touches.\<close>

definition nblocks :: "nat \<Rightarrow> nat \<Rightarrow> nat" where
  "nblocks i l = (if l = 0 then 0 else (i mod 512 + l + 511) div 512)"

lemma nblocks_step: "0 < l \<Longrightarrow> nblocks i l = Suc (nblocks (i + chunk l i) (l - chunk l i))"
proof -
  assume l: "0 < l"
  obtain q r where i: "i = q * 512 + r" "r < 512"
    using div_mult_mod_eq [of i 512] mod_less_divisor [of 512 i] by (metis zero_less_numeral)
  then have r: "i mod 512 = r"
    by simp
  show ?thesis
  proof (cases "l \<le> 512 - r")
    case True
    then have "(r + l + 511) div 512 = 1"
      using l i(2) by (intro div_nat_eqI) simp_all
    then show ?thesis
      using True l r by (simp add: nblocks_def chunk_def min_def)
  next
    case False
    then obtain m where m: "l = 512 - r + m" "0 < m"
      by (metis less_imp_add_positive not_le)
    have "i + (512 - r) = (q + 1) * 512"
      using i by simp
    then have "(i + (512 - r)) mod 512 = 0"
      by (simp only: mod_mult_self2_is_0)
    moreover have "r + l + 511 = (m + 511) + 512"
      using m(1) i(2) by simp
    then have "(r + l + 511) div 512 = Suc ((m + 511) div 512)"
      by simp
    ultimately show ?thesis
      using m l r False by (simp add: nblocks_def chunk_def min_def)
  qed
qed

lemma block_of_range:
  assumes "i mod 512 + n \<le> 512" "i \<le> j" "j < i + n"
  shows "j div 512 = i div (512 :: nat)"
proof -
  obtain c where c: "j = i + c" "c < n"
    using assms(2,3) by (metis add_less_cancel_left le_Suc_ex)
  obtain q r where i: "i div 512 = q" "i mod 512 = r"
    by simp
  then have "i = q * 512 + r"
    using div_mult_mod_eq [of i 512] by simp
  moreover have "r + c < 512"
    using assms(1) c(2) i(2) by simp
  ultimately have "j div 512 = q"
    unfolding c(1) by simp
  then show ?thesis
    using i(1) by simp
qed

lemma same_block:
  assumes "j div 512 = i div (512 :: nat)"
  shows "i mod 512 \<le> j mod 512 \<longleftrightarrow> i \<le> j" "j mod 512 < i mod 512 + n \<longleftrightarrow> j < i + n" "j mod 512 - i mod 512 = j - i"
proof -
  obtain q where q: "j = q * 512 + j mod 512" "i = q * 512 + i mod 512"
    using assms by (metis div_mult_mod_eq)
  obtain a b where ab: "j mod 512 = a" "i mod 512 = b"
    by simp
  have "j = q * 512 + a" "i = q * 512 + b"
    using q unfolding ab .
  then show "i mod 512 \<le> j mod 512 \<longleftrightarrow> i \<le> j" "j mod 512 < i mod 512 + n \<longleftrightarrow> j < i + n" "j mod 512 - i mod 512 = j - i"
    unfolding ab by simp_all
qed

definition wrote :: "nat \<Rightarrow> nat \<Rightarrow> u8 list \<Rightarrow> 'a fs_state_scheme \<Rightarrow> 'a fs_state_scheme \<Rightarrow> bool" where
  "wrote p i bs s t \<longleftrightarrow> extends p s t
     \<and> (\<forall>j<MAXBYTES. byte_at t p j = (if i \<le> j \<and> j < i + length bs then bs ! (j - i) else byte_at s p j))
     \<and> (\<forall>j. i \<le> j \<and> j < i + length bs \<longrightarrow> slot_of t p (j div 512) \<noteq> 0)"

lemma wrote_append:
  assumes "wrote p i bs s t" "wrote p (i + length bs) cs t u" "i + length bs + length cs \<le> MAXBYTES"
  shows "wrote p i (bs @ cs) s u"
proof -
  note a = assms(1) [unfolded wrote_def] and b = assms(2) [unfolded wrote_def]
  have e: "extends p t u"
    using b by blast
  have "slot_of u p (j div 512) \<noteq> 0" if "i \<le> j" "j < i + length bs + length cs" for j
  proof (cases "j < i + length bs")
    case True
    then have "slot_of t p (j div 512) \<noteq> 0" "j div 512 \<le> 140"
      using a that(1) assms(3) by auto
    then show ?thesis
      using extendsD(3) [OF e] by simp
  qed (use b that in auto)
  moreover have "byte_at u p j = (if i \<le> j \<and> j < i + length (bs @ cs) then (bs @ cs) ! (j - i) else byte_at s p j)" if "j < MAXBYTES" for j
    using a b that by (auto simp: nth_append)
  ultimately show ?thesis
    unfolding wrote_def using a extends_trans [OF _ e] by auto
qed

text \<open>One pass of the loop of \<^verbatim>\<open>writei\<close>.\<close>

lemma writei_pass:
  fixes s :: "'a fs_state_scheme"
  assumes f: "file_ok s p" and x: "txn X (Suc (k + need s p)) {} s" and X: "bitmap s \<subseteq> X" "slot_of s p 140 \<noteq> 0 \<Longrightarrow> slot_of s p 140 \<in> X"
    and fr: "need s p < card (free_blocks s)" and l: "unat off mod 512 + length bs \<le> 512" "unat off + length bs \<le> MAXBYTES" "bs \<noteq> []"
  shows "\<exists>a t bp u v w Y. bmap me p (off div BSIZE) s = Inr (a, t) \<and> bread me (idev (icache t p)) a t = Inr (bp, u)
    \<and> log_write bp (set_data bp (put_bytes (off mod BSIZE) bs (bdata (bbuf u bp))) u) = Inr v \<and> brelse me bp v = Inr w
    \<and> wrote p (unat off) bs s w \<and> X \<subseteq> Y \<and> (slot_of w p 140 \<noteq> 0 \<longrightarrow> slot_of w p 140 \<in> Y) \<and> txn Y (k + need w p) {} w
    \<and> card (free_blocks s) + need w p \<le> Suc (card (free_blocks w)) + need s p"
proof -
  let ?n = "unat off div 512" and ?r = "unat off mod 512"
  have bn: "unat (off div BSIZE) = ?n" "off mod BSIZE = of_nat ?r"
    by (simp_all add: unat_div word_unat_eq_iff unat_mod unat_small)
  have n: "?n < 140"
    using l(2,3) by (cases bs) auto
  obtain a t where t: "bmap me p (off div BSIZE) s = Inr (a, t)" "bmap_done p ?n X k s a t"
    using bmap_ok [OF f x X fr, of "off div BSIZE" me] n bn(1) by auto
  obtain Y where Y: "insert a X \<subseteq> Y" "slot_of t p 140 \<noteq> 0 \<longrightarrow> slot_of t p 140 \<in> Y" "txn Y (k + need t p) {} t"
    using t(2) unfolding bmap_done_def by blast
  have g: "grown p s t" "a \<noteq> 0" "slot_of t p ?n = a" "card (free_blocks s) + need t p \<le> Suc (card (free_blocks t)) + need s p"
    using t(2) n unfolding bmap_done_def by auto
  note ft = grownD(2) [OF g(1)]
  have a: "a < disksize t" "idev (icache t p) = 1"
    using file_okD(8) [OF ft, of ?n] file_okD(1,2) [OF ft] g(2,3) n by auto
  obtain bp u where u: "bread me 1 a t = Inr (bp, u)" "bdata (bbuf u bp) = view t a"
    "\<forall>d. \<exists>v w. log_write bp (set_data bp d u) = Inr v \<and> brelse me bp v = Inr w \<and> txn Y (k + need t p) {} w
        \<and> view w = (view t)(a := d) \<and> kept me t v \<and> kept me t w"
    using change_block [OF Y(3) _ _ a(1), of me] Y(1) by auto
  let ?d = "put_bytes (of_nat ?r) bs (view t a)"
  obtain v w where w: "log_write bp (set_data bp ?d u) = Inr v" "brelse me bp v = Inr w" "txn Y (k + need t p) {} w"
    "view w = (view t)(a := ?d)" "kept me t w"
    using u(3) by blast
  have pb: "slot_of t p ?n \<noteq> 0" "view w = (view t)(slot_of t p ?n := ?d)" "icache w = icache t" "sb w = sb t" "disksize w = disksize t"
    using g(2,3) w(4) keptD [OF w(5)] by simp_all
  note b = put_block [OF ft n pb]
  have in_block: "j div 512 = ?n" if "unat off \<le> j" "j < unat off + length bs" for j
    using block_of_range [OF l(1) that] .
  have bytes: "byte_at w p j = (if unat off \<le> j \<and> j < unat off + length bs then bs ! (j - unat off) else byte_at s p j)" if j: "j < MAXBYTES" for j
  proof (cases "j div 512 = ?n")
    case True
    then have "?r \<le> j mod 512 \<and> j mod 512 < ?r + length bs \<longleftrightarrow> unat off \<le> j \<and> j < unat off + length bs" "j mod 512 - ?r = j - unat off"
      using same_block [OF True] by simp_all
    moreover have "view t a (of_nat (j mod 512)) = byte_at t p j"
      using True g(2,3) by (simp add: byte_at_def)
    ultimately show ?thesis
      using b(4) [OF True] put_bytes_at [OF l(1), of "j mod 512" "view t a"] grown_bytes [OF g(1) j] by simp
  next
    case False
    then show ?thesis
      using b(5) [OF j False] grown_bytes [OF g(1) j] in_block [of j] by auto
  qed
  have "wrote p (unat off) bs s w"
    unfolding wrote_def using bytes in_block g(2,3) b(2) extends_trans [OF grownD(4) [OF g(1)] b(1)] by auto
  moreover have "need w p = need t p"
    using b(2) by (simp only: need_def)
  ultimately show ?thesis
    using t(1) u w a Y(1,2) g(4) b(2,3) bn(2)
    by (intro exI [of _ a] exI [of _ t] exI [of _ bp] exI [of _ u] exI [of _ v] exI [of _ w] exI [of _ Y]) simp
qed

lemma writei_loop_ok:
  fixes s :: "'a fs_state_scheme"
  assumes "file_ok s p" "txn X (nblocks (unat off) (unat left) + need s p) {} s" "bitmap s \<subseteq> X" "slot_of s p 140 \<noteq> 0 \<Longrightarrow> slot_of s p 140 \<in> X"
    "nblocks (unat off) (unat left) + need s p \<le> card (free_blocks s)" "unat off + unat left \<le> MAXBYTES" "unat left \<le> length src"
  shows "\<exists>t Y. writei_loop me p src off left s = Inr t \<and> wrote p (unat off) (take (unat left) src) s t \<and> X \<subseteq> Y \<and> txn Y (need t p) {} t"
  using assms
proof (induction "unat left" arbitrary: left off src s X rule: less_induct)
  case less
  note f = less.prems(1) and x = less.prems(2) and X = less.prems(3,4) and fr = less.prems(5) and bound = less.prems(6) and len = less.prems(7)
  show ?case
  proof (cases "left = 0")
    case True
    then have "wrote p (unat off) (take (unat left) src) s s"
      using grownD(4) [OF grown_refl [OF f]] by (auto simp: wrote_def)
    moreover have "writei_loop me p src off left s = Inr s"
      using True by (subst writei_loop.simps) simp
    moreover have "txn X (need s p) {} s"
      by (rule txn_less [OF x]) simp
    ultimately show ?thesis
      by blast
  next
    case False
    then have pos: "0 < left" "0 < unat left"
      by (simp_all add: word_neq_0_conv unat_gt_0)
    let ?c = "chunk (unat left) (unat off)" and ?m = "io_chunk left off"
    have m: "unat ?m = ?c" "?c \<le> unat left" "0 < ?c" "unat off mod 512 + ?c \<le> 512"
      using unat_io_chunk pos(2) mod_less_divisor [of 512 "unat off"] by (auto simp: chunk_def)
    have off: "unat (off + ?m) = unat off + ?c" "unat (left - ?m) = unat left - ?c"
      using m bound by (simp_all add: unat_add_lem [THEN iffD1] unat_sub word_le_nat_alt)
    let ?k = "nblocks (unat off + ?c) (unat left - ?c)" and ?bs = "take ?c src"
    have k: "nblocks (unat off) (unat left) = Suc ?k"
      by (rule nblocks_step [OF pos(2)])
    have lb: "length ?bs = ?c" "?bs \<noteq> []"
      using m len by auto
    have pre: "txn X (Suc (?k + need s p)) {} s" "need s p < card (free_blocks s)" "unat off mod 512 + length ?bs \<le> 512"
      "unat off + length ?bs \<le> MAXBYTES"
      using x fr k m bound lb by simp_all
    from writei_pass [OF f pre(1) X pre(2-4) lb(2), of me] obtain a t bp u v w Y where
      w: "bmap me p (off div BSIZE) s = Inr (a, t)" "bread me (idev (icache t p)) a t = Inr (bp, u)"
      "log_write bp (set_data bp (put_bytes (off mod BSIZE) ?bs (bdata (bbuf u bp))) u) = Inr v" "brelse me bp v = Inr w"
      "wrote p (unat off) ?bs s w" "X \<subseteq> Y" "slot_of w p 140 \<noteq> 0 \<longrightarrow> slot_of w p 140 \<in> Y" "txn Y (?k + need w p) {} w"
      "card (free_blocks s) + need w p \<le> Suc (card (free_blocks w)) + need s p"
      by blast
    have ew: "extends p s w"
      using w(5) by (simp add: wrote_def)
    have "bitmap w \<subseteq> Y"
      using X(1) w(6) same_diskD(7) [OF extendsD(1) [OF ew]] by simp
    moreover have "unat (left - ?m) < unat left" "nblocks (unat (off + ?m)) (unat (left - ?m)) = ?k"
      "?k + need w p \<le> card (free_blocks w)" "unat (off + ?m) + unat (left - ?m) \<le> MAXBYTES"
      "unat (left - ?m) \<le> length (drop ?c src)"
      using m bound len fr k w(9) pos unfolding off by simp_all
    ultimately have "\<exists>t Z. writei_loop me p (drop ?c src) (off + ?m) (left - ?m) w = Inr t
        \<and> wrote p (unat (off + ?m)) (take (unat (left - ?m)) (drop ?c src)) w t \<and> Y \<subseteq> Z \<and> txn Z (need t p) {} t"
      using extendsD(2) [OF ew] w(7,8) by (intro less.hyps) simp_all
    then obtain t' Z where t': "writei_loop me p (drop ?c src) (off + ?m) (left - ?m) w = Inr t'"
      "wrote p (unat off + ?c) (take (unat left - ?c) (drop ?c src)) w t'" "Y \<subseteq> Z" "txn Z (need t' p) {} t'"
      unfolding off by blast
    have "writei_loop me p src off left s = Inr t'"
      using pos(1) w(1-4) t'(1) m(1) by (subst writei_loop.simps) (simp add: Let_def)
    moreover have "take (unat left) src = ?bs @ take (unat left - ?c) (drop ?c src)"
      using m(2) by (metis le_add_diff_inverse take_add)
    moreover have "wrote p (unat off) (?bs @ take (unat left - ?c) (drop ?c src)) s t'"
      using t'(2) lb(1) bound m(2) by (intro wrote_append [OF w(5)]) simp_all
    ultimately show ?thesis
      using t'(3,4) w(6) by (intro exI [of _ t'] exI [of _ Z]) auto
  qed
qed

section \<open>Reading\<close>

text \<open>Nothing is held and a buffer is left: reading is possible at any time, also outside of a transaction.\<close>

definition calm :: "'a bio_state_scheme \<Rightarrow> bool" where
  "calm s \<longleftrightarrow> sound s \<and> st_locked (store_of s) = {} \<and> card (st_dirty (store_of s)) < NBUF"

lemma txn_calm: "txn X k {} s \<Longrightarrow> calm s"
proof -
  assume x: "txn X k {} s"
  have "card (st_dirty (store_of s)) \<le> card (set (entries s) \<union> X)"
    using txnD(3,4) [OF x] by (intro card_mono) auto
  then show ?thesis
    using txnD [OF x] by (simp add: calm_def)
qed

lemma read_calm:
  fixes s :: "'a fs_state_scheme"
  assumes "calm s" "n < disksize s"
  shows "\<exists>b u w. bread me 1 n s = Inr (b, u) \<and> bdata (bbuf u b) = view s n \<and> brelse me b u = Inr w \<and> calm w \<and> view w = view s
    \<and> icache u = icache s \<and> icache w = icache s \<and> sb w = sb s \<and> disksize w = disksize s"
proof -
  have q: "sound s" "st_locked (store_of s) = {}" "card (st_dirty (store_of s)) < NBUF"
    using assms(1) by (simp_all add: calm_def)
  have "readable n (store_of s)" "settled n (store_of s)"
    using q bc.transparent [OF q(1), of n] by (auto simp: readable_def settled_def)
  from bc.peek [OF q(1) assms(2) this, of me] obtain b u w where w: "bread me 1 n s = Inr (b, u)"
    "bdata (bbuf u b) = st_view (store_of s) n" "bio_frame s u" "brelse me b u = Inr w" "sound w" "store_of w = store_of s" "bio_frame s w"
    by blast
  have "view w = view s"
    using arg_cong [OF w(6), of st_view] by (simp add: store_of_def)
  then show ?thesis
    using w q bio_frame_fs [OF w(3)] bio_frame_fs [OF w(7)] bio_frame_disksize [OF w(7)]
    by (intro exI [of _ b] exI [of _ u] exI [of _ w]) (simp add: calm_def store_of_def [of s])
qed

lemma bmap_read:
  fixes s :: "'a fs_state_scheme"
  assumes f: "file_ok s p" and q: "calm s" and n: "unat bn < 140" "slot_of s p (unat bn) \<noteq> 0"
  shows "\<exists>t. bmap me p bn s = Inr (slot_of s p (unat bn), t) \<and> calm t \<and> view t = view s \<and> icache t = icache s \<and> sb t = sb s
    \<and> disksize t = disksize s"
proof (cases "unat bn < 12")
  case True
  then have "bn < NDIRECT"
    by (simp add: word_less_nat_alt)
  then show ?thesis
    using True n q by (intro exI [of _ s]) (simp add: bmap_def Let_def)
next
  case False
  let ?d = "iaddrs (icache s p) 12"
  have "12 \<le> unat bn"
    using False by simp
  note w = bmap_word [OF this n(1)]
  have e: "?d \<noteq> 0" "slot_of s p (unat bn) = load32 (view s ?d) (4 * (bn - NDIRECT))"
    using n(2) slot_of_entry [OF \<open>12 \<le> unat bn\<close> n(1), of s p] unfolding w(3) [symmetric] by (auto split: if_splits)
  have "?d < disksize s"
    using file_okD(8) [OF f, of 140] file_okD(2) [OF f] e(1) by auto
  from read_calm [OF q this, of me] obtain b u t where t: "bread me 1 ?d s = Inr (b, u)" "bdata (bbuf u b) = view s ?d" "brelse me b u = Inr t"
    "calm t" "view t = view s" "icache t = icache s" "sb t = sb s" "disksize t = disksize s"
    by blast
  have "bmap me p bn s = Inr (slot_of s p (unat bn), t)"
    using w(1,2) e t(1-3) n(2) file_okD(1) [OF f] by (simp add: bmap_def Let_def)
  then show ?thesis
    using t by blast
qed

lemma readi_loop_ok:
  fixes s :: "'a fs_state_scheme"
  assumes "file_ok s p" "calm s" "\<And>j. unat off \<le> j \<Longrightarrow> j < unat off + unat left \<Longrightarrow> slot_of s p (j div 512) \<noteq> 0" "unat off + unat left \<le> MAXBYTES"
  shows "\<exists>t. readi_loop me p off left s = Inr (map (byte_at s p) [unat off..<unat off + unat left], t) \<and> calm t \<and> view t = view s
    \<and> icache t = icache s \<and> sb t = sb s \<and> disksize t = disksize s"
  using assms
proof (induction "unat left" arbitrary: left off s rule: less_induct)
  case less
  note f = less.prems(1) and q = less.prems(2) and full = less.prems(3) and bound = less.prems(4)
  show ?case
  proof (cases "left = 0")
    case True
    then show ?thesis
      using q by (subst readi_loop.simps) simp
  next
    case False
    then have pos: "0 < left" "0 < unat left"
      by (simp_all add: word_neq_0_conv unat_gt_0)
    let ?c = "chunk (unat left) (unat off)" and ?m = "io_chunk left off" and ?n = "unat off div 512" and ?r = "unat off mod 512"
    have m: "unat ?m = ?c" "?c \<le> unat left" "0 < ?c" "?r + ?c \<le> 512"
      using unat_io_chunk pos(2) mod_less_divisor [of 512 "unat off"] by (auto simp: chunk_def)
    have off: "unat (off + ?m) = unat off + ?c" "unat (left - ?m) = unat left - ?c"
      using m bound by (simp_all add: unat_add_lem [THEN iffD1] unat_sub word_le_nat_alt)
    have bn: "unat (off div BSIZE) = ?n" "off mod BSIZE = of_nat ?r" "?n < 140"
      using bound pos(2) by (simp_all add: unat_div word_unat_eq_iff unat_mod unat_small)
    let ?a = "slot_of s p ?n"
    have a: "?a \<noteq> 0"
      using full [of "unat off"] pos(2) by simp
    obtain t where t: "bmap me p (off div BSIZE) s = Inr (?a, t)" "calm t" "view t = view s" "icache t = icache s" "sb t = sb s" "disksize t = disksize s"
      using bmap_read [OF f q, of "off div BSIZE" me] bn a by auto
    have "?a < disksize t" "idev (icache t p) = 1"
      using file_okD(8) [OF f, of ?n] file_okD(1,2) [OF f] a bn(3) t(4,6) by auto
    from read_calm [OF t(2) this(1), of me] this(2) obtain b u w where w: "bread me (idev (icache t p)) ?a t = Inr (b, u)" "bdata (bbuf u b) = view t ?a"
      "brelse me b u = Inr w" "calm w" "view w = view t" "icache w = icache t" "sb w = sb t" "disksize w = disksize t"
      by auto
    have kw: "view w = view s" "icache w = icache s" "sb w = sb s" "disksize w = disksize s"
      using w t by simp_all
    note cong = disk_view_cong [OF kw] and bytes = byte_at_cong [OF kw]
    have "unat (left - ?m) < unat left" "unat (off + ?m) + unat (left - ?m) = unat off + unat left"
      using m pos unfolding off by simp_all
    moreover have "slot_of w p (j div 512) \<noteq> 0" if "unat (off + ?m) \<le> j" "j < unat (off + ?m) + unat (left - ?m)" for j
      using full [of j] that m unfolding off cong(1) by simp
    ultimately have "\<exists>t'. readi_loop me p (off + ?m) (left - ?m) w
        = Inr (map (byte_at w p) [unat (off + ?m)..<unat (off + ?m) + unat (left - ?m)], t') \<and> calm t' \<and> view t' = view w
        \<and> icache t' = icache w \<and> sb t' = sb w \<and> disksize t' = disksize w"
      using f cong(5) w(4) bound by (intro less.hyps) simp_all
    then obtain t' where t': "readi_loop me p (off + ?m) (left - ?m) w = Inr (map (byte_at w p) [unat off + ?c..<unat off + unat left], t')"
      "calm t'" "view t' = view w" "icache t' = icache w" "sb t' = sb w" "disksize t' = disksize w"
      using m(2) unfolding off by auto
    have "get_bytes (view s ?a) (of_nat ?r) ?c = map (byte_at s p) [unat off..<unat off + ?c]"
    proof (rule nth_equalityI)
      fix i
      assume "i < length (get_bytes (view s ?a) (of_nat ?r) ?c)"
      then have i: "i < ?c"
        by (simp add: get_bytes_def)
      have d: "(unat off + i) div 512 = ?n"
        using block_of_range [OF m(4), of "unat off + i"] i by simp
      have "(unat off + i) mod 512 = ?r + i"
        using same_block(3) [OF d] same_block(1) [OF d] by simp
      then show "get_bytes (view s ?a) (of_nat ?r) ?c ! i = map (byte_at s p) [unat off..<unat off + ?c] ! i"
        using i d a by (simp add: get_bytes_def byte_at_def)
    qed (simp add: get_bytes_def)
    moreover have "map (byte_at s p) [unat off..<unat off + unat left]
        = map (byte_at s p) [unat off..<unat off + ?c] @ map (byte_at s p) [unat off + ?c..<unat off + unat left]"
      using m(2) upt_add_eq_append [of "unat off" "unat off + ?c" "unat left - ?c"] by simp
    ultimately have "readi_loop me p off left s = Inr (map (byte_at s p) [unat off..<unat off + unat left], t')"
      using pos(1) t(1,3) w(1-3) t'(1) m(1) bn(2) bytes by (subst readi_loop.simps) (simp add: Let_def)
    then show ?thesis
      using t' kw by auto
  qed
qed

section \<open>The inode on the disk\<close>

lemma iupdate_ok:
  fixes s :: "'a fs_state_scheme"
  assumes f: "file_ok s p" and x: "txn X k {} s" and X: "inode_blk s p \<in> X"
  shows "\<exists>t. iupdate me p s = Inr t \<and> txn X k {} t \<and> kept me s t
    \<and> view t = (view s)(inode_blk s p := dip_write (dip_off (inum (icache s p))) (icache s p) (view s (inode_blk s p)))"
proof -
  let ?n = "inode_blk s p"
  have n: "?n < disksize s"
    using file_okD(2,7) [OF f] by simp
  obtain b u where u: "bread me 1 ?n s = Inr (b, u)" "bdata (bbuf u b) = view s ?n" "kept me s u"
    "\<forall>d. \<exists>v w. log_write b (set_data b d u) = Inr v \<and> brelse me b v = Inr w \<and> txn X k {} w
        \<and> view w = (view s)(?n := d) \<and> kept me s v \<and> kept me s w"
    using change_block [OF x _ _ n, of me] X by auto
  let ?d = "dip_write (dip_off (inum (icache s p))) (icache s p) (view s ?n)"
  obtain v w where w: "log_write b (set_data b ?d u) = Inr v" "brelse me b v = Inr w" "txn X k {} w" "view w = (view s)(?n := ?d)" "kept me s w"
    using u(4) by blast
  have "iupdate me p s = Inr w"
    using u(1,2) w(1,2) keptD [OF u(3)] file_okD(1) [OF f] by (simp add: iupdate_def inode_blk_def Let_def)
  then show ?thesis
    using w by blast
qed

lemma put_inode:
  fixes s t :: "'a fs_state_scheme"
  assumes f: "file_ok s p" and v: "view t = (view s)(inode_blk s p := d)" and k: "icache t = icache s" "sb t = sb s" "disksize t = disksize s"
  shows "file_ok t p" "slot_of t p = slot_of s p" "i < MAXBYTES \<Longrightarrow> byte_at t p i = byte_at s p i"
proof -
  have other: "slot_of s p i \<noteq> inode_blk s p" if "i \<le> 140" "slot_of s p i \<noteq> 0" for i
    using file_okD(9) [OF f that] by simp
  show sl: "slot_of t p = slot_of s p"
  proof (rule ext)
    show "slot_of t p i = slot_of s p i" for i
      using other [of 140] v k by (auto simp: slot_of_def Let_def)
  qed
  have bm: "bitmap t = bitmap s" "inode_blk t p = inode_blk s p"
    using k by (simp_all add: bitmap_def bitmap_block_def [abs_def] inode_blk_def)
  have "in_use t x = in_use s x" if "x < sb_size (sb s)" for x
    using BBLOCK_in_bitmap [OF that] file_okD(4) [OF f] v k by (auto simp: in_use_def)
  moreover have "0 < sb_size (sb s)"
    using file_okD(7) [OF f] by (simp add: word_less_nat_alt)
  ultimately show "file_ok t p"
    using f sl k bm unfolding file_ok_def by auto
  show "byte_at t p i = byte_at s p i" if "i < MAXBYTES"
    using that v sl other [of "i div 512"] by (auto simp: byte_at_def Let_def)
qed

lemma put_size:
  fixes s :: "'a fs_state_scheme"
  shows "slot_of (upd_inode p (\<lambda>ip. ip\<lparr>isize := z\<rparr>) s) p = slot_of s p" "byte_at (upd_inode p (\<lambda>ip. ip\<lparr>isize := z\<rparr>) s) p = byte_at s p"
    "inode_blk (upd_inode p (\<lambda>ip. ip\<lparr>isize := z\<rparr>) s) p = inode_blk s p" "file_ok (upd_inode p (\<lambda>ip. ip\<lparr>isize := z\<rparr>) s) p = file_ok s p"
proof -
  show a: "slot_of (upd_inode p (\<lambda>ip. ip\<lparr>isize := z\<rparr>) s) p = slot_of s p" "inode_blk (upd_inode p (\<lambda>ip. ip\<lparr>isize := z\<rparr>) s) p = inode_blk s p"
    by (rule ext, auto simp: slot_of_def Let_def) (simp add: inode_blk_def)
  then show "byte_at (upd_inode p (\<lambda>ip. ip\<lparr>isize := z\<rparr>) s) p = byte_at s p"
    by (intro ext) (auto simp: byte_at_def Let_def)
  show "file_ok (upd_inode p (\<lambda>ip. ip\<lparr>isize := z\<rparr>) s) p = file_ok s p"
    by (simp add: file_ok_def a)
qed

section \<open>Properties\<close>

text \<open>No block below the end of the file is missing.\<close>

definition complete :: "'a fs_state_scheme \<Rightarrow> nat \<Rightarrow> bool" where
  "complete s p \<longleftrightarrow> unat (isize (icache s p)) \<le> MAXBYTES \<and> (\<forall>j < unat (isize (icache s p)). slot_of s p (j div 512) \<noteq> 0)"

lemma readi_eq:
  fixes s :: "'a cons_state_scheme"
  assumes "file_ok s p" "calm s" "complete s p" "itype (icache s p) \<noteq> T_DEV" "unat off \<le> unat (isize (icache s p))"
    "unat off + unat n < 0x100000000"
  defines "l \<equiv> min (unat n) (unat (isize (icache s p)) - unat off)"
  shows "\<exists>t. readi me p off n s = Inr (of_nat l, map (byte_at s p) [unat off..<unat off + l], t) \<and> calm t \<and> view t = view s \<and> icache t = icache s"
proof -
  let ?z = "isize (icache s p)"
  have guard: "\<not> off > ?z" "\<not> off + n < off" "unat (off + n) = unat off + unat n"
    using assms(5,6) by (simp_all add: word_less_nat_alt unat_add_lem [THEN iffD1])
  let ?n = "if off + n > ?z then ?z - off else n"
  have n: "unat ?n = l"
    using assms(5) guard(3) by (auto simp: l_def word_less_nat_alt unat_sub word_le_nat_alt)
  have "\<exists>t. readi_loop me p off ?n s = Inr (map (byte_at s p) [unat off..<unat off + unat ?n], t) \<and> calm t \<and> view t = view s
      \<and> icache t = icache s \<and> sb t = sb s \<and> disksize t = disksize s"
    using assms(1-3,5) n by (intro readi_loop_ok) (auto simp: complete_def l_def)
  moreover have "of_nat l = ?n"
    unfolding n [symmetric] by simp
  ultimately show ?thesis
    using assms(4) guard(1,2) n by (auto simp: readi_def Let_def)
qed

text \<open>
  C37. \<^verbatim>\<open>readi\<close> returns the contents of the file: for an offset up to the size it delivers exactly the bytes from
  there to the requested end or the end of the file, whichever comes first, through direct and indirect blocks
  and across block boundaries, without changing anything; an offset beyond the size or a length that wraps around is
  an error and reads nothing.
\<close>

theorem readi_contents:
  fixes s :: "'a cons_state_scheme"
  assumes "file_ok s p" "calm s" "complete s p" "itype (icache s p) \<noteq> T_DEV"
  shows "if off > isize (icache s p) \<or> off + n < off then readi me p off n s = Inr (- 1, [], s)
    else let l = min (unat n) (unat (isize (icache s p)) - unat off)
         in \<exists>t. readi me p off n s = Inr (of_nat l, map (byte_at s p) [unat off..<unat off + l], t) \<and> view t = view s \<and> icache t = icache s"
proof (cases "off > isize (icache s p) \<or> off + n < off")
  case True
  then show ?thesis
    using assms(4) by (auto simp: readi_def)
next
  case False
  then have "unat off \<le> unat (isize (icache s p))" "unat off + unat n < 0x100000000"
    using no_olen_add_nat [of off n] by (auto simp: word_le_nat_alt not_less)
  then show ?thesis
    using False readi_eq [OF assms, of off n me] by (auto simp: Let_def)
qed

text \<open>
  Room for a write: the log can take the bitmap, the block of the inode, the block of addresses and one block for each
  that the write touches, and as many blocks are free.
\<close>

definition write_room :: "nat \<Rightarrow> nat \<Rightarrow> nat \<Rightarrow> 'a fs_state_scheme \<Rightarrow> bool" where
  "write_room p i l s \<longleftrightarrow> txn (insert (inode_blk s p) (bitmap s \<union> ({slot_of s p 140} - {0}))) (nblocks i l + need s p) {} s
     \<and> nblocks i l + need s p \<le> card (free_blocks s)"

lemma writei_loop_room:
  fixes s :: "'a fs_state_scheme"
  assumes "file_ok s p" "write_room p (unat off) (unat n) s" "unat off + unat n \<le> MAXBYTES" "unat n \<le> length src"
  shows "\<exists>t Y. writei_loop me p src off n s = Inr t \<and> wrote p (unat off) (take (unat n) src) s t \<and> inode_blk s p \<in> Y \<and> txn Y (need t p) {} t"
proof -
  let ?X = "insert (inode_blk s p) (bitmap s \<union> ({slot_of s p 140} - {0}))"
  have "\<exists>t Y. writei_loop me p src off n s = Inr t \<and> wrote p (unat off) (take (unat n) src) s t \<and> ?X \<subseteq> Y \<and> txn Y (need t p) {} t"
    using assms by (intro writei_loop_ok) (auto simp: write_room_def)
  then show ?thesis
    by auto
qed

lemma writei_eq:
  fixes s :: "'a cons_state_scheme"
  assumes f: "file_ok s p" and c: "complete s p" and ty: "itype (icache s p) \<noteq> T_DEV" and room: "write_room p (unat off) (unat n) s"
    and b: "unat off \<le> unat (isize (icache s p))" "unat off + unat n \<le> MAXBYTES" "unat n \<le> length src"
  shows "\<exists>t. writei me p src off n s = Inr (n, t) \<and> calm t \<and> file_ok t p \<and> complete t p \<and> itype (icache t p) = itype (icache s p)
    \<and> unat (isize (icache t p)) = max (unat (isize (icache s p))) (unat off + unat n)
    \<and> (\<forall>j<MAXBYTES. byte_at t p j = (if unat off \<le> j \<and> j < unat off + unat n then src ! (j - unat off) else byte_at s p j))
    \<and> (\<forall>x. foreign s p x \<and> x \<noteq> inode_blk s p \<longrightarrow> view t x = view s x) \<and> (\<forall>q. q \<noteq> p \<longrightarrow> icache t q = icache s q)"
proof -
  let ?z = "isize (icache s p)"
  have guard: "\<not> off > ?z" "\<not> off + n < off" "\<not> off + n > MAXFILE * BSIZE" "unat (off + n) = unat off + unat n"
    using b by (simp_all add: word_less_nat_alt unat_add_lem [THEN iffD1])
  obtain t Y where t: "writei_loop me p src off n s = Inr t" "wrote p (unat off) (take (unat n) src) s t" "inode_blk s p \<in> Y" "txn Y (need t p) {} t"
    using writei_loop_room [OF f room b(2,3), of me] by blast
  note e = t(2) [unfolded wrote_def]
  have len: "length (take (unat n) src) = unat n"
    using b(3) by simp
  have ex: "extends p s t"
    using e by blast
  note ds = same_diskD [OF extendsD(1) [OF ex]]
  have ic: "icache t q = icache s q" if "q \<noteq> p" for q
    using extendsD(1) [OF ex] that by (auto simp: same_disk_def)
  have bytes: "\<forall>j<MAXBYTES. byte_at t p j = (if unat off \<le> j \<and> j < unat off + unat n then src ! (j - unat off) else byte_at s p j)"
    using e unfolding len by auto
  have slots: "slot_of t p (j div 512) \<noteq> 0" if "j < max (unat ?z) (unat off + unat n)" for j
  proof (cases "j < unat ?z")
    case True
    then have "slot_of s p (j div 512) \<noteq> 0" "j div 512 \<le> 140"
      using c by (auto simp: complete_def)
    then show ?thesis
      using extendsD(3) [OF ex] by simp
  next
    case False
    then show ?thesis
      using e that b(1) unfolding len by auto
  qed
  have zmax: "max (unat ?z) (unat off + unat n) \<le> MAXBYTES"
    using c b(2) by (simp add: complete_def)
  show ?thesis
  proof (cases "n > 0 \<and> off + n > ?z")
    case False
    then have "max (unat ?z) (unat off + unat n) = unat ?z"
      using guard(4) b(1) by (auto simp: word_less_nat_alt word_neq_0_conv)
    moreover have "writei me p src off n s = Inr (n, t)"
      using False guard(1-3) ty t(1) ds(5) by (auto simp: writei_def Let_def)
    ultimately show ?thesis
      using ds(5,6) slots zmax bytes ic extendsD(2,5) [OF ex] txn_calm [OF t(4)] by (intro exI [of _ t]) (simp add: complete_def)
  next
    case True
    let ?u = "upd_inode p (\<lambda>ip. ip\<lparr>isize := off + n\<rparr>) t"
    have u: "file_ok ?u p" "txn Y (need t p) {} ?u" "inode_blk ?u p \<in> Y"
      using extendsD(2) [OF ex] t(3,4) ds(8) by (simp_all add: put_size)
    obtain w where w: "iupdate me p ?u = Inr w" "txn Y (need t p) {} w" "kept me ?u w"
      "view w = (view ?u)(inode_blk ?u p := dip_write (dip_off (inum (icache ?u p))) (icache ?u p) (view ?u (inode_blk ?u p)))"
      using iupdate_ok [OF u, of me] by blast
    note kw = keptD [OF w(3)]
    note pi = put_inode [OF u(1) w(4) kw [THEN conjunct1] kw [THEN conjunct2, THEN conjunct1] kw [THEN conjunct2, THEN conjunct2]]
    have "max (unat ?z) (unat off + unat n) = unat (off + n)"
      using True guard(4) by (simp add: word_less_nat_alt)
    moreover have "writei me p src off n s = Inr (n, w)"
      using True guard(1-3) ty t(1) ds(5) w(1) by (simp add: writei_def Let_def)
    moreover have "view w x = view s x" if "foreign s p x" "x \<noteq> inode_blk s p" for x
      using extendsD(5) [OF ex that(1)] w(4) ds(8) that(2) by (simp add: put_size)
    moreover have "byte_at w p j = byte_at t p j" if "j < MAXBYTES" for j
      using pi(3) [OF that] by (simp add: put_size)
    moreover have "slot_of w p = slot_of t p"
      using pi(2) by (simp add: put_size)
    ultimately show ?thesis
      using pi(1) txn_calm [OF w(2)] bytes slots zmax kw ds(6) ic by (intro exI [of _ w]) (simp add: complete_def)
  qed
qed

text \<open>
  C38. \<^verbatim>\<open>writei\<close> followed by \<^verbatim>\<open>readi\<close>: writing \<open>n\<close> bytes at an offset up to the size of the file succeeds, whether blocks
  are overwritten or new ones, direct or indirect, have to be found in the bitmap. Afterwards exactly the bytes of
  that range have changed, the size covers them, the blocks of the file are still different ones marked in the
  bitmap, no block that belongs to something else has changed apart from the block of the inode, and \<^verbatim>\<open>readi\<close>
  returns what was written.
\<close>

theorem writei_readi:
  fixes s :: "'a cons_state_scheme"
  assumes "file_ok s p" "complete s p" "itype (icache s p) \<noteq> T_DEV" "write_room p (unat off) (unat n) s"
    and "unat off \<le> unat (isize (icache s p))" "unat off + unat n \<le> MAXBYTES" "unat n \<le> length src"
  shows "\<exists>t. writei me p src off n s = Inr (n, t) \<and> file_ok t p \<and> complete t p
    \<and> unat (isize (icache t p)) = max (unat (isize (icache s p))) (unat off + unat n)
    \<and> (\<forall>j<MAXBYTES. byte_at t p j = (if unat off \<le> j \<and> j < unat off + unat n then src ! (j - unat off) else byte_at s p j))
    \<and> (\<forall>x. foreign s p x \<and> x \<noteq> inode_blk s p \<longrightarrow> view t x = view s x) \<and> (\<forall>q. q \<noteq> p \<longrightarrow> icache t q = icache s q)
    \<and> (\<exists>u. readi me p off n t = Inr (n, take (unat n) src, u))"
proof -
  obtain t where t: "writei me p src off n s = Inr (n, t)" "calm t" "file_ok t p" "complete t p" "itype (icache t p) = itype (icache s p)"
    "unat (isize (icache t p)) = max (unat (isize (icache s p))) (unat off + unat n)"
    "\<forall>j<MAXBYTES. byte_at t p j = (if unat off \<le> j \<and> j < unat off + unat n then src ! (j - unat off) else byte_at s p j)"
    "\<forall>x. foreign s p x \<and> x \<noteq> inode_blk s p \<longrightarrow> view t x = view s x" "\<forall>q. q \<noteq> p \<longrightarrow> icache t q = icache s q"
    using writei_eq [OF assms, of me] by blast
  have "map (byte_at t p) [unat off..<unat off + unat n] = take (unat n) src"
    using t(7) assms(6,7) by (intro nth_equalityI) simp_all
  moreover have "min (unat n) (unat (isize (icache t p)) - unat off) = unat n"
    using t(6) by simp
  ultimately have "\<exists>u. readi me p off n t = Inr (n, take (unat n) src, u)"
    using readi_eq [OF t(3,2,4), of off n me] t(5,6) assms(3,6) by (auto simp: max_def split: if_splits)
  then show ?thesis
    using t by (intro exI [of _ t]) simp
qed

text \<open>An empty file on a disk whose first 64 blocks are in use.\<close>

definition file_machine :: file_state where
  "file_machine = upd_inode 0 (\<lambda>_. free_inode\<lparr>idev := 1, inum := 1, iref := 1, ivalid := True, itype := T_FILE, inlink := 1\<rparr>)
     ((binit (machine\<lparr>disk := (\<lambda>n i. if n = 58 \<and> i < 8 then 0xff else 0)\<rparr>))\<lparr>log_outstanding := 1\<rparr>)"

lemma file_machine_ok:
  "view file_machine = (\<lambda>n i. if n = 58 \<and> i < 8 then 0xff else 0)" "txn {32, 58} 3 {} file_machine" "calm file_machine"
  "sb file_machine = sb machine" "disksize file_machine = 1000"
proof -
  let ?m = "machine\<lparr>disk := (\<lambda>n i. if n = 58 \<and> i < 8 then 0xff else 0)\<rparr>"
  have z: "zeroed ?m"
    using zeroed_machine by (simp add: zeroed_def)
  note S = cleanD [OF clean_binit(1) [OF z]] and fr = bio_frame_binit [of ?m]
  have f: "log_size (binit ?m) = 30" "lh_n (binit ?m) = 0" "sb (binit ?m) = sb machine" "disksize (binit ?m) = 1000"
    using bio_frame_log [OF fr] bio_frame_fs [OF fr] bio_frame_disksize [OF fr] by simp_all
  have "view (binit ?m) = disk ?m"
    using binit_ok(5) [of ?m, OF z [unfolded zeroed_def, rule_format]] .
  then show "view file_machine = (\<lambda>n i. if n = 58 \<and> i < 8 then 0xff else 0)"
    unfolding file_machine_def upd_inode_view by (subst view_cong [of _ "binit ?m"]) simp_all
  show x: "txn {32, 58} 3 {} file_machine"
    using S f unfolding file_machine_def upd_inode_disk by (simp add: txn_def entries_def)
  show "calm file_machine"
    by (rule txn_calm [OF x])
  show "sb file_machine = sb machine" "disksize file_machine = 1000"
    using f by (simp_all add: file_machine_def)
qed

lemma file_machine_blocks:
  "bitmap file_machine = {58}" "inode_blk file_machine 0 = 32" "slot_of file_machine 0 i = 0" "need file_machine 0 = 1"
  "b < 64 \<Longrightarrow> in_use file_machine b" "64 \<le> b \<Longrightarrow> b < 1000 \<Longrightarrow> \<not> in_use file_machine b"
proof -
  have s: "sb file_machine = \<lparr>sb_size = 1000, sb_nblocks = 941, sb_ninodes = 200, sb_nlog = 30, sb_logstart = 2, sb_inodestart = 32, sb_bmapstart = 58\<rparr>"
    using file_machine_ok(4) by (simp add: machine_def)
  show "bitmap file_machine = {58}"
    by (simp add: bitmap_def bitmap_block_def BBLOCK_def s)
  show "inode_blk file_machine 0 = 32"
    unfolding inode_blk_def by (simp add: IBLOCK_def s) (simp add: file_machine_def)
  show n: "slot_of file_machine 0 i = 0" for i
    by (simp add: slot_of_def file_machine_def free_inode_def)
  show "need file_machine 0 = 1"
    unfolding need_def n by simp
  have bb: "b div 4096 = 0" "unat b mod 4096 = unat b" if "b < 1000" for b :: u32
    using that by (simp_all add: word_unat_eq_iff unat_div word_less_nat_alt)
  have w: "(of_nat (unat b div 8) :: u32) < 8 \<longleftrightarrow> unat b < 64" if "b < 1000" for b :: u32
  proof -
    have "unat (of_nat (unat b div 8) :: u32) = unat b div 8"
      using that by (simp add: unat_of_nat word_less_nat_alt)
    then show ?thesis
      by (simp add: word_less_nat_alt) linarith
  qed
  have bits: "bit (0xff :: u8) i" if "i < 8" for i
    using that by (simp add: less_Suc_eq numeral_eq_Suc) auto
  show "in_use file_machine b" if "b < 64"
  proof -
    have "b < 1000"
      using that by (simp add: word_less_nat_alt)
    then show ?thesis
      using bb w that bits by (simp add: in_use_def BBLOCK_def s file_machine_ok(1) bit_clear_iff word_less_nat_alt)
  qed
  show "\<not> in_use file_machine b" if "64 \<le> b" "b < 1000"
    using bb [OF that(2)] w [OF that(2)] that(1) by (simp add: in_use_def BBLOCK_def s file_machine_ok(1) bit_clear_iff word_le_nat_alt)
qed

lemma file_machine_ready:
  "file_ok file_machine 0" "complete file_machine 0" "itype (icache file_machine 0) \<noteq> T_DEV" "isize (icache file_machine 0) = 0"
  "write_room 0 (unat (0 :: u32)) (unat (700 :: u32)) file_machine"
proof -
  have i: "icache file_machine 0 = free_inode\<lparr>idev := 1, inum := 1, iref := 1, ivalid := True, itype := T_FILE, inlink := 1\<rparr>"
    by (simp add: file_machine_def)
  have z: "sb_size (sb file_machine) = 1000"
    using file_machine_ok(4) by (simp add: machine_def)
  show "file_ok file_machine 0"
    unfolding file_ok_def using file_machine_blocks(5) [of 0] file_machine_blocks(5) [of 32] file_machine_blocks(5) [of 58]
    by (simp add: file_machine_blocks(1,2,3) file_machine_ok(5) z i)
  show "complete file_machine 0" "itype (icache file_machine 0) \<noteq> T_DEV" "isize (icache file_machine 0) = 0"
    by (simp_all add: complete_def i free_inode_def)
  have "{64, 65, 66} \<subseteq> free_blocks file_machine"
    using file_machine_blocks(6) by (simp add: free_blocks_def z)
  then have "card {64, 65, 66 :: u32} \<le> card (free_blocks file_machine)"
    by (intro card_mono) simp_all
  then show "write_room 0 (unat (0 :: u32)) (unat (700 :: u32)) file_machine"
    using file_machine_ok(2) unfolding write_room_def file_machine_blocks(1,2,3,4) by (simp add: nblocks_def insert_commute)
qed

theorem writei_readi_witness:
  "\<exists>t u. writei 0 0 (replicate 700 7) 0 700 file_machine = Inr (700, t) \<and> readi 0 0 0 700 t = Inr (700, replicate 700 7, u)"
  using writei_readi [OF file_machine_ready(1,2,3,5), of "replicate 700 7" 0] by auto

theorem readi_contents_witness:
  "\<exists>(t :: file_state) u. isize (icache t 0) = 700 \<and> readi 0 0 600 200 t = Inr (100, replicate 100 7, u)"
proof -
  obtain t :: file_state where t: "calm t" "file_ok t 0" "complete t 0" "itype (icache t 0) = itype (icache file_machine 0)"
    "unat (isize (icache t 0)) = 700"
    "\<forall>j<MAXBYTES. byte_at t 0 j = (if j < 700 then replicate 700 7 ! j else byte_at file_machine 0 j)"
    using writei_eq [OF file_machine_ready(1,2,3,5), of "replicate 700 7" 0] file_machine_ready(4) by (auto cong: if_cong)
  have z: "isize (icache t 0) = 700"
    using t(5) by (simp add: word_unat_eq_iff)
  have "map (byte_at t 0) [600..<600 + 100] = map (\<lambda>_. 7) [600..<600 + 100]"
    using t(6) by (intro map_cong refl) (simp only: atLeastLessThan_iff set_upt, simp)
  then have "map (byte_at t 0) [600..<600 + 100] = replicate 100 7"
    by (simp only: map_replicate_const length_upt add_diff_cancel_left')
  then show ?thesis
    using readi_contents [OF t(2,1,3), of 600 200 0] t(4) file_machine_ready(3) z by (auto simp: Let_def simp del: upt_conv_Cons_Cons upt_rec_numeral)
qed

end
