(* ===== verification/Ide.thy ===== *)
theory Ide
  imports BufCache
begin

text \<open>
  The disk driver of \<^verbatim>\<open>ide.c\<close>: a queue of buffers linked by \<^verbatim>\<open>qnext\<close>, of which the first is being
  transferred; \<^verbatim>\<open>iderw\<close> appends a request and waits, the interrupt handler finishes the first one and
  starts the next. The controller behind the ports is a parameter; \<open>ata_controller\<close> lists what the
  driver relies on. The theorems show that the driver does what the memory disk of \<^verbatim>\<open>memide.c\<close> does
  (\<^const>\<open>iderw\<close> of \<open>Bio\<close>, on which the file system is verified), and that every request is served.
\<close>

section \<open>The driver\<close>

text \<open>
  The port instructions of \<^verbatim>\<open>x86.h\<close>. A block passes through \<^verbatim>\<open>insl\<close> and \<^verbatim>\<open>outsl\<close> as a whole; the last
  number is the count of 32-bit words.
\<close>

record 'd ide_io =
  inb :: "u16 \<Rightarrow> 'd \<Rightarrow> u8 \<times> 'd"
  outb :: "u16 \<Rightarrow> u8 \<Rightarrow> 'd \<Rightarrow> 'd"
  insl :: "u16 \<Rightarrow> nat \<Rightarrow> 'd \<Rightarrow> block \<times> 'd"
  outsl :: "u16 \<Rightarrow> block \<Rightarrow> nat \<Rightarrow> 'd \<Rightarrow> 'd"

text \<open>The field \<^verbatim>\<open>qnext\<close> of the buffers is kept beside them, by index.\<close>

record 'd ide_state = bio_state +
  idequeue :: "nat option"
  qnext :: "nat \<Rightarrow> nat option"
  havedisk1 :: bool
  controller :: 'd

abbreviation (input) SECTOR_SIZE :: u32 where "SECTOR_SIZE \<equiv> 512"
abbreviation (input) FSSIZE :: u32 where "FSSIZE \<equiv> 1000"
abbreviation (input) IDE_BSY :: u8 where "IDE_BSY \<equiv> 0x80"
abbreviation (input) IDE_DRDY :: u8 where "IDE_DRDY \<equiv> 0x40"
abbreviation (input) IDE_DF :: u8 where "IDE_DF \<equiv> 0x20"
abbreviation (input) IDE_ERR :: u8 where "IDE_ERR \<equiv> 0x01"

text \<open>Polling the status register may never end; then the value is \<open>None\<close>.\<close>

partial_function (option) idewait :: "'d ide_io \<Rightarrow> bool \<Rightarrow> 'd \<Rightarrow> (u32 \<times> 'd) option" where
  "idewait io checkerr d =
     (case inb io 0x1f7 d of
        (r, d) \<Rightarrow>
          if r AND (IDE_BSY OR IDE_DRDY) \<noteq> IDE_DRDY then idewait io checkerr d
          else if checkerr \<and> r AND (IDE_DF OR IDE_ERR) \<noteq> 0 then Some (- 1, d)
          else Some (0, d))"

definition wait_ready :: "'d ide_io \<Rightarrow> bool \<Rightarrow> 'd \<Rightarrow> (u32 \<times> 'd) result" where
  "wait_ready io checkerr d = (case idewait io checkerr d of None \<Rightarrow> Inl Diverges | Some x \<Rightarrow> Inr x)"

primrec find_disk1 :: "nat \<Rightarrow> 'd ide_io \<Rightarrow> 'd \<Rightarrow> bool \<times> 'd" where
  "find_disk1 0 io d = (False, d)"
| "find_disk1 (Suc n) io d =
     (case inb io 0x1f7 d of (r, d) \<Rightarrow> if r \<noteq> 0 then (True, d) else find_disk1 n io d)"

text \<open>\<^verbatim>\<open>ideinit\<close> without the call that routes the interrupt to a CPU.\<close>

definition ideinit :: "'d ide_io \<Rightarrow> ('d, 'a) ide_state_scheme \<Rightarrow> ('d, 'a) ide_state_scheme result" where
  "ideinit io s =
     andthen (wait_ready io False (controller s)) (\<lambda>(_, d).
       let (found, d) = find_disk1 1000 io (outb io 0x1f6 (0xe0 OR push_bit 4 1) d);
           s = (if found then s\<lparr>havedisk1 := True\<rparr> else s)
       in Inr (s\<lparr>controller := outb io 0x1f6 (0xe0 OR push_bit 4 0) d\<rparr>))"

definition idestart ::
  "'d ide_io \<Rightarrow> nat option \<Rightarrow> ('d, 'a) ide_state_scheme \<Rightarrow> ('d, 'a) ide_state_scheme result" where
  "idestart io p s =
     (case p of
        None \<Rightarrow> Inl (Panic ''idestart'')
      | Some b \<Rightarrow>
          let k = bbuf s b
          in if bblockno k \<ge> FSSIZE then Inl (Panic ''incorrect blockno'')
             else
               let sector_per_block = BSIZE div SECTOR_SIZE;
                   sector = bblockno k * sector_per_block;
                   read_cmd = (if sector_per_block = 1 then 0x20 else 0xc4);
                   write_cmd = (if sector_per_block = 1 then 0x30 else 0xc5)
               in if sector_per_block > 7 then Inl (Panic ''idestart'')
                  else
                    andthen (wait_ready io False (controller s)) (\<lambda>(_, d).
                      let d = outb io 0x3f6 0 d;
                          d = outb io 0x1f2 (ucast sector_per_block) d;
                          d = outb io 0x1f3 (ucast (sector AND 0xff)) d;
                          d = outb io 0x1f4 (ucast (drop_bit 8 sector AND 0xff)) d;
                          d = outb io 0x1f5 (ucast (drop_bit 16 sector AND 0xff)) d;
                          d = outb io 0x1f6 (ucast (0xe0 OR push_bit 4 (bdev k AND 1) OR (drop_bit 24 sector AND 0x0f))) d;
                          d = (if bflags k AND B_DIRTY \<noteq> 0
                               then outsl io 0x1f0 (bdata k) (512 div 4) (outb io 0x1f7 write_cmd d)
                               else outb io 0x1f7 read_cmd d)
                      in Inr (s\<lparr>controller := d\<rparr>)))"

text \<open>The step of \<^verbatim>\<open>ideintr\<close> that fetches the data of a read request; after an error it fetches nothing.\<close>

definition ide_fetch ::
  "'d ide_io \<Rightarrow> nat \<Rightarrow> ('d, 'a) ide_state_scheme \<Rightarrow> ('d, 'a) ide_state_scheme result" where
  "ide_fetch io b s =
     (if bflags (bbuf s b) AND B_DIRTY = 0 then
        andthen (wait_ready io True (controller s)) (\<lambda>(r, d).
          if 0 <=s r then
            let (x, d) = insl io 0x1f0 (512 div 4) d
            in Inr (set_data b x (s\<lparr>controller := d\<rparr>))
          else Inr (s\<lparr>controller := d\<rparr>))
      else Inr s)"

definition ideintr :: "'d ide_io \<Rightarrow> ('d, 'a) ide_state_scheme \<Rightarrow> ('d, 'a) ide_state_scheme result" where
  "ideintr io s =
     (case idequeue s of
        None \<Rightarrow> Inr s
      | Some b \<Rightarrow>
          andthen (ide_fetch io b (s\<lparr>idequeue := qnext s b\<rparr>)) (\<lambda>s.
            let s = upd_buf b (\<lambda>k. k\<lparr>bflags := bflags k OR B_VALID\<rparr>) s;
                s = upd_buf b (\<lambda>k. k\<lparr>bflags := bflags k AND NOT B_DIRTY\<rparr>) s;
                s = wakeup (ChDisk b) s
            in if idequeue s \<noteq> None then idestart io (idequeue s) s else Inr s))"

text \<open>
  The pointer \<^verbatim>\<open>pp\<close> of \<^verbatim>\<open>iderw\<close> is the address of \<^verbatim>\<open>idequeue\<close> (\<open>None\<close>) or of the field \<^verbatim>\<open>qnext\<close> of a
  buffer. The walk to the end of the queue passes at most \<^verbatim>\<open>NBUF\<close> buffers.
\<close>

definition link_of :: "nat option \<Rightarrow> ('d, 'a) ide_state_scheme \<Rightarrow> nat option" where
  "link_of pp s = (case pp of None \<Rightarrow> idequeue s | Some c \<Rightarrow> qnext s c)"

definition set_link :: "nat option \<Rightarrow> nat option \<Rightarrow> ('d, 'a) ide_state_scheme \<Rightarrow> ('d, 'a) ide_state_scheme" where
  "set_link pp v s =
     (case pp of None \<Rightarrow> s\<lparr>idequeue := v\<rparr> | Some c \<Rightarrow> s\<lparr>qnext := (qnext s)(c := v)\<rparr>)"

primrec queue_end :: "nat \<Rightarrow> nat option \<Rightarrow> ('d, 'a) ide_state_scheme \<Rightarrow> nat option result" where
  "queue_end 0 pp s = Inl Diverges"
| "queue_end (Suc n) pp s =
     (case link_of pp s of None \<Rightarrow> Inr pp | Some c \<Rightarrow> queue_end n (Some c) s)"

text \<open>\<^verbatim>\<open>iderw\<close> up to its loop \<open>while ((b->flags & (B_VALID|B_DIRTY)) != B_VALID) sleep(b, &idelock)\<close>, and a pass of it.\<close>

definition iderw_queue ::
  "'d ide_io \<Rightarrow> nat \<Rightarrow> nat \<Rightarrow> ('d, 'a) ide_state_scheme \<Rightarrow> ('d, 'a) ide_state_scheme result" where
  "iderw_queue io me b s =
     (let k = bbuf s b
      in if \<not> holdingsleep me (block_lock k) s then Inl (Panic ''iderw: buf not locked'')
         else if bflags k AND (B_VALID OR B_DIRTY) = B_VALID then Inl (Panic ''iderw: nothing to do'')
         else if bdev k \<noteq> 0 \<and> \<not> havedisk1 s then Inl (Panic ''iderw: ide disk 1 not present'')
         else
           let s = s\<lparr>qnext := (qnext s)(b := None)\<rparr>
           in andthen (queue_end (Suc NBUF) None s) (\<lambda>pp.
                let s = set_link pp (Some b) s
                in if idequeue s = Some b then idestart io (Some b) s else Inr s))"

definition iderw_wait :: "nat \<Rightarrow> ('d, 'a) ide_state_scheme \<Rightarrow> ('d, 'a) ide_state_scheme waiting" where
  "iderw_wait b s =
     (if bflags (bbuf s b) AND (B_VALID OR B_DIRTY) \<noteq> B_VALID then Block (ChDisk b) else Done s)"

section \<open>Interleaved requests and interrupts\<close>

text \<open>
  \<open>w p = Some b\<close> says that process \<open>p\<close> is in \<^verbatim>\<open>iderw\<close> with buffer \<open>b\<close>. The rest of the kernel may do
  anything but touch the driver's variables, the contents and the lock of a buffer that is locked by a process in
  \<^verbatim>\<open>iderw\<close>, and the pid of such a process; it may count references to these buffers and move them in
  the list of the cache.
\<close>

definition same_request :: "buf \<Rightarrow> buf \<Rightarrow> bool" where
  "same_request k l \<longleftrightarrow> bflags k = bflags l \<and> bdev k = bdev l \<and> bblockno k = bblockno l
     \<and> block_lock k = block_lock l \<and> bdata k = bdata l"

definition outside_ide :: "(nat \<rightharpoonup> nat) \<Rightarrow> 'd ide_state \<Rightarrow> 'd ide_state \<Rightarrow> bool" where
  "outside_ide w s t \<longleftrightarrow> idequeue t = idequeue s \<and> qnext t = qnext s \<and> havedisk1 t = havedisk1 s
     \<and> controller t = controller s
     \<and> (\<forall>p b. w p = Some b \<longrightarrow> same_request (bbuf t b) (bbuf s b) \<and> pid (ptable t p) = pid (ptable s p))"

text \<open>A process that calls \<^verbatim>\<open>iderw\<close> has another pid than the processes inside, and asks for a block that exists.\<close>

inductive ide_step ::
  "'d ide_io \<Rightarrow> 'd ide_state \<times> (nat \<rightharpoonup> nat) \<Rightarrow> 'd ide_state \<times> (nat \<rightharpoonup> nat) \<Rightarrow> bool" for io where
  ide_call: "w me = None \<Longrightarrow> \<forall>p\<in>dom w. pid (ptable s p) \<noteq> pid (ptable s me) \<Longrightarrow> b < NBUF \<Longrightarrow>
    bblockno (bbuf s b) < FSSIZE \<Longrightarrow> iderw_queue io me b s = Inr t \<Longrightarrow> ide_step io (s, w) (t, w(me \<mapsto> b))"
| ide_interrupt: "ideintr io s = Inr t \<Longrightarrow> ide_step io (s, w) (t, w)"
| ide_return: "w me = Some b \<Longrightarrow> iderw_wait b s = Done s \<Longrightarrow> ide_step io (s, w) (s, w(me := None))"
| ide_other: "outside_ide w s t \<Longrightarrow> ide_step io (s, w) (t, w)"

section \<open>The controller\<close>

text \<open>
  What the driver relies on of an ATA controller, in terms of a view of its state: the registers
  that name the sector, whether it expects data to be read or written, the contents of the two
  drives, and a bound on the number of times that the status has to be read until it is ready.
\<close>

record task =
  t_count :: u8
  t_low :: u8
  t_mid :: u8
  t_high :: u8
  t_head :: u8

datatype phase = Idle | Reading | Writing

record 'd ata_view =
  task_of :: "'d \<Rightarrow> task"
  phase_of :: "'d \<Rightarrow> phase"
  medium :: "'d \<Rightarrow> u32 \<Rightarrow> u32 \<Rightarrow> block"
  polls :: "'d \<Rightarrow> nat"

definition task_drive :: "task \<Rightarrow> u32" where
  "task_drive k = drop_bit 4 (ucast (t_head k)) AND 1"

definition task_sector :: "task \<Rightarrow> u32" where
  "task_sector k = ucast (t_low k) OR push_bit 8 (ucast (t_mid k)) OR push_bit 16 (ucast (t_high k))
     OR push_bit 24 (ucast (t_head k) AND 0x0f)"

definition put_sector :: "u32 \<Rightarrow> u32 \<Rightarrow> block \<Rightarrow> (u32 \<Rightarrow> u32 \<Rightarrow> block) \<Rightarrow> u32 \<Rightarrow> u32 \<Rightarrow> block" where
  "put_sector e n x m = m(e := (m e)(n := x))"

text \<open>
  The status register: either ready, without an error, or some readings closer to it. The
  registers hold what is written to them while the controller is ready and idle. A read command
  makes the sector available at the data port once the status is ready; after a write command the
  controller takes the data of the sector from the data port.
\<close>

definition status_law :: "'d ide_io \<Rightarrow> 'd ata_view \<Rightarrow> bool" where
  "status_law io v \<longleftrightarrow> (\<forall>d. case inb io 0x1f7 d of (r, d') \<Rightarrow>
     task_of v d' = task_of v d \<and> phase_of v d' = phase_of v d \<and> medium v d' = medium v d
     \<and> (if r AND (IDE_BSY OR IDE_DRDY) = IDE_DRDY then r AND (IDE_DF OR IDE_ERR) = 0 \<and> polls v d' = 0
        else polls v d' < polls v d))"

definition sets_task :: "'d ata_view \<Rightarrow> 'd \<Rightarrow> 'd \<Rightarrow> (task \<Rightarrow> task) \<Rightarrow> bool" where
  "sets_task v d d' f \<longleftrightarrow> task_of v d' = f (task_of v d) \<and> phase_of v d' = phase_of v d
     \<and> medium v d' = medium v d \<and> polls v d' = 0"

definition register_law :: "'d ide_io \<Rightarrow> 'd ata_view \<Rightarrow> bool" where
  "register_law io v \<longleftrightarrow> (\<forall>d x. phase_of v d = Idle \<longrightarrow> polls v d = 0 \<longrightarrow>
     sets_task v d (outb io 0x3f6 0 d) id
     \<and> sets_task v d (outb io 0x1f2 x d) (\<lambda>k. k\<lparr>t_count := x\<rparr>)
     \<and> sets_task v d (outb io 0x1f3 x d) (\<lambda>k. k\<lparr>t_low := x\<rparr>)
     \<and> sets_task v d (outb io 0x1f4 x d) (\<lambda>k. k\<lparr>t_mid := x\<rparr>)
     \<and> sets_task v d (outb io 0x1f5 x d) (\<lambda>k. k\<lparr>t_high := x\<rparr>)
     \<and> sets_task v d (outb io 0x1f6 x d) (\<lambda>k. k\<lparr>t_head := x\<rparr>))"

definition command_law :: "'d ide_io \<Rightarrow> 'd ata_view \<Rightarrow> bool" where
  "command_law io v \<longleftrightarrow> (\<forall>d. phase_of v d = Idle \<longrightarrow> polls v d = 0 \<longrightarrow> t_count (task_of v d) = 1 \<longrightarrow>
     (\<forall>(cmd, ph)\<in>{(0x20, Reading), (0x30, Writing)}.
        task_of v (outb io 0x1f7 cmd d) = task_of v d \<and> phase_of v (outb io 0x1f7 cmd d) = ph
        \<and> medium v (outb io 0x1f7 cmd d) = medium v d))"

definition data_law :: "'d ide_io \<Rightarrow> 'd ata_view \<Rightarrow> bool" where
  "data_law io v \<longleftrightarrow>
     (\<forall>d x. phase_of v d = Writing \<longrightarrow> phase_of v (outsl io 0x1f0 x 128 d) = Idle
        \<and> medium v (outsl io 0x1f0 x 128 d) =
            put_sector (task_drive (task_of v d)) (task_sector (task_of v d)) x (medium v d))
     \<and> (\<forall>d. phase_of v d = Reading \<longrightarrow> polls v d = 0 \<longrightarrow>
          (case insl io 0x1f0 128 d of (x, d') \<Rightarrow>
             x = medium v d (task_drive (task_of v d)) (task_sector (task_of v d))
             \<and> phase_of v d' = Idle \<and> medium v d' = medium v d))"

definition ata_controller :: "'d ide_io \<Rightarrow> 'd ata_view \<Rightarrow> bool" where
  "ata_controller io v \<longleftrightarrow> status_law io v \<and> register_law io v \<and> command_law io v \<and> data_law io v"

text \<open>The driver starts with an empty queue on an idle controller.\<close>

inductive ide_reachable ::
  "'d ide_io \<Rightarrow> 'd ata_view \<Rightarrow> 'd ide_state \<times> (nat \<rightharpoonup> nat) \<Rightarrow> bool" for io v where
  ide_boot: "idequeue s = None \<Longrightarrow> phase_of v (controller s) = Idle \<Longrightarrow> ideinit io s = Inr t \<Longrightarrow>
    ide_reachable io v (t, \<lambda>_. None)"
| ide_next: "ide_reachable io v x \<Longrightarrow> ide_step io x y \<Longrightarrow> ide_reachable io v y"

section \<open>What the queue stands for\<close>

text \<open>
  The requests in the queue, and the buffers and drives as they will be once all of them have been
  served in this order. A transfer is what \<^verbatim>\<open>iderw\<close> of \<^verbatim>\<open>memide.c\<close> does.
\<close>

primrec follow :: "nat \<Rightarrow> (nat \<Rightarrow> nat option) \<Rightarrow> nat option \<Rightarrow> nat list" where
  "follow 0 nx p = []"
| "follow (Suc n) nx p = (case p of None \<Rightarrow> [] | Some b \<Rightarrow> b # follow n nx (nx b))"

definition requests :: "('d, 'a) ide_state_scheme \<Rightarrow> nat list" where
  "requests s = follow NBUF (qnext s) (idequeue s)"

type_synonym drives = "(nat \<Rightarrow> buf) \<times> (u32 \<Rightarrow> u32 \<Rightarrow> block)"

definition transfer :: "nat \<Rightarrow> drives \<Rightarrow> drives" where
  "transfer b = (\<lambda>(bs, m).
     let k = bs b
     in if bflags k AND B_DIRTY \<noteq> 0
        then (bs(b := k\<lparr>bflags := (bflags k OR B_VALID) AND NOT B_DIRTY\<rparr>),
              put_sector (bdev k AND 1) (bblockno k) (bdata k) m)
        else (bs(b := k\<lparr>bdata := m (bdev k AND 1) (bblockno k),
                        bflags := (bflags k OR B_VALID) AND NOT B_DIRTY\<rparr>), m))"

definition drives_of :: "'d ata_view \<Rightarrow> ('d, 'a) ide_state_scheme \<Rightarrow> drives" where
  "drives_of v s = (bbuf s, medium v (controller s))"

definition outcome :: "'d ata_view \<Rightarrow> ('d, 'a) ide_state_scheme \<Rightarrow> drives" where
  "outcome v s = fold transfer (requests s) (drives_of v s)"

text \<open>The machine with the memory disk that holds what the queue will leave.\<close>

definition as_memide :: "'d ata_view \<Rightarrow> ('d, 'a) ide_state_scheme \<Rightarrow> ('d, 'a) ide_state_scheme" where
  "as_memide v s = s\<lparr>bbuf := fst (outcome v s), disk := snd (outcome v s) 1, disksize := FSSIZE\<rparr>"

primrec interrupts :: "nat \<Rightarrow> 'd ide_io \<Rightarrow> ('d, 'a) ide_state_scheme \<Rightarrow> ('d, 'a) ide_state_scheme result" where
  "interrupts 0 io s = Inr s"
| "interrupts (Suc n) io s = andthen (ideintr io s) (interrupts n io)"

section \<open>Starting a request\<close>

lemma low_bits:
  fixes n :: u32
  assumes "n < 1000" and "bit n i"
  shows "i < 10"
proof (rule ccontr)
  assume "\<not> i < 10"
  have "unat n < 2 ^ 10"
    using assms(1) by (simp add: word_less_nat_alt)
  also have "(2 :: nat) ^ 10 \<le> 2 ^ i"
    using \<open>\<not> i < 10\<close> by (intro power_increasing) simp_all
  finally have "\<not> bit (unat n) i"
    by (simp add: bit_iff_odd)
  then show False
    using bit_imp_le_length [OF assms(2)] assms(2) by (simp add: bit_unsigned_iff)
qed

lemma task_drive_eq:
  fixes e n :: u32
  assumes "t_head k = ucast (0xe0 OR push_bit 4 (e AND 1) OR (drop_bit 24 n AND 0x0f))"
  shows "task_drive k = e AND 1"
proof -
  have "bit (0x0f :: u32) (Suc (Suc (Suc (Suc 0)))) = False" "bit (0xe0 :: u32) 4 = False"
    by simp_all
  show ?thesis
    by (rule bit_word_eqI)
      (auto simp: task_drive_def assms bit_simps bit_1_iff)
qed

lemma task_sector_eq:
  fixes e n :: u32
  assumes "n < 1000" "t_low k = ucast (n AND 0xff)" "t_mid k = ucast (drop_bit 8 n AND 0xff)"
    "t_high k = ucast (drop_bit 16 n AND 0xff)" 
    "t_head k = ucast (0xe0 OR push_bit 4 (e AND 1) OR (drop_bit 24 n AND 0x0f))"
  shows "task_sector k = n"
proof -
  have m: "(0xff :: u32) = mask 8" "(0x0f :: u32) = mask 4" "(0xe0 :: u32) = push_bit 5 (mask 3)"
    by (simp_all add: mask_eq_exp_minus_1 push_bit_eq_mult)
  show ?thesis
  proof (rule bit_word_eqI)
    fix i assume i: "i < LENGTH(32)"
    consider "i < 8" | "8 \<le> i" "i < 16" | "16 \<le> i"
      by linarith
    then show "bit (task_sector k) i \<longleftrightarrow> bit n i"
    proof cases
      case 2
      then have "i - 8 < 8"
        by linarith
      then show ?thesis
        using 2 i by (simp add: task_sector_def assms(2-5) m bit_simps)
    next
      case 3
      then have "\<not> bit n i" "\<not> i - 8 < 8"
        using low_bits [OF assms(1), of i] by auto
      then show ?thesis
        using 3 i by (cases "24 \<le> i"; cases "i - 24 < 4"; simp add: task_sector_def assms(2-5) m bit_simps)
    qed (use i in \<open>simp_all add: task_sector_def assms(2-5) m bit_simps\<close>)
  qed
qed

lemma wait_ready_ok:
  assumes "ata_controller io v"
  shows "\<exists>d'. wait_ready io c d = Inr (0, d') \<and> sets_task v d d' id"
proof -
  have st: "status_law io v"
    using assms by (simp add: ata_controller_def)
  have "\<exists>d'. idewait io c d = Some (0, d') \<and> sets_task v d d' id"
  proof (induction "polls v d" arbitrary: d rule: less_induct)
    case less
    obtain r e where e: "inb io 0x1f7 d = (r, e)"
      by (cases "inb io 0x1f7 d")
    then have law: "task_of v e = task_of v d" "phase_of v e = phase_of v d" "medium v e = medium v d"
      "if r AND (0x80 OR 0x40) = 0x40 then r AND (0x20 OR 0x01) = 0 \<and> polls v e = 0 else polls v e < polls v d"
      using st [unfolded status_law_def] by (auto dest!: spec [of _ d])
    show ?case
    proof (cases "r AND (0x80 OR 0x40) = 0x40")
      case True
      then show ?thesis
        using law e by (simp add: idewait.simps [of io c d] sets_task_def)
    next
      case False
      then obtain d' where "idewait io c e = Some (0, d')" "sets_task v e d' id"
        using less [of e] law(4) by auto
      then show ?thesis
        using law(1-3) False e by (simp add: idewait.simps [of io c d] sets_task_def)
    qed
  qed
  then show ?thesis
    by (auto simp: wait_ready_def)
qed

text \<open>The controller after \<^verbatim>\<open>idestart\<close>, and what remains true of it until the interrupt.\<close>

definition active :: "'d ata_view \<Rightarrow> 'd \<Rightarrow> buf \<Rightarrow> bool" where
  "active v d k \<longleftrightarrow>
     (if bflags k AND B_DIRTY \<noteq> 0 then phase_of v d = Idle \<and> medium v d (bdev k AND 1) (bblockno k) = bdata k
      else phase_of v d = Reading \<and> task_drive (task_of v d) = bdev k AND 1 \<and> task_sector (task_of v d) = bblockno k)"

definition written :: "buf \<Rightarrow> (u32 \<Rightarrow> u32 \<Rightarrow> block) \<Rightarrow> u32 \<Rightarrow> u32 \<Rightarrow> block" where
  "written k m = (if bflags k AND B_DIRTY \<noteq> 0 then put_sector (bdev k AND 1) (bblockno k) (bdata k) m else m)"

lemma idestart_ok:
  assumes ata: "ata_controller io v" and "phase_of v (controller s) = Idle" and blk: "bblockno (bbuf s b) < 1000"
  shows "\<exists>d. idestart io (Some b) s = Inr (s\<lparr>controller := d\<rparr>) \<and> active v d (bbuf s b)
    \<and> medium v d = written (bbuf s b) (medium v (controller s))"
proof -
  let ?k = "bbuf s b" and ?n = "bblockno (bbuf s b)"
  let ?h = "ucast (0xe0 OR push_bit 4 (bdev ?k AND 1) OR (drop_bit 24 ?n AND 0x0f)) :: u8"
  obtain d0 where d0: "wait_ready io False (controller s) = Inr (0, d0)" "sets_task v (controller s) d0 id"
    using wait_ready_ok [OF ata] by blast
  define d1 where "d1 = outb io 0x1f2 1 (outb io 0x3f6 0 d0)"
  define d2 where "d2 = outb io 0x1f4 (ucast (drop_bit 8 ?n AND 0xff)) (outb io 0x1f3 (ucast (?n AND 0xff)) d1)"
  define d3 where "d3 = outb io 0x1f6 ?h (outb io 0x1f5 (ucast (drop_bit 16 ?n AND 0xff)) d2)"
  have reg: "register_law io v" and cmd: "command_law io v" and dat: "data_law io v"
    using ata by (simp_all add: ata_controller_def)
  have p: "phase_of v d0 = Idle" "polls v d0 = 0" "medium v d0 = medium v (controller s)"
    using d0(2) assms(2) by (simp_all add: sets_task_def)
  have q: "phase_of v d1 = Idle \<and> polls v d1 = 0 \<and> medium v d1 = medium v d0 \<and> t_count (task_of v d1) = 1"
    using reg p unfolding d1_def register_law_def sets_task_def by simp
  have q: "phase_of v d2 = Idle \<and> polls v d2 = 0 \<and> medium v d2 = medium v d0 \<and> t_count (task_of v d2) = 1
      \<and> t_low (task_of v d2) = ucast (?n AND 0xff) \<and> t_mid (task_of v d2) = ucast (drop_bit 8 ?n AND 0xff)"
    using reg q unfolding d2_def register_law_def sets_task_def by simp
  have q: "phase_of v d3 = Idle \<and> polls v d3 = 0 \<and> medium v d3 = medium v d0 \<and> t_count (task_of v d3) = 1
      \<and> t_low (task_of v d3) = ucast (?n AND 0xff) \<and> t_mid (task_of v d3) = ucast (drop_bit 8 ?n AND 0xff)
      \<and> t_high (task_of v d3) = ucast (drop_bit 16 ?n AND 0xff) \<and> t_head (task_of v d3) = ?h"
    using reg q unfolding d3_def register_law_def sets_task_def by simp
  then have a: "task_drive (task_of v d3) = bdev ?k AND 1" "task_sector (task_of v d3) = ?n"
    using task_drive_eq [of "task_of v d3"] task_sector_eq [OF blk, of "task_of v d3"] by simp_all
  let ?d = "if bflags ?k AND 4 \<noteq> 0 then outsl io 0x1f0 (bdata ?k) 128 (outb io 0x1f7 0x30 d3) else outb io 0x1f7 0x20 d3"
  have "idestart io (Some b) s = Inr (s\<lparr>controller := ?d\<rparr>)"
    using blk d0(1) by (simp add: idestart_def Let_def d3_def d2_def d1_def not_le)
  moreover have "active v ?d ?k \<and> medium v ?d = written ?k (medium v (controller s))"
    using cmd dat q a p(3) unfolding command_law_def data_law_def
    by (simp add: active_def written_def put_sector_def)
  ultimately show ?thesis
    by blast
qed

section \<open>The queue\<close>

fun queued :: "(nat \<Rightarrow> nat option) \<Rightarrow> nat option \<Rightarrow> nat list \<Rightarrow> bool" where
  "queued nx p [] \<longleftrightarrow> p = None"
| "queued nx p (b # bs) \<longleftrightarrow> p = Some b \<and> queued nx (nx b) bs"

lemma follow_queued: "queued nx p bs \<Longrightarrow> length bs \<le> n \<Longrightarrow> follow n nx p = bs"
proof (induction nx p bs arbitrary: n rule: queued.induct)
  case (1 nx p)
  then show ?case
    by (cases n) simp_all
next
  case (2 nx p b bs)
  then show ?case
    by (cases n) simp_all
qed

lemma queued_upd [simp]: "b \<notin> set bs \<Longrightarrow> queued (nx(b := x)) p bs \<longleftrightarrow> queued nx p bs"
  by (induction nx p bs rule: queued.induct) auto

lemma queued_snoc:
  "queued nx p bs \<Longrightarrow> distinct bs \<Longrightarrow> b \<notin> set bs \<Longrightarrow> nx b = None \<Longrightarrow> bs \<noteq> [] \<Longrightarrow>
   queued (nx(last bs := Some b)) p (bs @ [b])"
proof (induction nx p bs rule: queued.induct)
  case (2 nx p c bs)
  then show ?case
    by (cases "bs = []") auto
qed simp

lemma queue_end_ok:
  "queued (qnext s) (link_of pp s) bs \<Longrightarrow> length bs < n \<Longrightarrow>
   queue_end n pp s = Inr (if bs = [] then pp else Some (last bs))"
proof (induction bs arbitrary: pp n)
  case Nil
  then show ?case
    by (cases n) simp_all
next
  case (Cons b bs)
  then obtain m where "n = Suc m" "length bs < m"
    by (cases n) auto
  with Cons show ?case
    by (simp add: link_of_def)
qed

text \<open>What holds between the driver's steps; \<open>bs\<close> are the buffers in the queue.\<close>

definition ide_ok :: "'d ata_view \<Rightarrow> 'd ide_state \<Rightarrow> (nat \<rightharpoonup> nat) \<Rightarrow> nat list \<Rightarrow> bool" where
  "ide_ok v s w bs \<longleftrightarrow> queued (qnext s) (idequeue s) bs \<and> distinct bs \<and> set bs \<subseteq> {..<NBUF} \<and> havedisk1 s
     \<and> (\<forall>b\<in>set bs. bblockno (bbuf s b) < FSSIZE \<and> bflags (bbuf s b) AND (B_VALID OR B_DIRTY) \<noteq> B_VALID \<and> b \<in> ran w)
     \<and> (\<forall>p b. w p = Some b \<longrightarrow> holdingsleep p (block_lock (bbuf s b)) s
          \<and> (b \<in> set bs \<or> bflags (bbuf s b) AND (B_VALID OR B_DIRTY) = B_VALID))
     \<and> (case bs of [] \<Rightarrow> phase_of v (controller s) = Idle | b # _ \<Rightarrow> active v (controller s) (bbuf s b))"

lemma ide_ok_length: "ide_ok v s w bs \<Longrightarrow> length bs \<le> 30"
proof -
  assume "ide_ok v s w bs"
  then have "distinct bs" "set bs \<subseteq> {..<30}"
    by (auto simp: ide_ok_def)
  then show ?thesis
    using card_mono [of "{..<30}" "set bs"] by (simp add: distinct_card)
qed

lemma requests_eq: "ide_ok v s w bs \<Longrightarrow> requests s = bs"
  using ide_ok_length [of v s w bs] by (simp add: requests_def follow_queued ide_ok_def)

section \<open>Transfers\<close>

lemma transfer_buf_other: "c \<noteq> b \<Longrightarrow> fst (transfer b x) c = fst x c"
  by (cases x) (simp add: transfer_def Let_def)

lemma fold_transfer_other: "c \<notin> set bs \<Longrightarrow> fst (fold transfer bs x) c = fst x c"
  by (induction bs arbitrary: x) (simp_all add: transfer_buf_other)

lemma put_sector_same [simp]: "put_sector e n x (put_sector e n y m) = put_sector e n x m"
  by (simp add: put_sector_def)

lemma put_sector_id [simp]: "m e n = x \<Longrightarrow> put_sector e n x m = m"
  by (auto simp: put_sector_def)

lemma transfer_written: "transfer c (bs, written (bs c) m) = transfer c (bs, m)"
  by (simp add: transfer_def written_def Let_def)

lemma flags_done:
  fixes f :: u32
  shows "((f OR 2) AND NOT 4) AND 6 = 2"
    and "f AND 4 = 0 \<Longrightarrow> (f OR 2) AND NOT 4 = f OR 2"
    and "(f AND NOT 4) OR 2 = (f OR 2) AND NOT 4"
proof -
  have "(f OR 2) AND NOT 4 = (f AND NOT 4) OR (2 AND NOT 4)"
    by (simp only: bit.conj_disj_distrib2)
  then show e: "(f AND NOT 4) OR 2 = (f OR 2) AND NOT 4"
    by simp
  have "((f OR 2) AND NOT 4) AND 6 = (f OR 2) AND 2"
    by (simp add: and.assoc)
  then show "((f OR 2) AND NOT 4) AND 6 = 2"
    by (simp add: bit.conj_disj_distrib2)
  assume "f AND 4 = 0"
  then have "f AND NOT 4 = (f AND 4) OR (f AND NOT 4)"
    by simp
  also have "\<dots> = f AND (4 OR NOT 4)"
    by (simp only: bit.conj_disj_distrib)
  finally have "f AND NOT 4 = f"
    by (simp only: bit.disj_cancel_right bit.conj_one_right)
  then show "(f OR 2) AND NOT 4 = f OR 2"
    by (simp only: e [symmetric])
qed

text \<open>A transfer is a successful call of \<^verbatim>\<open>iderw\<close> of \<^verbatim>\<open>memide.c\<close>.\<close>

lemma memide_transfer:
  assumes "iderw me b s = Inr u" and "m 1 = disk s"
  shows "fst (transfer b (bbuf s, m)) = bbuf u" "snd (transfer b (bbuf s, m)) 1 = disk u"
  using assms flags_done(2,3) [of "bflags (bbuf s b)"]
  by (auto simp: iderw_def transfer_def Let_def set_data_def upd_buf_def put_sector_def split: if_splits)

lemma ide_fetch_ok:
  assumes "ata_controller io v" and "active v (controller s) (bbuf s b)"
  shows "\<exists>d x. ide_fetch io b s = Inr (s\<lparr>controller := d, bbuf := (bbuf s)(b := (bbuf s b)\<lparr>bdata := x\<rparr>)\<rparr>)
    \<and> phase_of v d = Idle
    \<and> transfer b (drives_of v s) =
        ((bbuf s)(b := (bbuf s b)\<lparr>bdata := x, bflags := (bflags (bbuf s b) OR 2) AND NOT 4\<rparr>), medium v d)"
proof (cases "bflags (bbuf s b) AND 4 = 0")
  case True
  obtain d where d: "wait_ready io True (controller s) = Inr (0, d)" "sets_task v (controller s) d id"
    using wait_ready_ok [OF assms(1)] by blast
  obtain x e where e: "insl io 0x1f0 128 d = (x, e)"
    by (cases "insl io 0x1f0 128 d")
  have "phase_of v d = Reading" "polls v d = 0" "data_law io v"
    using assms True d(2) by (simp_all add: active_def sets_task_def ata_controller_def)
  then have "x = medium v d (task_drive (task_of v d)) (task_sector (task_of v d))" "phase_of v e = Idle" "medium v e = medium v d"
    using e unfolding data_law_def by auto
  then have x: "x = medium v (controller s) (bdev (bbuf s b) AND 1) (bblockno (bbuf s b))" "phase_of v e = Idle"
    "medium v e = medium v (controller s)"
    using d(2) assms(2) True by (simp_all add: active_def sets_task_def)
  then show ?thesis
    using True d(1) e
    by (auto simp: ide_fetch_def transfer_def drives_of_def Let_def set_data_def upd_buf_def
        intro!: exI [of _ e] exI [of _ x])
next
  case False
  then show ?thesis
    using assms(2)
    by (auto simp: ide_fetch_def transfer_def drives_of_def Let_def active_def
        intro!: exI [of _ "controller s"] exI [of _ "bdata (bbuf s b)"])
qed


lemma ideintr_ok:
  assumes ata: "ata_controller io v" and ok: "ide_ok v s w (b # bs)"
  shows "\<exists>t. ideintr io s = Inr t \<and> ide_ok v t w bs \<and> bbuf t = fst (transfer b (drives_of v s))
    \<and> fold transfer bs (drives_of v t) = fold transfer (b # bs) (drives_of v s)"
proof -
  let ?s = "s\<lparr>idequeue := qnext s b\<rparr>"
  have q: "idequeue s = Some b" "queued (qnext s) (qnext s b) bs" "b \<notin> set bs" "distinct bs"
    and act: "active v (controller s) (bbuf s b)"
    using ok by (simp_all add: ide_ok_def)
  obtain d x where t1: "ide_fetch io b ?s = Inr (?s\<lparr>controller := d, bbuf := (bbuf s)(b := (bbuf s b)\<lparr>bdata := x\<rparr>)\<rparr>)"
    and d: "phase_of v d = Idle"
    and tr: "transfer b (drives_of v ?s) =
              ((bbuf s)(b := (bbuf s b)\<lparr>bdata := x, bflags := (bflags (bbuf s b) OR 2) AND NOT 4\<rparr>), medium v d)"
    using ide_fetch_ok [OF ata, of ?s b] act by auto
  let ?B = "(bbuf s)(b := (bbuf s b)\<lparr>bdata := x, bflags := (bflags (bbuf s b) OR 2) AND NOT 4\<rparr>)"
  obtain T where T: "wakeup (ChDisk b) (?s\<lparr>controller := d, bbuf := ?B\<rparr>) = (?s\<lparr>controller := d, bbuf := ?B\<rparr>)\<lparr>ptable := T\<rparr>"
    using wakeup_frame by blast
  let ?u = "(?s\<lparr>controller := d, bbuf := ?B\<rparr>)\<lparr>ptable := T\<rparr>"
  have pids: "pid (T p) = pid (ptable s p)" for p
    using arg_cong [OF T, of "\<lambda>z. pid (ptable z p)"] by simp
  have step: "ideintr io s = (if idequeue ?u \<noteq> None then idestart io (idequeue ?u) ?u else Inr ?u)"
    using q(1) t1 T by (cases "qnext s b") (simp_all add: ideintr_def Let_def upd_buf_def)
  have rest: "\<forall>c\<in>set bs. bblockno (?B c) < 1000 \<and> bflags (?B c) AND 6 \<noteq> 2 \<and> c \<in> ran w"
    "\<forall>p c. w p = Some c \<longrightarrow> holdingsleep p (block_lock (?B c)) ?u \<and> (c \<in> set bs \<or> bflags (?B c) AND 6 = 2)"
    using ok q(3) flags_done(1) [of "bflags (bbuf s b)"] by (auto simp: ide_ok_def holdingsleep_def pids)
  show ?thesis
  proof (cases bs)
    case Nil
    then show ?thesis
      using step rest q(2) d tr ok by (simp add: ide_ok_def drives_of_def)
  next
    case (Cons c cs)
    then have c: "idequeue ?u = Some c"
      using q(2) by simp
    obtain e where e: "idestart io (Some c) ?u = Inr (?u\<lparr>controller := e\<rparr>)" "active v e (?B c)"
      "medium v e = written (?B c) (medium v d)"
      using idestart_ok [OF ata, of ?u c] d rest(1) Cons by auto
    have "fold transfer bs (?B, medium v e) = fold transfer bs (?B, medium v d)"
      by (simp add: Cons e(3) transfer_written del: fun_upd_apply)
    then show ?thesis
      using step c e(1,2) rest q tr ok Cons by (simp add: ide_ok_def drives_of_def holdingsleep_def)
  qed
qed

lemma free_not_queued:
  assumes "ide_ok v s w bs" and "\<forall>p\<in>dom w. pid (ptable s p) \<noteq> pid (ptable s me)"
    and "holdingsleep me (block_lock (bbuf s b)) s"
  shows "b \<notin> set bs"
proof
  assume "b \<in> set bs"
  then obtain p where "w p = Some b"
    using assms(1) by (auto simp: ide_ok_def ran_def)
  then show False
    using assms by (auto simp: ide_ok_def holdingsleep_def)
qed

lemma iderw_queue_ok:
  assumes ata: "ata_controller io v" and ok: "ide_ok v s w bs" and me: "w me = None"
    and new: "\<forall>p\<in>dom w. pid (ptable s p) \<noteq> pid (ptable s me)"
    and b: "b < 30" "bblockno (bbuf s b) < 1000"
    and call: "holdingsleep me (block_lock (bbuf s b)) s" "bflags (bbuf s b) AND 6 \<noteq> 2"
  shows "\<exists>t. iderw_queue io me b s = Inr t \<and> ide_ok v t (w(me \<mapsto> b)) (bs @ [b]) \<and> bbuf t = bbuf s \<and> ptable t = ptable s
    \<and> fold transfer (bs @ [b]) (drives_of v t) = transfer b (fold transfer bs (drives_of v s))"
proof -
  let ?s = "s\<lparr>qnext := (qnext s)(b := None)\<rparr>"
  have nb: "b \<notin> set bs"
    using ok new call(1) by (rule free_not_queued)
  have q: "queued (qnext s) (idequeue s) bs" "distinct bs" "havedisk1 s"
    using ok by (simp_all add: ide_ok_def)
  have "queue_end 31 None ?s = Inr (if bs = [] then None else Some (last bs))"
    using q(1) nb ide_ok_length [OF ok] by (intro queue_end_ok) (simp_all add: link_of_def)
  then have step: "iderw_queue io me b s =
      (let t = set_link (if bs = [] then None else Some (last bs)) (Some b) ?s
       in if idequeue t = Some b then idestart io (Some b) t else Inr t)"
    using call q(3) by (simp add: iderw_queue_def Let_def eval_nat_numeral del: queue_end.simps)
  have inv: "(\<forall>c\<in>set (bs @ [b]). bblockno (bbuf s c) < 1000 \<and> bflags (bbuf s c) AND 6 \<noteq> 2 \<and> c \<in> ran (w(me \<mapsto> b)))
    \<and> (\<forall>p c. (w(me \<mapsto> b)) p = Some c \<longrightarrow> holdingsleep p (block_lock (bbuf s c)) s
         \<and> (c \<in> set (bs @ [b]) \<or> bflags (bbuf s c) AND 6 = 2))"
    using ok me b(2) call by (auto simp: ide_ok_def)
  show ?thesis
  proof (cases bs)
    case Nil
    let ?t = "?s\<lparr>idequeue := Some b\<rparr>"
    obtain e where "idestart io (Some b) ?t = Inr (?t\<lparr>controller := e\<rparr>)" "active v e (bbuf s b)"
      "medium v e = written (bbuf s b) (medium v (controller s))"
      using idestart_ok [OF ata, of ?t b] ok b(2) Nil by (auto simp: ide_ok_def)
    then show ?thesis
      using step Nil inv b(1) ok
      by (simp add: set_link_def ide_ok_def drives_of_def transfer_written holdingsleep_def)
  next
    case (Cons c cs)
    let ?t = "?s\<lparr>qnext := ((qnext s)(b := None))(last bs := Some b)\<rparr>"
    have c: "idequeue s = Some c" "c \<noteq> b"
      using q(1) nb Cons by auto
    have "queued (qnext ?t) (idequeue ?t) (bs @ [b])"
      using queued_snoc [of "(qnext s)(b := None)" "idequeue s" bs b] q nb Cons by simp
    moreover have "iderw_queue io me b s = Inr ?t"
      using step c Cons by (simp add: set_link_def)
    ultimately show ?thesis
      using inv b(1) ok nb Cons
      by (simp add: ide_ok_def drives_of_def holdingsleep_def del: queued.simps)
  qed
qed

lemma ideinit_ok:
  assumes ata: "ata_controller io v" and "idequeue s = None" and "phase_of v (controller s) = Idle"
    and "ideinit io s = Inr t"
  shows "ide_ok v t (\<lambda>_. None) []"
proof -
  obtain d where d: "wait_ready io False (controller s) = Inr (0, d)" "sets_task v (controller s) d id"
    using wait_ready_ok [OF ata] by blast
  have reg: "register_law io v" and st: "status_law io v"
    using ata by (simp_all add: ata_controller_def)
  let ?d = "outb io 0x1f6 (0xe0 OR push_bit 4 1) d"
  have p: "phase_of v ?d = Idle" "polls v ?d = 0"
    using reg d(2) assms(3) unfolding register_law_def sets_task_def by simp_all
  obtain r e where e: "inb io 0x1f7 ?d = (r, e)"
    by (cases "inb io 0x1f7 ?d")
  then have law: "phase_of v e = Idle" "polls v e = 0" "r AND (0x80 OR 0x40) = 0x40"
    using st [unfolded status_law_def, rule_format, of ?d] p by (auto split: if_splits)
  then have "r \<noteq> 0"
    by auto
  then have "find_disk1 1000 io ?d = (True, e)"
    using e by (simp add: eval_nat_numeral)
  then have "t = s\<lparr>havedisk1 := True, controller := outb io 0x1f6 0xe0 e\<rparr>"
    using assms(4) d(1) by (simp add: ideinit_def)
  then show ?thesis
    using reg law assms(2) unfolding register_law_def sets_task_def by (simp add: ide_ok_def)
qed

lemma ide_ok_step:
  assumes ata: "ata_controller io v" and "ide_step io x y" and "\<exists>bs. ide_ok v (fst x) (snd x) bs"
  shows "\<exists>bs. ide_ok v (fst y) (snd y) bs"
  using assms(2,3)
proof (induction rule: ide_step.induct)
  case (ide_call w me s b t)
  then obtain bs where ok: "ide_ok v s w bs"
    by auto
  have "holdingsleep me (block_lock (bbuf s b)) s" "bflags (bbuf s b) AND 6 \<noteq> 2"
    using ide_call by (auto simp: iderw_queue_def Let_def split: if_splits)
  then obtain u where "iderw_queue io me b s = Inr u" "ide_ok v u (w(me \<mapsto> b)) (bs @ [b])"
    using iderw_queue_ok [OF ata ok, of me b] ide_call by blast
  then show ?case
    using ide_call(5) by (metis fst_conv snd_conv sum.inject(2))
next
  case (ide_interrupt s t w)
  then obtain bs where ok: "ide_ok v s w bs"
    by auto
  then show ?case
  proof (cases bs)
    case Nil
    then show ?thesis
      using ide_interrupt ok by (auto simp: ideintr_def ide_ok_def intro!: exI [of _ "[]"])
  next
    case (Cons b bs')
    then show ?thesis
      using ideintr_ok [OF ata ok [unfolded Cons]] ide_interrupt by auto
  qed
next
  case (ide_return w me b s)
  then obtain bs where ok: "ide_ok v s w bs"
    by auto
  have "b \<notin> set bs"
    using ok ide_return(2) by (auto simp: ide_ok_def iderw_wait_def split: if_splits)
  then have "\<forall>c\<in>set bs. c \<in> ran (w(me := None))"
    using ok ide_return(1) by (auto simp: ide_ok_def ran_def) (metis option.inject)
  then show ?case
    using ok by (auto simp: ide_ok_def fun_upd_def intro!: exI [of _ bs])
next
  case (ide_other w s t)
  then obtain bs where ok: "ide_ok v s w bs"
    by auto
  have same: "same_request (bbuf t c) (bbuf s c)" if "c \<in> set bs" for c
    using ok ide_other(1) that by (auto simp: ide_ok_def outside_ide_def ran_def)
  then have "ide_ok v t w bs"
    using ok ide_other(1) unfolding ide_ok_def outside_ide_def
    by (auto simp: same_request_def holdingsleep_def active_def split: list.splits)
  then show ?case
    by auto
qed

lemma ide_reachable_ok:
  assumes "ata_controller io v" and "ide_reachable io v x"
  shows "\<exists>bs. ide_ok v (fst x) (snd x) bs"
  using assms(2) by (induction rule: ide_reachable.induct) (auto intro: ideinit_ok ide_ok_step assms(1))

lemma fold_transfer_lock: "block_lock (fst (fold transfer bs x) c) = block_lock (fst x c)"
proof (induction bs arbitrary: x)
  case (Cons b bs)
  then show ?case
    by (cases x) (simp add: transfer_def Let_def)
qed simp

lemma interrupts_ok:
  "ata_controller io v \<Longrightarrow> ide_ok v s w bs \<Longrightarrow> n \<le> length bs \<Longrightarrow>
   \<exists>t. interrupts n io s = Inr t \<and> ide_ok v t w (drop n bs)
     \<and> fold transfer (drop n bs) (drives_of v t) = fold transfer bs (drives_of v s)"
proof (induction n arbitrary: s bs)
  case 0
  then show ?case
    by simp
next
  case (Suc n)
  then obtain b bs' where bs: "bs = b # bs'" "n \<le> length bs'"
    by (cases bs) auto
  then obtain t where t: "ideintr io s = Inr t" "ide_ok v t w bs'"
    "fold transfer bs' (drives_of v t) = fold transfer bs (drives_of v s)"
    using ideintr_ok [OF Suc.prems(1)] Suc.prems(2) by blast
  then show ?case
    using Suc.IH [OF Suc.prems(1) t(2) bs(2)] bs(1) by auto
qed

lemma waiting_done:
  assumes "ide_ok v s w bs" and "b \<in> ran w" and "b \<notin> set bs"
  shows "iderw_wait b s = Done s"
  using assms by (auto simp: ide_ok_def iderw_wait_def ran_def)

lemma memide_call:
  assumes ata: "ata_controller io v" and ok: "ide_ok v s w bs" and me: "w me = None"
    and new: "\<forall>p\<in>dom w. pid (ptable s p) \<noteq> pid (ptable s me)" and "b < 30"
    and u: "iderw me b (as_memide v s) = Inr u"
  shows "\<exists>t. iderw_queue io me b s = Inr t \<and> requests t = requests s @ [b]
    \<and> bbuf (as_memide v t) = bbuf u \<and> disk (as_memide v t) = disk u"
proof -
  let ?x = "fold transfer bs (drives_of v s)"
  have x: "outcome v s = ?x"
    by (simp add: outcome_def requests_eq [OF ok])
  have hold: "holdingsleep me (block_lock (bbuf s b)) s"
    using u fold_transfer_lock [of bs "drives_of v s" b]
    by (auto simp: iderw_def Let_def as_memide_def x holdingsleep_def drives_of_def split: if_splits)
  have nb: "b \<notin> set bs"
    using ok new hold by (rule free_not_queued)
  then have same: "fst ?x b = bbuf s b"
    by (simp add: fold_transfer_other drives_of_def)
  have "bflags (bbuf s b) AND 6 \<noteq> 2" "bblockno (bbuf s b) < 1000"
    using u by (auto simp: iderw_def Let_def as_memide_def x same not_le split: if_splits)
  then obtain t where t: "iderw_queue io me b s = Inr t" "ide_ok v t (w(me \<mapsto> b)) (bs @ [b])"
    "fold transfer (bs @ [b]) (drives_of v t) = transfer b ?x"
    using iderw_queue_ok [OF ata ok me new \<open>b < 30\<close> _ hold] by blast
  have "outcome v t = transfer b ?x"
    using t(3) by (simp add: outcome_def requests_eq [OF t(2)])
  then show ?thesis
    using t(1) memide_transfer [OF u, of "snd ?x"] requests_eq [OF ok] requests_eq [OF t(2)]
    by (simp add: as_memide_def x)
qed

section \<open>Properties\<close>

text \<open>
  C39. The interrupt-driven disk driver implements the synchronous memory disk. Whatever requests
  and interrupts came before: an interrupt takes the first request from the queue and changes
  nothing of what the queue will leave in the buffers and on the disk; a call of \<^verbatim>\<open>iderw\<close> that \<^verbatim>\<open>memide.c\<close>
  would carry out is appended, and what the queue then leaves is what \<^verbatim>\<open>memide.c\<close>'s \<^verbatim>\<open>iderw\<close> leaves;
  when \<^verbatim>\<open>iderw\<close> stops waiting, the buffer has exactly these contents and flags.
\<close>

theorem ide_refines_memide:
  assumes "ata_controller io v" and "ide_reachable io v (s, w)"
  shows "(\<exists>t. ideintr io s = Inr t \<and> requests t = tl (requests s) \<and> outcome v t = outcome v s)
    \<and> (\<forall>me b u. w me = None \<and> (\<forall>p\<in>dom w. pid (ptable s p) \<noteq> pid (ptable s me)) \<and> b < NBUF
         \<and> iderw me b (as_memide v s) = Inr u \<longrightarrow>
         (\<exists>t. iderw_queue io me b s = Inr t \<and> requests t = requests s @ [b]
            \<and> bbuf (as_memide v t) = bbuf u \<and> disk (as_memide v t) = disk u))
    \<and> (\<forall>p b. w p = Some b \<and> iderw_wait b s = Done s \<longrightarrow> bbuf s b = bbuf (as_memide v s) b)"
proof -
  obtain bs where ok: "ide_ok v s w bs"
    using ide_reachable_ok [OF assms] by auto
  have "\<exists>t. ideintr io s = Inr t \<and> requests t = tl (requests s) \<and> outcome v t = outcome v s"
  proof (cases bs)
    case Nil
    then show ?thesis
      using ok requests_eq [OF ok] by (simp add: ideintr_def ide_ok_def)
  next
    case (Cons b bs')
    then obtain t where "ideintr io s = Inr t" "ide_ok v t w bs'"
      "fold transfer bs' (drives_of v t) = fold transfer bs (drives_of v s)"
      using ideintr_ok [OF assms(1)] ok by blast
    then show ?thesis
      using Cons by (auto simp: outcome_def requests_eq [OF ok] requests_eq)
  qed
  moreover have "bbuf s b = bbuf (as_memide v s) b" if "w p = Some b" "iderw_wait b s = Done s" for p b
  proof -
    have "b \<notin> set bs"
      using ok that by (auto simp: ide_ok_def iderw_wait_def split: if_splits)
    then show ?thesis
      by (simp add: as_memide_def outcome_def requests_eq [OF ok] fold_transfer_other drives_of_def)
  qed
  ultimately show ?thesis
    using memide_call [OF assms(1) ok] by blast
qed

text \<open>
  C40. Every request is served, in the order of the queue: the request at position \<open>i\<close> is finished after
  \<open>i + 1\<close> interrupts, with the contents it has in the outcome, and a process that still has to wait
  in \<^verbatim>\<open>iderw\<close> has its buffer in the queue.
\<close>

theorem ide_requests_served:
  assumes "ata_controller io v" and "ide_reachable io v (s, w)"
  shows "(\<forall>i < length (requests s). \<exists>t. interrupts (Suc i) io s = Inr t \<and> requests t = drop (Suc i) (requests s)
       \<and> iderw_wait (requests s ! i) t = Done t \<and> bbuf t (requests s ! i) = fst (outcome v s) (requests s ! i))
    \<and> (\<forall>p b. w p = Some b \<and> iderw_wait b s \<noteq> Done s \<longrightarrow> b \<in> set (requests s))"
proof -
  obtain bs where ok: "ide_ok v s w bs"
    using ide_reachable_ok [OF assms] by auto
  note bs = requests_eq [OF ok]
  have "\<exists>t. interrupts (Suc i) io s = Inr t \<and> requests t = drop (Suc i) bs
      \<and> iderw_wait (bs ! i) t = Done t \<and> bbuf t (bs ! i) = fst (outcome v s) (bs ! i)" if i: "i < length bs" for i
  proof -
    obtain t where t: "interrupts (Suc i) io s = Inr t" "ide_ok v t w (drop (Suc i) bs)"
      "fold transfer (drop (Suc i) bs) (drives_of v t) = fold transfer bs (drives_of v s)"
      using interrupts_ok [OF assms(1) ok, of "Suc i"] i by auto
    have "bs ! i \<notin> set (drop (Suc i) bs)" "bs ! i \<in> ran w"
      using ok i distinct_drop [of bs i] by (auto simp: ide_ok_def simp flip: Cons_nth_drop_Suc)
    then show ?thesis
      using t waiting_done [OF t(2)] fold_transfer_other [of "bs ! i" "drop (Suc i) bs" "drives_of v t"]
      by (auto simp: outcome_def bs requests_eq [OF t(2)] drives_of_def)
  qed
  moreover have "b \<in> set bs" if "w p = Some b" "iderw_wait b s \<noteq> Done s" for p b
    using waiting_done [OF ok] that by (auto simp: ran_def)
  ultimately show ?thesis
    unfolding bs by blast
qed

section \<open>A controller\<close>

text \<open>Two drives in memory, with a busy status after every command and every written sector.\<close>

record ram =
  ram_task :: task
  ram_phase :: phase
  ram_medium :: "u32 \<Rightarrow> u32 \<Rightarrow> block"
  ram_busy :: nat

definition ram_outb :: "u16 \<Rightarrow> u8 \<Rightarrow> ram \<Rightarrow> ram" where
  "ram_outb port x d =
     (if port = 0x1f7 then d\<lparr>ram_phase := (if x = 0x20 then Reading else Writing), ram_busy := 1\<rparr>
      else d\<lparr>ram_task :=
        (if port = 0x1f2 then (ram_task d)\<lparr>t_count := x\<rparr>
         else if port = 0x1f3 then (ram_task d)\<lparr>t_low := x\<rparr>
         else if port = 0x1f4 then (ram_task d)\<lparr>t_mid := x\<rparr>
         else if port = 0x1f5 then (ram_task d)\<lparr>t_high := x\<rparr>
         else if port = 0x1f6 then (ram_task d)\<lparr>t_head := x\<rparr>
         else ram_task d)\<rparr>)"

definition ram_io :: "ram ide_io" where
  "ram_io = \<lparr>
     inb = (\<lambda>_ d. if ram_busy d = 0 then (0x40, d) else (0x80, d\<lparr>ram_busy := ram_busy d - 1\<rparr>)),
     outb = ram_outb,
     insl = (\<lambda>_ _ d. (ram_medium d (task_drive (ram_task d)) (task_sector (ram_task d)), d\<lparr>ram_phase := Idle\<rparr>)),
     outsl = (\<lambda>_ x _ d. d\<lparr>ram_phase := Idle, ram_busy := 1,
       ram_medium := put_sector (task_drive (ram_task d)) (task_sector (ram_task d)) x (ram_medium d)\<rparr>)\<rparr>"

definition ram_view :: "ram ata_view" where
  "ram_view = \<lparr>task_of = ram_task, phase_of = ram_phase, medium = ram_medium, polls = ram_busy\<rparr>"

lemma ram_ata: "ata_controller ram_io ram_view"
  by (simp add: ata_controller_def status_law_def register_law_def command_law_def data_law_def sets_task_def
      ram_io_def ram_view_def ram_outb_def)

text \<open>Process 0 holds a buffer to be written to block 5, process 1 a buffer to be read from block 7.\<close>

definition ide_machine :: "ram ide_state" where
  "ide_machine =
     bio_state.extend
       (ptable_state.extend (empty_state\<lparr>ptable := (\<lambda>p. free_proc\<lparr>pid := of_nat p + 1\<rparr>)\<rparr>)
         (bio_state.fields
           (\<lambda>b. \<lparr>bflags = (if b = 0 then 4 else 0), bdev = 1, bblockno = (if b = 0 then 5 else 7),
              block_lock = \<lparr>sl_locked = True, sl_pid = of_nat b + 1\<rparr>, brefcnt = 1, bprev = 30, bnext = 30,
              bdata = (\<lambda>_. 42)\<rparr>)
           (\<lambda>_ _. 0) 1000 []))
       (ide_state.fields None (\<lambda>_. None) False
         \<lparr>ram_task = \<lparr>t_count = 0, t_low = 0, t_mid = 0, t_high = 0, t_head = 0\<rparr>, ram_phase = Idle,
          ram_medium = (\<lambda>e n _. if e = 1 \<and> n = 7 then 9 else 0), ram_busy = 0\<rparr>)"

lemma ide_machine_defs:
  "idequeue ide_machine = None" "phase_of ram_view (controller ide_machine) = Idle"
  "ram_busy (controller ide_machine) = 0" "ptable ide_machine p = free_proc\<lparr>pid := of_nat p + 1\<rparr>"
  "drives_of ram_view ide_machine =
     (\<lambda>b. \<lparr>bflags = (if b = 0 then 4 else 0), bdev = 1, bblockno = (if b = 0 then 5 else 7),
        block_lock = \<lparr>sl_locked = True, sl_pid = of_nat b + 1\<rparr>, brefcnt = 1, bprev = 30, bnext = 30,
        bdata = (\<lambda>_. 42)\<rparr>, (\<lambda>e n _. if e = 1 \<and> n = 7 then 9 else 0))"
  by (simp_all add: ide_machine_def bio_state.defs ptable_state.defs ide_state.defs ram_view_def drives_of_def)

lemma ide_machine_boot:
  "\<exists>t. ideinit ram_io ide_machine = Inr t \<and> drives_of ram_view t = drives_of ram_view ide_machine
    \<and> ptable t = ptable ide_machine"
proof -
  have "wait_ready ram_io False (controller ide_machine) = Inr (0, controller ide_machine)"
    by (simp add: wait_ready_def idewait.simps ram_io_def ide_machine_defs)
  then show ?thesis
    by (simp add: ideinit_def eval_nat_numeral ram_io_def ram_outb_def ide_machine_defs(3) drives_of_def ram_view_def)
qed

lemma ide_machine_first:
  "\<exists>s. ide_reachable ram_io ram_view (s, [0 \<mapsto> 0]) \<and> ide_ok ram_view s [0 \<mapsto> 0] [0] \<and> ptable s = ptable ide_machine
    \<and> bbuf s = bbuf ide_machine \<and> outcome ram_view s = transfer 0 (drives_of ram_view ide_machine)"
proof -
  obtain t where t: "ideinit ram_io ide_machine = Inr t" "drives_of ram_view t = drives_of ram_view ide_machine"
    "ptable t = ptable ide_machine"
    using ide_machine_boot by blast
  have r: "ide_reachable ram_io ram_view (t, \<lambda>_. None)"
    using ide_machine_defs(1,2) t(1) by (rule ide_boot)
  have ok: "ide_ok ram_view t (\<lambda>_. None) []"
    using ram_ata ide_machine_defs(1,2) t(1) by (rule ideinit_ok)
  have b: "bbuf t = fst (drives_of ram_view ide_machine)"
    using t(2) by (simp add: drives_of_def)
  obtain s where s: "iderw_queue ram_io 0 0 t = Inr s" "ide_ok ram_view s [0 \<mapsto> 0] [0]" "bbuf s = bbuf t"
    "ptable s = ptable t" "fold transfer [0] (drives_of ram_view s) = transfer 0 (drives_of ram_view t)"
    using iderw_queue_ok [OF ram_ata ok, of 0 0] by (auto simp: b t(3) ide_machine_defs holdingsleep_def)
  have "ide_step ram_io (t, \<lambda>_. None) (s, [0 \<mapsto> 0])"
    using s(1) by (intro ide_call) (simp_all add: b ide_machine_defs)
  then have "ide_reachable ram_io ram_view (s, [0 \<mapsto> 0])"
    by (rule ide_next [OF r])
  then show ?thesis
    using s t(2,3) b requests_eq [OF s(2)] by (auto simp: outcome_def drives_of_def)
qed

theorem ide_refines_memide_witness:
  "\<exists>s w u t. ide_reachable ram_io ram_view (s, w) \<and> requests s = [0] \<and> iderw 1 1 (as_memide ram_view s) = Inr u
    \<and> iderw_queue ram_io 1 1 s = Inr t \<and> requests t = [0, 1] \<and> bbuf (as_memide ram_view t) = bbuf u
    \<and> bdata (bbuf u 1) = (\<lambda>_. 9)"
proof -
  obtain s where s: "ide_reachable ram_io ram_view (s, [0 \<mapsto> 0])" "ide_ok ram_view s [0 \<mapsto> 0] [0]"
    "ptable s = ptable ide_machine" "outcome ram_view s = transfer 0 (drives_of ram_view ide_machine)"
    using ide_machine_first by blast
  obtain u where u: "iderw 1 1 (as_memide ram_view s) = Inr u" "bdata (bbuf u 1) = (\<lambda>_. 9)"
    by (auto simp: iderw_def as_memide_def s(3,4) transfer_def ide_machine_defs holdingsleep_def put_sector_def
        upd_buf_def set_data_def)
  from ide_refines_memide [OF ram_ata s(1), THEN conjunct2, THEN conjunct1, THEN spec [of _ 1], THEN spec [of _ 1],
      THEN spec [of _ u]] u(1)
  obtain t where "iderw_queue ram_io 1 1 s = Inr t" "requests t = requests s @ [1]"
    "bbuf (as_memide ram_view t) = bbuf u"
    by (auto simp: s(3) ide_machine_defs)
  then show ?thesis
    using s(1) u requests_eq [OF s(2)] by auto
qed

theorem ide_requests_served_witness:
  "\<exists>s w t. ide_reachable ram_io ram_view (s, w) \<and> requests s = [0] \<and> interrupts 1 ram_io s = Inr t
    \<and> requests t = [] \<and> iderw_wait 0 t = Done t \<and> bflags (bbuf t 0) = B_VALID"
proof -
  obtain s where s: "ide_reachable ram_io ram_view (s, [0 \<mapsto> 0])" "ide_ok ram_view s [0 \<mapsto> 0] [0]"
    "outcome ram_view s = transfer 0 (drives_of ram_view ide_machine)"
    using ide_machine_first by blast
  have "bflags (fst (outcome ram_view s) 0) = 2"
    by (simp add: s(3) transfer_def ide_machine_defs)
  then show ?thesis
    using ide_requests_served [OF ram_ata s(1)] s(1) requests_eq [OF s(2)]
    by (auto simp del: interrupts.simps)
qed

end
