(* ===== verification/Spec2Isabelle.thy ===== *)
theory Spec2Isabelle
  imports VmFree SleepWakeup Trap Kbd PipeQueue LogUse WmapSafe FsCalls CowFault Sh FileData Ide
begin

text \<open>
  A model of xv6 with memory mapping and copy-on-write (\<^verbatim>\<open>src/xv6-public\<close>), and theorems about it.

  \<^bold>\<open>The program.\<close> xv6 is a small Unix kernel for multiprocessor x86. The physical page allocator (\<^verbatim>\<open>kalloc.c\<close>) hands
  out pages and counts their references; the page table code (\<^verbatim>\<open>vm.c\<close>) builds address spaces on them and copies
  them copy-on-write; spin locks (\<^verbatim>\<open>spinlock.c\<close>) and the process table with its scheduler, sleep and wakeup
  (\<^verbatim>\<open>proc.c\<close>) share the CPUs; the buffer cache (\<^verbatim>\<open>bio.c\<close>), the redo log (\<^verbatim>\<open>log.c\<close>) and the inode layer (\<^verbatim>\<open>fs.c\<close>)
  make files out of disk blocks; open files and pipes (\<^verbatim>\<open>file.c\<close>, \<^verbatim>\<open>pipe.c\<close>) and the console (\<^verbatim>\<open>console.c\<close>, \<^verbatim>\<open>kbd.c\<close>)
  sit on top; traps and system calls (\<^verbatim>\<open>trap.c\<close>, \<^verbatim>\<open>syscall.c\<close>, \<^verbatim>\<open>sysfile.c\<close>, \<^verbatim>\<open>sysproc.c\<close>, \<^verbatim>\<open>exec.c\<close>) enter it. This
  version adds \<^verbatim>\<open>wmap\<close>, \<^verbatim>\<open>wunmap\<close>, \<^verbatim>\<open>va2pa\<close> and \<^verbatim>\<open>getwmapinfo\<close>, lazy page faults and copy-on-write. User programs
  such as the shell (\<^verbatim>\<open>sh.c\<close>) and \<^verbatim>\<open>grep.c\<close> run on it.

  \<^bold>\<open>How the code is represented.\<close> The kernel's state is one record that each component extends with its own
  variables: \<open>kmem_state\<close> (physical memory as bytes, free list, reference counts), \<open>vm_state\<close> (\<^verbatim>\<open>cr3\<close>,
  \<^verbatim>\<open>kpgdir\<close>), \<open>smp_state\<close> (the CPUs), \<open>ptable_state\<close> (processes, ticks), \<open>bio_state\<close> (buffers, disk), \<open>log_state\<close>,
  \<open>fs_state\<close> (superblock, inode cache), \<open>cons_state\<close>, \<open>file_state\<close> (open files, pipes). A C function is an Isabelle
  function of the same name on this state. A function that can stop has the type \<open>'a result = stop + 'a\<close>: \<open>Panic\<close> with
  the message, \<open>BadAccess\<close> for an access outside of memory or of an array, \<open>Sleep\<close> where the process has to wait,
  \<open>Spinning\<close> on a lock that is held, \<open>AddrWrap\<close> where a loop over addresses would wrap around, and \<open>Diverges\<close> for a
  walk that does not end. C's \<^verbatim>\<open>uint\<close> and \<^verbatim>\<open>int\<close> are 32-bit words, with the signed comparisons where the source has
  them; pointers to table entries are indices; page tables, inodes on the disk, directory entries and ELF headers are
  read and written byte by byte in memory or in a block.

  \<^bold>\<open>The theories.\<close>
  \<^item> \<open>Prelude\<close>: results, loops (\<open>for_each\<close>, \<open>iterate\<close>, \<open>page_loop\<close>), lemmas on words.
  \<^item> \<open>Mmu\<close>, \<open>Kstring\<close>: \<^verbatim>\<open>mmu.h\<close>, \<^verbatim>\<open>memlayout.h\<close>, \<^verbatim>\<open>string.c\<close>, and memory as bytes.
  \<^item> \<open>Kalloc\<close>: \<^verbatim>\<open>kalloc.c\<close>. The free list as a chain of pages, boot, no page handed out twice, reference counts.
  \<^item> \<open>Vm\<close>, \<open>VmFrame\<close>, \<open>Cow\<close>, \<open>VmFree\<close>: \<^verbatim>\<open>vm.c\<close>. Page tables as a partial map of addresses; \<^verbatim>\<open>mappages\<close>, \<^verbatim>\<open>setupkvm\<close>,
    \<^verbatim>\<open>copyuvm\<close>, \<^verbatim>\<open>deallocuvm\<close>, \<^verbatim>\<open>freevm\<close> as functions on it.
  \<^item> \<open>Spinlock\<close>: \<^verbatim>\<open>spinlock.c\<close>, once as functions and once as a step relation with one step per access to the lock
    word; mutual exclusion for every interleaving.
  \<^item> \<open>Sched\<close>, \<open>SleepWakeup\<close>: \<^verbatim>\<open>proc.c\<close>. The scheduler's steps with the invariant that a running process has exactly
    one CPU, round robin, \<^verbatim>\<open>wait\<close>, \<^verbatim>\<open>exit\<close>, \<^verbatim>\<open>kill\<close>, and the protocol of \<^verbatim>\<open>sleep\<close> and \<^verbatim>\<open>wakeup\<close>.
  \<^item> \<open>Bio\<close>, \<open>BufCache\<close>, \<open>BlockStore\<close>, \<open>CacheTrace\<close>: \<^verbatim>\<open>sleeplock.c\<close>, \<^verbatim>\<open>memide.c\<close>, \<^verbatim>\<open>bio.c\<close>. The doubly linked list,
    the cache as a transparent store of blocks (locale \<open>block_cache\<close>, interpreted by \<^verbatim>\<open>bio.c\<close>).
  \<^item> \<open>Log\<close>, \<open>LogStore\<close>, \<open>LogSafe\<close>, \<open>LogUse\<close>: \<^verbatim>\<open>log.c\<close>. What is on the disk after a crash at any write of a commit
    or of a recovery; what \<^verbatim>\<open>log_write\<close> records.
  \<^item> \<open>Fs\<close>, \<open>Dir\<close>: \<^verbatim>\<open>fs.c\<close>. \<open>FsStore\<close>, \<open>FileMap\<close>, \<open>FileData\<close>: the bitmap, \<^verbatim>\<open>bmap\<close>, and the contents of a file under
    \<^verbatim>\<open>readi\<close> and \<^verbatim>\<open>writei\<close>.
  \<^item> \<open>Console\<close>, \<open>Kbd\<close>: \<^verbatim>\<open>console.c\<close>, \<^verbatim>\<open>kbd.c\<close>, \<^verbatim>\<open>kbd.h\<close>. \<open>File\<close>, \<open>Ring\<close>, \<open>PipeQueue\<close>: \<^verbatim>\<open>file.c\<close>, \<^verbatim>\<open>pipe.c\<close>, and the pipe
    as a queue.
  \<^item> \<open>Args\<close>, \<open>Sysfile\<close>, \<open>Exec\<close>, \<open>Proc\<close>, \<open>Wmap\<close>, \<open>Trap\<close>: the system calls, \<^verbatim>\<open>exec\<close>, \<^verbatim>\<open>fork\<close>, the mappings, page faults.
    \<open>FsStable\<close>, \<open>FsCalls\<close>: a chain of locales, one per layer, that lifts a property of the elementary steps to every
    file system call; used for termination and for what a call leaves alone. \<open>WmapSafe\<close>: the table of mappings.
    \<open>CowFault\<close>: the page fault handler.
  \<^item> \<open>Grep\<close>, \<open>Sh\<close>: the matcher of \<^verbatim>\<open>grep.c\<close> and the parser of \<^verbatim>\<open>sh.c\<close>.
  \<^item> \<open>Machine\<close>: a small concrete machine for the witnesses.

  \<^bold>\<open>Concurrency.\<close> The interleavings that the locks themselves have to withstand are modelled step by step
  (\<open>lk_step\<close>, \<open>sw_step\<close>, the scheduler's steps, the histories of the cache, of pipes and of mappings). Code inside a
  critical section is one step. A call that has to wait returns where it waits (\<open>Sleep\<close>, \<open>Block\<close>) and is called again.

  \<^bold>\<open>Fuel.\<close> A walk over the buffers takes at most 31 steps, which is enough on a well-formed ring; \<^verbatim>\<open>filewrite\<close>'s loop has
  one step per byte, since every pass writes at least one; path names have one step per character; the parser of
  the shell has four per character. That the fuel is enough is proved (\<open>file_calls_end\<close>, \<open>parsecmd_ends\<close>). All other
  loops have termination proofs.

  \<^bold>\<open>Not modelled.\<close> The hardware drivers and boot code that only program devices (\<^verbatim>\<open>lapic.c\<close>, \<^verbatim>\<open>ioapic.c\<close>, \<^verbatim>\<open>picirq.c\<close>,
  \<^verbatim>\<open>uart.c\<close>, \<^verbatim>\<open>ide.c\<close>, which the build replaces by \<^verbatim>\<open>memide.c\<close>, \<^verbatim>\<open>mp.c\<close>, \<^verbatim>\<open>bootmain.c\<close>, \<^verbatim>\<open>main.c\<close>, the assembly files): what
  they do is a sequence of port and memory-mapped accesses whose meaning is the device's. The test programs
  (\<^verbatim>\<open>usertests.c\<close>, \<^verbatim>\<open>tester.h\<close>, \<^verbatim>\<open>test_1.c\<close> to \<^verbatim>\<open>test_6.c\<close>, \<^verbatim>\<open>forktest.c\<close>, \<^verbatim>\<open>stressfs.c\<close>) and the small commands only make system
  calls and print. Header files with prototypes have no behaviour.
\<close>

end
